(* ===== verification/Prelude.thy ===== *)
theory Prelude
  imports Main "HOL-Library.Word" "HOL-Library.Monad_Syntax"
begin

text \<open>
  Shared vocabulary of the development: the machine types, Rust's \<open>Result\<close> with its panics,
  strings, and the few pieces of the standard library's slice API that the crate uses
  (\<open>chunks\<close>, \<open>position\<close>), each with the lemmas every component needs.
\<close>

unbundle bit_operations_syntax

section \<open>Types\<close>

type_synonym u8 = "8 word"
type_synonym u16 = "16 word"
type_synonym u32 = "32 word"
type_synonym i64 = "64 word"

text \<open>A Rust \<open>char\<close> is the number \<open>c as u32\<close>; \<open>is_scalar\<close> (theory Utf8) says which numbers
  are Unicode scalar values. A \<open>String\<close> or \<open>&str\<close> is its sequence of characters; where the
  source looks at the bytes of a string, so does the model (through \<open>utf8\<close>).\<close>

type_synonym rchar = nat
type_synonym rstring = "rchar list"
type_synonym bytes = "u8 list"

text \<open>\<open>Duration\<close> and \<open>Instant\<close> are counted in nanoseconds.\<close>

type_synonym duration = nat
type_synonym instant = nat

text \<open>The three ways a call ends: a value, an error, a panic.\<close>

datatype ('a, 'e) result = Ok 'a | Err 'e | Panic

fun map_err :: "('e \<Rightarrow> 'f) \<Rightarrow> ('a, 'e) result \<Rightarrow> ('a, 'f) result" where
  "map_err f (Ok x) = Ok x"
| "map_err f (Err e) = Err (f e)"
| "map_err f Panic = Panic"

fun ok_or :: "'a option \<Rightarrow> 'e \<Rightarrow> ('a, 'e) result" where
  "ok_or (Some x) e = Ok x"
| "ok_or None e = Err e"

fun and_then :: "('a, 'e) result \<Rightarrow> ('a \<Rightarrow> ('b, 'e) result) \<Rightarrow> ('b, 'e) result" where
  "and_then (Ok x) f = f x"
| "and_then (Err e) f = Err e"
| "and_then Panic f = Panic"

fun is_ok :: "('a, 'e) result \<Rightarrow> bool" where
  "is_ok (Ok _) = True"
| "is_ok _ = False"

lemma map_err_eq_Ok [simp]: "map_err f r = Ok x \<longleftrightarrow> r = Ok x"
  by (cases r) auto

lemma map_err_eq_Panic [simp]: "map_err f r = Panic \<longleftrightarrow> r = Panic"
  by (cases r) auto

lemma ok_or_eq_Ok [simp]: "ok_or r e = Ok x \<longleftrightarrow> r = Some x"
  by (cases r) auto

lemma ok_or_not_Panic [simp]: "ok_or r e \<noteq> Panic"
  by (cases r) auto

lemma and_then_eq_Ok [simp]: "and_then r f = Ok y \<longleftrightarrow> (\<exists>x. r = Ok x \<and> f x = Ok y)"
  by (cases r) auto

lemma and_then_eq_Panic: "and_then r f = Panic \<longleftrightarrow> r = Panic \<or> (\<exists>x. r = Ok x \<and> f x = Panic)"
  by (cases r) auto

lemma and_then_not_Panic [intro]:
  "r \<noteq> Panic \<Longrightarrow> (\<And>x. r = Ok x \<Longrightarrow> f x \<noteq> Panic) \<Longrightarrow> and_then r f \<noteq> Panic"
  by (cases r) auto

section \<open>Strings\<close>

text \<open>A literal of the source, as the characters it stands for.\<close>

definition str :: "string \<Rightarrow> rstring" where
  "str s = map of_char s"

lemma str_simps [simp]:
  "str [] = []"
  "str (c # s) = of_char c # str s"
  by (simp_all add: str_def)

lemma str_append [simp]: "str (s @ t) = str s @ str t"
  by (simp add: str_def)

lemma str_inject [simp]: "str s = str t \<longleftrightarrow> s = t"
  by (simp add: str_def inj_map_eq_map inj_on_def)

text \<open>\<open>contains\<close> of a string with a string pattern.\<close>

definition contains :: "'a list \<Rightarrow> 'a list \<Rightarrow> bool" where
  "contains s pat \<longleftrightarrow> list_ex (\<lambda>i. take (length pat) (drop i s) = pat) [0..<Suc (length s)]"

lemma containsI: "s = a @ pat @ b \<Longrightarrow> contains s pat"
  unfolding contains_def list_ex_iff by (rule bexI [of _ "length a"]) auto

section \<open>Bytes\<close>

text \<open>\<open>byte n\<close> is the byte with value \<open>n\<close>, for \<open>n\<close> below 256.\<close>

definition byte :: "nat \<Rightarrow> u8" where
  "byte n = of_nat n"

lemma unat_byte: "n < 256 \<Longrightarrow> unat (byte n) = n"
  by (simp add: byte_def unat_of_nat)

lemma byte_unat [simp]: "byte (unat b) = b"
  by (simp add: byte_def)

lemma byte_numeral [simp]:
  "byte 0 = 0" "byte (Suc 0) = 1" "byte (numeral k) = numeral k"
  by (simp_all add: byte_def)

lemma byte_eq_byte: "m < 256 \<Longrightarrow> n < 256 \<Longrightarrow> byte m = byte n \<longleftrightarrow> m = n"
  using unat_byte by metis

lemma u8_less_256 [simp]: "unat (b :: u8) < 256"
  using unsigned_less [of b, where ?'a = nat] by simp

lemma byte_eq_iff: "(b :: u8) = c \<longleftrightarrow> unat b = unat c"
  by (simp add: word_unat_eq_iff)

section \<open>Slices\<close>

text \<open>\<open>chunks n\<close> splits a slice into pieces of \<open>n\<close> elements, the last one possibly shorter.\<close>

fun chunks :: "nat \<Rightarrow> 'a list \<Rightarrow> 'a list list" where
  "chunks n xs = (if xs = [] \<or> n = 0 then [] else take n xs # chunks n (drop n xs))"

declare chunks.simps [simp del]

lemma chunks_Nil [simp]: "chunks n [] = []"
  by (simp add: chunks.simps)

lemma chunks_append:
  "length c = n \<Longrightarrow> 0 < n \<Longrightarrow> chunks n (c @ xs) = c # chunks n xs"
  by (subst chunks.simps) auto

lemma chunks_short:
  "xs \<noteq> [] \<Longrightarrow> length xs \<le> n \<Longrightarrow> chunks n xs = [xs]"
  by (subst chunks.simps) (cases "n = 0"; auto)

lemma concat_chunks: "0 < n \<Longrightarrow> concat (chunks n xs) = xs"
  by (induction n xs rule: chunks.induct) (subst chunks.simps, auto)

text \<open>\<open>iter().position(p)\<close>: the index of the first element that satisfies \<open>p\<close>.\<close>

fun position :: "('a \<Rightarrow> bool) \<Rightarrow> 'a list \<Rightarrow> nat option" where
  "position p [] = None"
| "position p (x # xs) = (if p x then Some 0 else map_option Suc (position p xs))"

lemma position_None [simp]: "position p xs = None \<longleftrightarrow> (\<forall>x\<in>set xs. \<not> p x)"
  by (induction xs) auto

lemma position_Some:
  "position p xs = Some i \<longleftrightarrow> i < length xs \<and> p (xs ! i) \<and> (\<forall>x\<in>set (take i xs). \<not> p x)"
  by (induction xs arbitrary: i) (auto simp: nth_Cons' split: nat.splits, (case_tac i; auto)+)

lemma position_append:
  "\<forall>x\<in>set xs. \<not> p x \<Longrightarrow> position p (xs @ ys) = map_option ((+) (length xs)) (position p ys)"
proof (induction xs)
  case Nil
  show ?case by (cases "position p ys") (simp_all del: position_None)
next
  case (Cons x xs)
  then show ?case by (cases "position p ys") (simp_all del: position_None)
qed

lemma position_takeWhile:
  "position p xs = Some i \<Longrightarrow> take i xs = takeWhile (Not \<circ> p) xs \<and> drop (Suc i) xs = tl (dropWhile (Not \<circ> p) xs)"
  by (induction xs arbitrary: i) (auto split: if_splits)

section \<open>Lists\<close>

lemma dropWhile_append_all:
  "\<forall>x\<in>set xs. p x \<Longrightarrow> dropWhile p (xs @ ys) = dropWhile p ys"
  by (induction xs) auto

lemma takeWhile_append_stop:
  "\<forall>x\<in>set xs. p x \<Longrightarrow> ys = [] \<or> \<not> p (hd ys) \<Longrightarrow> takeWhile p (xs @ ys) = xs \<and> dropWhile p (xs @ ys) = ys"
  by (induction xs) (cases ys; auto)+

lemma length_takeWhile_drop: "drop (length (takeWhile p xs)) xs = dropWhile p xs"
  by (simp add: dropWhile_eq_drop)

section \<open>Codecs\<close>

text \<open>
  The contract between the crate's encoders and decoders: on \<open>dom\<close>, decoding undoes encoding. An exact
  codec also accepts nothing else. Every encoder/decoder pair of the crate is an
  instance; what they have in common is proved here once.
\<close>

locale codec =
  fixes enc :: "'a \<Rightarrow> 'b"
    and dec :: "'b \<Rightarrow> ('a, 'e) result"
    and dom :: "'a \<Rightarrow> bool"
  assumes dec_enc: "dom x \<Longrightarrow> dec (enc x) = Ok x"
begin

lemma enc_inject: "dom x \<Longrightarrow> dom y \<Longrightarrow> enc x = enc y \<longleftrightarrow> x = y"
  using dec_enc by (metis result.inject(1))

lemma dec_enc_cong: "dom x \<Longrightarrow> y = enc x \<Longrightarrow> dec y = Ok x"
  by (simp add: dec_enc)

end

locale exact_codec = codec +
  assumes dec_sound: "dec y = Ok x \<Longrightarrow> dom x \<and> enc x = y"
begin

lemma dec_iff: "dec y = Ok x \<longleftrightarrow> dom x \<and> y = enc x"
  using dec_enc dec_sound by auto

lemma dec_inject: "dec y = Ok x \<Longrightarrow> dec z = Ok x \<Longrightarrow> y = z"
  using dec_sound by metis

end

end
