(* ===== verification/Utf8.thy ===== *)
theory Utf8
  imports Prelude
begin

text \<open>
  The standard library's UTF-8, as far as the crate uses it: \<open>char::from_u32\<close>, \<open>String::into_bytes\<close>
  (and \<open>as_bytes\<close>), \<open>str::from_utf8\<close> with its error, \<open>is_char_boundary\<close> and \<open>chars().next()\<close>
  on a slice of a valid string. \<open>utf8\<close> and \<open>from_utf8\<close> are inverse to each other.
\<close>

section \<open>Encoding\<close>

definition is_scalar :: "nat \<Rightarrow> bool" where
  "is_scalar c \<longleftrightarrow> c < 0xD800 \<or> 0xE000 \<le> c \<and> c < 0x110000"

definition char_from_u32 :: "u32 \<Rightarrow> rchar option" where
  "char_from_u32 w = (if is_scalar (unat w) then Some (unat w) else None)"

definition encode_char :: "rchar \<Rightarrow> bytes" where
  "encode_char c =
     (if c < 0x80 then [byte c]
      else if c < 0x800 then [byte (0xC0 + c div 64), byte (0x80 + c mod 64)]
      else if c < 0x10000 then
        [byte (0xE0 + c div 4096), byte (0x80 + c div 64 mod 64), byte (0x80 + c mod 64)]
      else
        [byte (0xF0 + c div 262144), byte (0x80 + c div 4096 mod 64),
         byte (0x80 + c div 64 mod 64), byte (0x80 + c mod 64)])"

definition utf8 :: "rstring \<Rightarrow> bytes" where
  "utf8 s = concat (map encode_char s)"

definition len_utf8 :: "rchar \<Rightarrow> nat" where
  "len_utf8 c = (if c < 0x80 then 1 else if c < 0x800 then 2 else if c < 0x10000 then 3 else 4)"

section \<open>Decoding\<close>

text \<open>
  One step of the validator: the character at the front and its width, or the error's
  \<open>error_len\<close> (\<open>None\<close> when the input ends inside a sequence).
\<close>

definition is_cont :: "u8 \<Rightarrow> bool" where
  "is_cont b \<longleftrightarrow> 0x80 \<le> unat b \<and> unat b < 0xC0"

definition second_ok3 :: "nat \<Rightarrow> nat \<Rightarrow> bool" where
  "second_ok3 a b \<longleftrightarrow>
     (if a = 0xE0 then 0xA0 \<le> b \<and> b < 0xC0
      else if a = 0xED then 0x80 \<le> b \<and> b < 0xA0
      else 0x80 \<le> b \<and> b < 0xC0)"

definition second_ok4 :: "nat \<Rightarrow> nat \<Rightarrow> bool" where
  "second_ok4 a b \<longleftrightarrow>
     (if a = 0xF0 then 0x90 \<le> b \<and> b < 0xC0
      else if a = 0xF4 then 0x80 \<le> b \<and> b < 0x90
      else 0x80 \<le> b \<and> b < 0xC0)"

fun decode_tail2 :: "nat \<Rightarrow> bytes \<Rightarrow> (rchar \<times> nat, nat option) result" where
  "decode_tail2 a [] = Err None"
| "decode_tail2 a (b # _) =
     (if is_cont b then Ok ((a - 0xC0) * 64 + (unat b - 0x80), 2) else Err (Some 1))"

fun decode_tail3 :: "nat \<Rightarrow> bytes \<Rightarrow> (rchar \<times> nat, nat option) result" where
  "decode_tail3 a [] = Err None"
| "decode_tail3 a (b # bs) =
     (if \<not> second_ok3 a (unat b) then Err (Some 1)
      else case bs of
        [] \<Rightarrow> Err None
      | c # _ \<Rightarrow>
          if is_cont c
          then Ok ((a - 0xE0) * 4096 + (unat b - 0x80) * 64 + (unat c - 0x80), 3)
          else Err (Some 2))"

fun decode_tail4 :: "nat \<Rightarrow> bytes \<Rightarrow> (rchar \<times> nat, nat option) result" where
  "decode_tail4 a [] = Err None"
| "decode_tail4 a (b # bs) =
     (if \<not> second_ok4 a (unat b) then Err (Some 1)
      else case bs of
        [] \<Rightarrow> Err None
      | c # cs \<Rightarrow>
          if \<not> is_cont c then Err (Some 2)
          else case cs of
            [] \<Rightarrow> Err None
          | d # _ \<Rightarrow>
              if is_cont d
              then Ok ((a - 0xF0) * 262144 + (unat b - 0x80) * 4096 + (unat c - 0x80) * 64
                       + (unat d - 0x80), 4)
              else Err (Some 3))"

fun decode_first :: "bytes \<Rightarrow> (rchar \<times> nat, nat option) result" where
  "decode_first [] = Err None"
| "decode_first (b # bs) =
     (let a = unat b in
      if a < 0x80 then Ok (a, 1)
      else if a < 0xC2 then Err (Some 1)
      else if a < 0xE0 then decode_tail2 a bs
      else if a < 0xF0 then decode_tail3 a bs
      else if a < 0xF5 then decode_tail4 a bs
      else Err (Some 1))"

text \<open>\<open>Utf8Error\<close>, and \<open>str::from_utf8\<close>: the characters of the string, or the first error.\<close>

record utf8_error =
  valid_up_to :: nat
  error_len :: "nat option"

lemma decode_tail_width:
  "decode_tail2 a bs = Ok (c, n) \<Longrightarrow> n = 2"
  "decode_tail3 a bs = Ok (c, n) \<Longrightarrow> n = 3"
  "decode_tail4 a bs = Ok (c, n) \<Longrightarrow> n = 4"
  by (cases bs; cases "tl bs"; cases "tl (tl bs)"; simp split: if_splits)+

lemma decode_first_pos: "decode_first bs = Ok (c, n) \<Longrightarrow> 0 < n"
  by (cases bs) (auto simp: Let_def dest: decode_tail_width split: if_splits)

function from_utf8_at :: "nat \<Rightarrow> bytes \<Rightarrow> (rstring, utf8_error) result" where
  "from_utf8_at i [] = Ok []"
| "from_utf8_at i (b # bs) =
     (case decode_first (b # bs) of
        Ok (c, n) \<Rightarrow>
          (case from_utf8_at (i + n) (drop n (b # bs)) of
             Ok cs \<Rightarrow> Ok (c # cs) | Err e \<Rightarrow> Err e | Panic \<Rightarrow> Panic)
      | Err l \<Rightarrow> Err \<lparr>valid_up_to = i, error_len = l\<rparr>
      | Panic \<Rightarrow> Panic)"
  by pat_completeness auto
termination
  by (relation "measure (\<lambda>(i, bs). length bs)") (auto dest: decode_first_pos simp del: decode_first.simps)

definition from_utf8 :: "bytes \<Rightarrow> (rstring, utf8_error) result" where
  "from_utf8 bs = from_utf8_at 0 bs"

section \<open>The two are inverse\<close>

lemma is_cont_byte [simp]: "is_cont (byte (128 + c mod 64))"
proof -
  have "128 + c mod 64 < 256" by presburger
  then show ?thesis by (simp add: is_cont_def unat_byte)
qed

lemma unat_cont_byte [simp]: "unat (byte (128 + c mod 64)) = 128 + c mod 64"
  by (rule unat_byte) presburger

lemma length_encode_char: "length (encode_char c) = len_utf8 c"
  by (simp add: encode_char_def len_utf8_def)

lemma encode_char_not_Nil [simp]: "encode_char c \<noteq> []"
  by (simp add: encode_char_def)

lemma utf8_Nil [simp]: "utf8 [] = []"
  and utf8_Cons [simp]: "utf8 (c # s) = encode_char c @ utf8 s"
  and utf8_append [simp]: "utf8 (s @ t) = utf8 s @ utf8 t"
  by (simp_all add: utf8_def)

lemma utf8_eq_Nil [simp]: "utf8 s = [] \<longleftrightarrow> s = []"
  by (cases s) simp_all

lemma encode_ascii: "c < 128 \<Longrightarrow> encode_char c = [byte c]"
  by (simp add: encode_char_def)

lemma utf8_ascii: "\<forall>c\<in>set s. c < 128 \<Longrightarrow> utf8 s = map byte s"
  by (induction s) (simp_all add: encode_ascii)

lemma split64_3: "(c :: nat) div 4096 * 4096 + c div 64 mod 64 * 64 + c mod 64 = c"
proof -
  have "c div 4096 = c div 64 div 64" by (simp add: div_mult2_eq [symmetric])
  moreover have "c div 64 div 64 * 64 + c div 64 mod 64 = c div 64" and "c div 64 * 64 + c mod 64 = c"
    by simp_all
  ultimately show ?thesis by linarith
qed

lemma split64_4:
  "(c :: nat) div 262144 * 262144 + c div 4096 mod 64 * 4096 + c div 64 mod 64 * 64 + c mod 64 = c"
proof -
  have "c div 262144 = c div 4096 div 64" by (simp add: div_mult2_eq [symmetric])
  moreover have "c div 4096 div 64 * 64 + c div 4096 mod 64 = c div 4096" by simp
  ultimately show ?thesis using split64_3 [of c] by linarith
qed

lemma join64:
  fixes x y z :: nat
  assumes "z < 64"
  shows "(x * 64 + z) div 64 = x" and "(x * 64 + z) mod 64 = z"
  using assms by simp_all

lemma decode_encode_char:
  assumes "is_scalar c"
  shows "decode_first (encode_char c @ rest) = Ok (c, len_utf8 c)"
proof -
  consider (a) "c < 128" | (b) "128 \<le> c" "c < 2048" | (c) "2048 \<le> c" "c < 65536"
    | (d) "65536 \<le> c" "c < 1114112"
    using assms unfolding is_scalar_def by linarith
  then show ?thesis
  proof cases
    case a
    then show ?thesis by (simp add: encode_char_def len_utf8_def unat_byte)
  next
    case b
    then have h: "unat (byte (192 + c div 64)) = 192 + c div 64"
      by (intro unat_byte) simp
    have "2 \<le> c div 64" "c div 64 < 32" using b by linarith+
    with b show ?thesis
      by (simp add: encode_char_def len_utf8_def h Let_def)
  next
    case c
    then have h: "unat (byte (224 + c div 4096)) = 224 + c div 4096"
      by (intro unat_byte) simp
    have l: "c div 4096 < 16" using c by linarith
    have s: "second_ok3 (224 + c div 4096) (128 + c div 64 mod 64)"
      using c assms mod_less_divisor [of 64 "c div 64"] split64_3 [of c]
      unfolding second_ok3_def is_scalar_def by auto
    have e: "c div 4096 * 4096 + c div 64 mod 64 * 64 + c mod 64 = c"
      by (rule split64_3)
    from c l show ?thesis
      by (simp add: encode_char_def len_utf8_def h s e Let_def)
  next
    case d
    then have h: "unat (byte (240 + c div 262144)) = 240 + c div 262144"
      by (intro unat_byte) simp
    have l: "c div 262144 < 5" using d by linarith
    have s: "second_ok4 (240 + c div 262144) (128 + c div 4096 mod 64)"
      using d mod_less_divisor [of 64 "c div 64"] mod_less_divisor [of 64 "c div 4096"] split64_4 [of c]
      unfolding second_ok4_def by auto
    have e: "c div 262144 * 262144 + c div 4096 mod 64 * 4096 + c div 64 mod 64 * 64 + c mod 64 = c"
      by (rule split64_4)
    from d l show ?thesis
      by (simp add: encode_char_def len_utf8_def h s e Let_def)
  qed
qed

text \<open>Conversely, what the decoder accepts is exactly an encoded scalar value.\<close>

lemma encode_char2:
  "2 \<le> x \<Longrightarrow> x < 32 \<Longrightarrow> y < 64 \<Longrightarrow> encode_char (x * 64 + y) = [byte (192 + x), byte (128 + y)]"
  by (simp add: encode_char_def)

lemma encode_char3:
  "32 \<le> x * 64 + y \<Longrightarrow> x < 16 \<Longrightarrow> y < 64 \<Longrightarrow> z < 64 \<Longrightarrow>
   encode_char (x * 4096 + y * 64 + z) = [byte (224 + x), byte (128 + y), byte (128 + z)]"
proof -
  assume a: "32 \<le> x * 64 + y" "x < 16" "y < 64" "z < 64"
  define c where "c = x * 4096 + y * 64 + z"
  have c: "c = (x * 64 + y) * 64 + z" by (simp add: c_def)
  have "c div 64 = x * 64 + y" "c mod 64 = z" unfolding c using a by (simp_all only: join64)
  moreover from this have "c div 4096 = x" "c div 64 mod 64 = y"
    using a by (simp_all add: div_mult2_eq [of c 64 64, simplified])
  moreover have "2048 \<le> c" "c < 65536" using a by (simp_all add: c_def)
  ultimately show ?thesis
    unfolding c_def [symmetric] by (simp add: encode_char_def)
qed

lemma encode_char4:
  "16 \<le> x * 64 + y \<Longrightarrow> x < 5 \<Longrightarrow> y < 64 \<Longrightarrow> z < 64 \<Longrightarrow> w < 64 \<Longrightarrow>
   encode_char (x * 262144 + y * 4096 + z * 64 + w) =
     [byte (240 + x), byte (128 + y), byte (128 + z), byte (128 + w)]"
proof -
  assume a: "16 \<le> x * 64 + y" "x < 5" "y < 64" "z < 64" "w < 64"
  define c where "c = x * 262144 + y * 4096 + z * 64 + w"
  have c: "c = (x * 4096 + y * 64 + z) * 64 + w" by (simp add: c_def)
  have d: "c div 64 = (x * 64 + y) * 64 + z" "c mod 64 = w"
    unfolding c using a by (simp_all only: join64) simp
  have q: "c div 4096 = c div 64 div 64" "c div 262144 = c div 4096 div 64"
    by (simp_all add: div_mult2_eq [symmetric])
  have e: "c div 4096 = x * 64 + y" "c div 64 mod 64 = z"
    unfolding q d using a by (simp_all only: join64)
  have "c div 262144 = x" "c div 4096 mod 64 = y"
    unfolding q(2) e using a by (simp_all only: join64)
  moreover have "65536 \<le> c" using a by (simp add: c_def)
  ultimately show ?thesis
    unfolding c_def [symmetric] using d e by (simp add: encode_char_def)
qed

lemma decode_first_sound:
  assumes "decode_first bs = Ok (c, n)"
  shows "is_scalar c" and "bs = encode_char c @ drop n bs" and "n = length (encode_char c)"
proof -
  have "is_scalar c \<and> bs = encode_char c @ drop n bs \<and> n = length (encode_char c)"
  proof (cases bs)
    case Nil
    with assms show ?thesis by simp
  next
    case (Cons b bs')
    let ?a = "unat b"
    consider (1) "?a < 128" | (2) "194 \<le> ?a" "?a < 224" | (3) "224 \<le> ?a" "?a < 240"
      | (4) "240 \<le> ?a" "?a < 245"
      using assms Cons by (auto simp: Let_def split: if_splits)
    then show ?thesis
    proof cases
      case 1
      with assms Cons show ?thesis
        by (auto simp: is_scalar_def encode_char_def)
    next
      case 2
      with assms Cons obtain d ds where d: "bs' = d # ds" "is_cont d"
          "c = (?a - 192) * 64 + (unat d - 128)" "n = 2"
        by (cases bs') (auto simp: Let_def split: if_splits)
      have "encode_char c = [byte (192 + (?a - 192)), byte (128 + (unat d - 128))]"
        unfolding d(3) using 2 d(2) by (intro encode_char2) (auto simp: is_cont_def)
      then have "encode_char c = [b, d]" using 2 d(2) by (simp add: is_cont_def)
      moreover have "is_scalar c"
        using 2 d(2) by (auto simp: d(3) is_scalar_def is_cont_def)
      ultimately show ?thesis using Cons d by simp
    next
      case 3
      with assms Cons obtain d e es where d: "bs' = d # e # es" "second_ok3 ?a (unat d)"
          "is_cont e" "c = (?a - 224) * 4096 + (unat d - 128) * 64 + (unat e - 128)" "n = 3"
        by (cases bs'; cases "tl bs'") (auto simp: Let_def split: if_splits)
      have dl: "128 \<le> unat d" "unat d < 192"
        using d(2) by (auto simp: second_ok3_def split: if_splits)
      have "encode_char c = [byte (224 + (?a - 224)), byte (128 + (unat d - 128)), byte (128 + (unat e - 128))]"
        unfolding d(4) using 3 d(2,3) dl
        by (intro encode_char3) (auto simp: is_cont_def second_ok3_def split: if_splits)
      then have "encode_char c = [b, d, e]" using 3 d(3) dl by (simp add: is_cont_def)
      moreover have "is_scalar c"
        using 3 d(2,3) by (auto simp: d(4) is_scalar_def is_cont_def second_ok3_def split: if_splits)
      ultimately show ?thesis using Cons d by simp
    next
      case 4
      with assms Cons obtain d e f es where d: "bs' = d # e # f # es" "second_ok4 ?a (unat d)"
          "is_cont e" "is_cont f" "n = 4"
          "c = (?a - 240) * 262144 + (unat d - 128) * 4096 + (unat e - 128) * 64 + (unat f - 128)"
        by (cases bs'; cases "tl bs'"; cases "tl (tl bs')") (auto simp: Let_def split: if_splits)
      have dl: "128 \<le> unat d" "unat d < 192"
        using d(2) by (auto simp: second_ok4_def split: if_splits)
      have "encode_char c = [byte (240 + (?a - 240)), byte (128 + (unat d - 128)),
          byte (128 + (unat e - 128)), byte (128 + (unat f - 128))]"
        unfolding d(6) using 4 d(2,3,4) dl
        by (intro encode_char4) (auto simp: is_cont_def second_ok4_def split: if_splits)
      then have "encode_char c = [b, d, e, f]" using 4 d(3,4) dl by (simp add: is_cont_def)
      moreover have "is_scalar c"
        using 4 d(2,3,4) by (auto simp: d(6) is_scalar_def is_cont_def second_ok4_def split: if_splits)
      ultimately show ?thesis using Cons d by simp
    qed
  qed
  then show "is_scalar c" and "bs = encode_char c @ drop n bs" and "n = length (encode_char c)"
    by blast+
qed

lemma decode_first_not_Panic [simp]: "decode_first bs \<noteq> Panic"
  by (cases bs; cases "tl bs"; cases "tl (tl bs)"; cases "tl (tl (tl bs))")
     (auto simp: Let_def split: if_splits)

definition valid_string :: "rstring \<Rightarrow> bool" where
  "valid_string s \<longleftrightarrow> list_all is_scalar s"

lemma valid_string_simps [simp]:
  "valid_string []"
  "valid_string (c # s) \<longleftrightarrow> is_scalar c \<and> valid_string s"
  "valid_string (s @ t) \<longleftrightarrow> valid_string s \<and> valid_string t"
  by (simp_all add: valid_string_def)

lemma ascii_scalar: "c < 128 \<Longrightarrow> is_scalar c"
  by (simp add: is_scalar_def)

lemma valid_string_ascii: "\<forall>c\<in>set s. c < 128 \<Longrightarrow> valid_string s"
  by (induction s) (simp_all add: ascii_scalar)

lemma from_utf8_at_utf8: "valid_string s \<Longrightarrow> from_utf8_at i (utf8 s) = Ok s"
proof (induction s arbitrary: i)
  case Nil
  then show ?case by simp
next
  case (Cons c s)
  obtain b bs where b: "encode_char c @ utf8 s = b # bs"
    by (cases "encode_char c @ utf8 s") auto
  have "decode_first (b # bs) = Ok (c, len_utf8 c)"
    using decode_encode_char [of c "utf8 s"] Cons.prems b by simp
  moreover have "drop (len_utf8 c) (b # bs) = utf8 s"
    unfolding b [symmetric] by (simp add: length_encode_char [symmetric])
  ultimately show ?case
    using Cons b by (simp del: decode_first.simps)
qed

lemma from_utf8_at_sound:
  "from_utf8_at i bs = Ok s \<Longrightarrow> valid_string s \<and> utf8 s = bs"
proof (induction i bs arbitrary: s rule: from_utf8_at.induct)
  case (1 i)
  then show ?case by simp
next
  case (2 i b bs)
  then obtain c n t where *: "decode_first (b # bs) = Ok (c, n)"
      "from_utf8_at (i + n) (drop n (b # bs)) = Ok t" "s = c # t"
    by (auto split: result.splits prod.splits simp del: decode_first.simps)
  with "2.IH" have "valid_string t \<and> utf8 t = drop n (b # bs)" by blast
  with *(3) decode_first_sound [OF *(1)] show ?case by simp
qed

lemma from_utf8_at_not_Panic: "from_utf8_at i bs \<noteq> Panic"
  by (induction i bs rule: from_utf8_at.induct)
     (auto split: result.splits prod.splits simp del: decode_first.simps)

interpretation utf8c: exact_codec utf8 from_utf8 valid_string
  by unfold_locales (simp_all add: from_utf8_def from_utf8_at_utf8 from_utf8_at_sound)

lemmas from_utf8_iff = utf8c.dec_iff
lemmas utf8_inject = utf8c.enc_inject

section \<open>Boundaries\<close>

text \<open>
  \<open>&s[i..]\<close> panics unless \<open>i\<close> is on a character boundary: the start, the end, or a byte that
  is not a continuation byte. The model is on the bytes of the (valid) string.
\<close>

definition is_char_boundary :: "bytes \<Rightarrow> nat \<Rightarrow> bool" where
  "is_char_boundary bs i \<longleftrightarrow>
     i = 0 \<or> i = length bs \<or> i < length bs \<and> \<not> is_cont (bs ! i)"

definition str_from :: "bytes \<Rightarrow> nat \<Rightarrow> (bytes, 'e) result" where
  "str_from bs i = (if is_char_boundary bs i then Ok (drop i bs) else Panic)"

definition str_slice :: "bytes \<Rightarrow> nat \<Rightarrow> nat \<Rightarrow> (bytes, 'e) result" where
  "str_slice bs i j =
     (if i \<le> j \<and> is_char_boundary bs i \<and> is_char_boundary bs j
      then Ok (take (j - i) (drop i bs)) else Panic)"

text \<open>\<open>chars().next()\<close> and \<open>to_string()\<close> of such a slice.\<close>

definition first_char :: "bytes \<Rightarrow> rchar option" where
  "first_char bs = (case decode_first bs of Ok (c, n) \<Rightarrow> Some c | _ \<Rightarrow> None)"

definition slice_to_string :: "bytes \<Rightarrow> (rstring, 'e) result" where
  "slice_to_string bs = (case from_utf8 bs of Ok s \<Rightarrow> Ok s | _ \<Rightarrow> Panic)"

lemma encode_char_hd_not_cont: "is_scalar c \<Longrightarrow> \<not> is_cont (hd (encode_char c))"
proof -
  assume "is_scalar c"
  then have "c < 1114112" by (auto simp: is_scalar_def)
  then have "c < 2048 \<Longrightarrow> unat (byte (192 + c div 64)) = 192 + c div 64"
    "c < 65536 \<Longrightarrow> unat (byte (224 + c div 4096)) = 224 + c div 4096"
    "unat (byte (240 + c div 262144)) = 240 + c div 262144"
    by (auto intro!: unat_byte)
  then show ?thesis
    by (simp add: encode_char_def is_cont_def unat_byte)
qed

lemma boundary_utf8:
  "valid_string t \<Longrightarrow> is_char_boundary (utf8 s @ utf8 t) (length (utf8 s))"
proof (cases t)
  case (Cons c t')
  assume "valid_string t"
  then have "\<not> is_cont (hd (encode_char c))" using Cons by (simp add: encode_char_hd_not_cont)
  moreover have "(utf8 s @ utf8 t) ! length (utf8 s) = hd (encode_char c)"
    using Cons by (cases "encode_char c") (auto simp: nth_append)
  ultimately show ?thesis using Cons by (simp add: is_char_boundary_def)
qed (simp add: is_char_boundary_def)

lemma first_char_utf8: "is_scalar c \<Longrightarrow> first_char (utf8 (c # t)) = Some c"
  by (simp add: first_char_def decode_encode_char)

lemma slice_to_string_utf8 [simp]: "valid_string s \<Longrightarrow> slice_to_string (utf8 s) = Ok s"
  by (simp add: slice_to_string_def utf8c.dec_enc)

end
