(* ===== verification/StdText.thy ===== *)
theory StdText
  imports Utf8
begin

text \<open>
  The text the standard library produces and reads for the crate: decimal and hexadecimal
  integers, \<open>i64::from_str\<close>, and the \<open>{:?}\<close> form of the characters and literals that appear in
  error messages.
\<close>

section \<open>Decimal\<close>

fun show_nat :: "nat \<Rightarrow> rstring" where
  "show_nat n = (if n < 10 then [48 + n] else show_nat (n div 10) @ [48 + n mod 10])"

declare show_nat.simps [simp del]

definition show_int :: "int \<Rightarrow> rstring" where
  "show_int i = (if i < 0 then 45 # show_nat (nat (- i)) else show_nat (nat i))"

definition show_i64 :: "i64 \<Rightarrow> rstring" where
  "show_i64 w = show_int (sint w)"

definition is_digit :: "rchar \<Rightarrow> bool" where
  "is_digit c \<longleftrightarrow> 48 \<le> c \<and> c \<le> 57"

definition digits_value :: "rstring \<Rightarrow> nat" where
  "digits_value ds = foldl (\<lambda>n d. 10 * n + (d - 48)) 0 ds"

text \<open>\<open>i64::from_str\<close>: an optional sign, at least one digit, nothing else, and in range.\<close>

definition digits_opt :: "rstring \<Rightarrow> nat option" where
  "digits_opt ds = (if ds \<noteq> [] \<and> list_all is_digit ds then Some (digits_value ds) else None)"

definition int_opt :: "rstring \<Rightarrow> int option" where
  "int_opt s =
     (case s of
        [] \<Rightarrow> None
      | c # cs \<Rightarrow>
          if c = 45 then map_option (\<lambda>n. - int n) (digits_opt cs)
          else if c = 43 then map_option int (digits_opt cs)
          else map_option int (digits_opt s))"

definition parse_i64 :: "rstring \<Rightarrow> i64 option" where
  "parse_i64 s =
     (case int_opt s of
        None \<Rightarrow> None
      | Some i \<Rightarrow> if - (2 ^ 63) \<le> i \<and> i < 2 ^ 63 then Some (word_of_int i) else None)"

lemma digits_value_snoc [simp]: "digits_value (ds @ [d]) = 10 * digits_value ds + (d - 48)"
  by (simp add: digits_value_def)

lemma digits_value_Nil [simp]: "digits_value [] = 0"
  by (simp add: digits_value_def)

lemma digits_value_single [simp]: "digits_value [d] = d - 48"
  by (simp add: digits_value_def)

lemma is_digit_add [simp]: "is_digit (48 + n) \<longleftrightarrow> n < 10"
  by (auto simp: is_digit_def)

lemma show_nat_digits: "list_all is_digit (show_nat n)"
  by (induction n rule: show_nat.induct) (subst show_nat.simps, auto simp del: One_nat_def)

lemma show_nat_not_Nil [simp]: "show_nat n \<noteq> []"
  by (subst show_nat.simps) simp

lemma digits_value_show_nat [simp]: "digits_value (show_nat n) = n"
  by (induction n rule: show_nat.induct) (subst show_nat.simps, auto)

lemma digits_opt_show_nat [simp]: "digits_opt (show_nat n) = Some n"
  by (simp add: digits_opt_def show_nat_digits)

lemma show_nat_hd_digit: "is_digit (hd (show_nat n))"
  using show_nat_digits [of n] by (cases "show_nat n") auto

text \<open>The digits have no leading zero, but for the number zero itself.\<close>

lemma show_nat_hd_nonzero: "0 < n \<Longrightarrow> hd (show_nat n) \<noteq> 48"
proof (induction n rule: show_nat.induct)
  case (1 n)
  then show ?case by (subst show_nat.simps) auto
qed

lemma show_nat_0 [simp]: "show_nat 0 = [48]"
  by (subst show_nat.simps) simp

lemma int_opt_show_int [simp]: "int_opt (show_int i) = Some i"
proof (cases "i < 0")
  case True
  then show ?thesis by (simp add: show_int_def int_opt_def)
next
  case False
  obtain c cs where c: "show_nat (nat i) = c # cs" by (cases "show_nat (nat i)") auto
  then have "is_digit c" using show_nat_hd_digit [of "nat i"] by simp
  then have "c \<noteq> 45" "c \<noteq> 43" by (auto simp: is_digit_def)
  then have "int_opt (c # cs) = map_option int (digits_opt (c # cs))" by (simp add: int_opt_def)
  with False show ?thesis by (simp add: show_int_def c [symmetric])
qed

lemma sint_i64_range: "- (2 ^ 63) \<le> sint (w :: i64)" "sint (w :: i64) < 2 ^ 63"
  using sint_range_size [of w] by (simp_all add: word_size)

lemma parse_show_i64: "parse_i64 (show_i64 w) = Some w"
  using sint_i64_range [of w] by (simp add: parse_i64_def show_i64_def)

interpretation i64_text: codec show_i64 "\<lambda>s. ok_or (parse_i64 s) ()" "\<lambda>w. True"
  by unfold_locales (simp add: parse_show_i64)

text \<open>What a successful parse says of the text, and when a parse fails.\<close>

lemma sint_word_of_int_i64:
  "- (2 ^ 63) \<le> i \<Longrightarrow> i < 2 ^ 63 \<Longrightarrow> sint (word_of_int i :: i64) = i"
  by (simp add: sint_sbintrunc' signed_take_bit_int_eq_self)

lemma parse_i64_Some_iff: "parse_i64 s = Some w \<longleftrightarrow> int_opt s = Some (sint w)"
  using sint_i64_range [of w]
  by (auto simp: parse_i64_def sint_word_of_int_i64 split: option.splits if_splits)

lemma parse_i64_None_iff:
  "parse_i64 s = None \<longleftrightarrow>
     (\<forall>i. int_opt s = Some i \<longrightarrow> i < - (2 ^ 63) \<or> 2 ^ 63 \<le> i)"
  by (auto simp: parse_i64_def split: option.splits if_splits)

section \<open>Hexadecimal\<close>

definition hex_digit :: "nat \<Rightarrow> rchar" where
  "hex_digit n = (if n < 10 then 48 + n else 87 + n)"

fun show_hex :: "nat \<Rightarrow> rstring" where
  "show_hex n = (if n < 16 then [hex_digit n] else show_hex (n div 16) @ [hex_digit (n mod 16)])"

declare show_hex.simps [simp del]

text \<open>\<open>{:04x}\<close>.\<close>

definition show_04x :: "nat \<Rightarrow> rstring" where
  "show_04x n = (let h = show_hex n in replicate (4 - length h) 48 @ h)"

section \<open>Debug forms\<close>

text \<open>
  \<open>{:?}\<close> of a \<open>char\<close> made from a byte (so below U+0100): the escapes of \<open>char::escape_debug\<close>, with \<open>\u{..}\<close>
  for what is not printable (controls, U+007F to U+00A0, and the soft hyphen).
\<close>

definition debug_char :: "rchar \<Rightarrow> rstring" where
  "debug_char c =
     39 #
     (if c = 0 then str [CHR 0x5C, CHR ''0'']
      else if c = 9 then str [CHR 0x5C, CHR ''t'']
      else if c = 10 then str [CHR 0x5C, CHR ''n'']
      else if c = 13 then str [CHR 0x5C, CHR ''r'']
      else if c = 39 then [92, 39]
      else if c = 92 then [92, 92]
      else if c < 32 \<or> 127 \<le> c \<and> c \<le> 160 \<or> c = 173 then [92, 117, 123] @ show_hex c @ [125]
      else [c])
     @ [39]"

text \<open>\<open>{:?}\<close> of the crate's own string literals, none of which has a character to escape.\<close>

definition debug_lit :: "string \<Rightarrow> rstring" where
  "debug_lit s = 34 # str s @ [34]"

end
