(* ===== verification/F64.thy ===== *)
theory F64
  imports StdText
begin

text \<open>
  The standard library's \<open>f64\<close> as the crate uses it: \<open>is_finite\<close>, \<open>from_str\<close> (correctly rounded,
  ties to even, overflow to infinity) and the \<open>{:?}\<close> form (shortest decimal that reads back, in
  exponent form from 1e16 on and below 1e-4). A float is its 64 bits.
\<close>

type_synonym f64 = "64 word"

section \<open>Bits\<close>

text \<open>
  The magnitude is the number of the low 63 bits: exponent field times \<open>2^52\<close> plus fraction. Magnitudes
  of finite numbers are below \<open>inf_mag\<close>, and the float with magnitude \<open>k\<close> is \<open>scaled k / denom\<close>.
\<close>

definition inf_mag :: nat where
  "inf_mag = 2047 * 2 ^ 52"

definition is_negative :: "f64 \<Rightarrow> bool" where
  "is_negative v \<longleftrightarrow> 2 ^ 63 \<le> unat v"

definition mag :: "f64 \<Rightarrow> nat" where
  "mag v = unat v mod 2 ^ 63"

definition is_finite :: "f64 \<Rightarrow> bool" where
  "is_finite v \<longleftrightarrow> mag v < inf_mag"

definition make_f64 :: "bool \<Rightarrow> nat \<Rightarrow> f64" where
  "make_f64 neg k = of_nat ((if neg then 2 ^ 63 else 0) + k)"

definition scaled :: "nat \<Rightarrow> nat" where
  "scaled k =
     (if k < 2 ^ 52 then k else (2 ^ 52 + k mod 2 ^ 52) * 2 ^ (k div 2 ^ 52 - 1))"

section \<open>Rounding\<close>

text \<open>The smallest positive float is \<open>1 / denom\<close>.\<close>

definition denom :: nat where
  "denom = 2 ^ 1074"

fun log2n :: "nat \<Rightarrow> nat" where
  "log2n n = (if n < 2 then 0 else Suc (log2n (n div 2)))"

declare log2n.simps [simp del]

definition round_half_even :: "nat \<Rightarrow> nat \<Rightarrow> nat" where
  "round_half_even a b =
     (let q = a div b; r = a mod b in
      if b < 2 * r \<or> b = 2 * r \<and> odd q then q + 1 else q)"

text \<open>The magnitude nearest to the fraction \<open>a / b\<close>.\<close>

definition round_frac :: "nat \<Rightarrow> nat \<Rightarrow> nat" where
  "round_frac a b =
     (let x = a * denom;
          s = log2n (x div b) - 52
      in min inf_mag (s * 2 ^ 52 + round_half_even x (b * 2 ^ s)))"

text \<open>The magnitude nearest to \<open>d * 10^e\<close>.\<close>

definition round_dec :: "nat \<Rightarrow> int \<Rightarrow> nat" where
  "round_dec d e =
     (if 0 \<le> e then round_frac (d * 10 ^ nat e) 1 else round_frac d (10 ^ nat (- e)))"

section \<open>Reading\<close>

text \<open>A decimal without sign: digits, point, exponent; the digits' value and the power of ten.\<close>

definition decimal_opt :: "rstring \<Rightarrow> (nat \<times> int) option" where
  "decimal_opt s =
     (let ip = takeWhile is_digit s; r = dropWhile is_digit s;
          (fp, r2) = (case r of
              c # t \<Rightarrow> if c = 46 then (takeWhile is_digit t, dropWhile is_digit t) else ([], r)
            | [] \<Rightarrow> ([], r));
          ex = (case r2 of
              c # t \<Rightarrow> if c = 101 \<or> c = 69 then int_opt t else None
            | [] \<Rightarrow> Some 0)
      in if ip @ fp = [] then None
         else map_option (\<lambda>e. (digits_value (ip @ fp), e - int (length fp))) ex)"

definition lower :: "rchar \<Rightarrow> rchar" where
  "lower c = (if 65 \<le> c \<and> c \<le> 90 then c + 32 else c)"

definition magnitude_opt :: "rstring \<Rightarrow> nat option" where
  "magnitude_opt s =
     (case decimal_opt s of
        Some (d, e) \<Rightarrow> Some (round_dec d e)
      | None \<Rightarrow>
          let l = map lower s in
          if l = str ''inf'' \<or> l = str ''infinity'' then Some inf_mag
          else if l = str ''nan'' then Some (inf_mag + 2 ^ 51)
          else None)"

definition parse_f64 :: "rstring \<Rightarrow> f64 option" where
  "parse_f64 s =
     (case s of
        [] \<Rightarrow> None
      | c # cs \<Rightarrow>
          if c = 45 then map_option (make_f64 True) (magnitude_opt cs)
          else if c = 43 then map_option (make_f64 False) (magnitude_opt cs)
          else map_option (make_f64 False) (magnitude_opt s))"

section \<open>Writing\<close>

text \<open>
  The shortest digits: for \<open>n\<close> digits the two neighbours of the value are tried, the nearer
  first (the upper one when both are as near), and the first that reads back is taken. Seventeen
  digits are always enough, so the exact expansion at the end is never reached; it keeps
  the definition total without that fact.
\<close>

fun log10n :: "nat \<Rightarrow> nat" where
  "log10n n = (if n < 10 then 0 else Suc (log10n (n div 10)))"

declare log10n.simps [simp del]

text \<open>The exponent of the leading digit of \<open>scaled k / denom\<close>: scaled by \<open>10^400\<close> it is at least 1.\<close>

definition lead :: "nat \<Rightarrow> int" where
  "lead k = int (log10n (scaled k * 10 ^ 400 div denom)) - 400"

definition candidates :: "nat \<Rightarrow> int \<Rightarrow> nat list" where
  "candidates k p =
     (let a = (if 0 \<le> p then scaled k else scaled k * 10 ^ nat (- p));
          b = (if 0 \<le> p then denom * 10 ^ nat p else denom);
          q = a div b; r = a mod b
      in if b \<le> 2 * r then [q + 1, q] else [q, q + 1])"

definition exact_mag :: "nat \<Rightarrow> nat \<times> int" where
  "exact_mag k = (scaled k * 5 ^ 1074, - 1074)"

fun shortest_from :: "nat \<Rightarrow> nat list \<Rightarrow> nat \<times> int" where
  "shortest_from k [] = exact_mag k"
| "shortest_from k (n # ns) =
     (let p = lead k - int n + 1 in
      case find (\<lambda>d. round_dec d p = k) (candidates k p) of
        Some d \<Rightarrow> (d, p)
      | None \<Rightarrow> shortest_from k ns)"

function strip_zeros :: "nat \<Rightarrow> int \<Rightarrow> nat \<times> int" where
  "strip_zeros d p = (if 0 < d \<and> d mod 10 = 0 then strip_zeros (d div 10) (p + 1) else (d, p))"
  by pat_completeness auto
termination by (relation "measure fst") auto

declare strip_zeros.simps [simp del]

definition shortest :: "nat \<Rightarrow> nat \<times> int" where
  "shortest k =
     (if k = 0 then (0, 0)
      else case shortest_from k [1..<18] of (d, p) \<Rightarrow> strip_zeros d p)"

text \<open>Digits \<open>ds\<close> with the decimal point after \<open>x\<close> of them, and the scientific form.\<close>

definition point_form :: "rstring \<Rightarrow> int \<Rightarrow> rstring" where
  "point_form ds x =
     (let n = int (length ds) in
      if x \<le> 0 then [48, 46] @ replicate (nat (- x)) 48 @ ds
      else if x < n then take (nat x) ds @ [46] @ drop (nat x) ds
      else ds @ replicate (nat (x - n)) 48 @ [46, 48])"

definition exp_form :: "rstring \<Rightarrow> int \<Rightarrow> rstring" where
  "exp_form ds x =
     take 1 ds @ (if 1 < length ds then 46 # drop 1 ds else []) @ [101] @ show_int (x - 1)"

definition debug_mag :: "nat \<Rightarrow> rstring" where
  "debug_mag k =
     (let (d, p) = shortest k; ds = show_nat d; x = int (length ds) + p in
      if k = 0 then str ''0.0''
      else if 17 \<le> x \<or> x \<le> - 4 then exp_form ds x
      else point_form ds x)"

definition debug_f64 :: "f64 \<Rightarrow> rstring" where
  "debug_f64 v =
     (if inf_mag < mag v then str ''NaN''
      else (if is_negative v then [45] else [])
           @ (if mag v = inf_mag then str ''inf'' else debug_mag (mag v)))"

section \<open>What is written reads back\<close>

lemma denom_pos [simp]: "0 < denom"
  by (simp add: denom_def)

lemma two_power_less: "(2 :: nat) ^ a < 2 ^ b \<Longrightarrow> a < b"
  by (rule power_less_imp_less_exp [of 2]) simp_all

lemma log2n_bounds: "0 < n \<Longrightarrow> 2 ^ log2n n \<le> n \<and> n < 2 ^ Suc (log2n n)"
proof (induction n rule: log2n.induct)
  case (1 n)
  show ?case
  proof (cases "n < 2")
    case True
    with 1 show ?thesis by (simp add: log2n.simps [of n])
  next
    case False
    with 1 have "2 ^ log2n (n div 2) \<le> n div 2" "n div 2 < 2 ^ Suc (log2n (n div 2))" by simp_all
    with False show ?thesis by (simp add: log2n.simps [of n]) linarith
  qed
qed

lemma log2n_eq: "2 ^ j \<le> n \<Longrightarrow> n < 2 ^ Suc j \<Longrightarrow> log2n n = j"
proof -
  assume a: "2 ^ j \<le> n" "n < 2 ^ Suc j"
  then have "0 < n" by (meson less_le_trans zero_less_numeral zero_less_power)
  then have b: "2 ^ log2n n \<le> n" "n < 2 ^ Suc (log2n n)" using log2n_bounds by blast+
  have "(2 :: nat) ^ j < 2 ^ Suc (log2n n)" "(2 :: nat) ^ log2n n < 2 ^ Suc j"
    using a b by (meson le_less_trans)+
  then have "j < Suc (log2n n)" "log2n n < Suc j" by (blast dest: two_power_less)+
  then show ?thesis by simp
qed

lemma log2n_less: "n < 2 ^ j \<Longrightarrow> 0 < j \<Longrightarrow> log2n n < j"
proof (cases "n = 0")
  case False
  assume a: "n < 2 ^ j"
  have "(2 :: nat) ^ log2n n < 2 ^ j" using log2n_bounds [of n] False a by linarith
  then show ?thesis by (rule two_power_less)
qed (simp add: log2n.simps)

lemma round_half_even_cancel: "0 < c \<Longrightarrow> round_half_even (a * c) (b * c) = round_half_even a b"
  by (simp add: round_half_even_def Let_def mult_mod_left [symmetric])

lemma round_half_even_exact [simp]: "0 < b \<Longrightarrow> round_half_even (q * b) b = q"
  by (simp add: round_half_even_def)

lemma round_frac_cancel:
  assumes "0 < c"
  shows "round_frac (a * c) (b * c) = round_frac a b"
proof -
  have eq: "a * c * denom = a * denom * c" "\<And>s. b * c * s = b * s * c" by (simp_all add: ac_simps)
  have "(a * denom * c) div (b * c) = a * denom div b" using assms by simp
  then show ?thesis
    unfolding round_frac_def Let_def eq by (simp only: round_half_even_cancel [OF assms])
qed

lemma round_dec_shift: "round_dec (d * 10 ^ j) e = round_dec d (e + int j)"
proof -
  consider (pos) "0 \<le> e" | (mid) "e < 0" "0 \<le> e + int j" | (neg) "e + int j < 0" by linarith
  then show ?thesis
  proof cases
    case pos
    then have "nat (e + int j) = nat e + j" by simp
    with pos show ?thesis by (simp add: round_dec_def power_add ac_simps)
  next
    case mid
    then have "j = nat (e + int j) + nat (- e)" by simp
    then have eq: "d * 10 ^ j = d * 10 ^ nat (e + int j) * 10 ^ nat (- e)" by (metis power_add mult.assoc)
    have "round_dec (d * 10 ^ j) e = round_frac (d * 10 ^ nat (e + int j) * 10 ^ nat (- e)) (1 * 10 ^ nat (- e))"
      using mid unfolding round_dec_def eq by simp
    also have "\<dots> = round_frac (d * 10 ^ nat (e + int j)) 1" by (rule round_frac_cancel) simp
    finally show ?thesis using mid by (simp add: round_dec_def)
  next
    case neg
    then have "nat (- e) = nat (- (e + int j)) + j" by simp
    with neg round_frac_cancel [of "10 ^ j" d "10 ^ nat (- (e + int j))"] show ?thesis
      by (simp add: round_dec_def power_add)
  qed
qed

lemma round_scaled: "k < inf_mag \<Longrightarrow> round_frac (scaled k) denom = k"
proof (cases "k < 2 ^ 52")
  case True
  assume k: "k < inf_mag"
  have s: "log2n k - 52 = 0" using log2n_less [OF True] by simp
  have "round_frac (scaled k) denom = min inf_mag (round_half_even (k * denom) denom)"
    using True s by (simp add: round_frac_def scaled_def)
  with k show ?thesis by simp
next
  case False
  assume k: "k < inf_mag"
  define e where "e = k div 2 ^ 52 - 1"
  define m where "m = 2 ^ 52 + k mod 2 ^ 52"
  have e: "k div 2 ^ 52 = Suc e" using False by (simp add: e_def)
  have "Suc e * 2 ^ 52 + k mod 2 ^ 52 = k"
    using div_mult_mod_eq [of k "2 ^ 52"] unfolding e .
  then have k2: "k = e * 2 ^ 52 + m" unfolding m_def by simp
  have sc: "scaled k = m * 2 ^ e" using False unfolding scaled_def m_def e by simp
  have m: "2 ^ 52 \<le> m" "m < 2 ^ 53" by (simp_all add: m_def)
  have "2 ^ (52 + e) \<le> m * 2 ^ e" using m(1) by (simp add: power_add)
  moreover have "m * 2 ^ e < 2 ^ 53 * 2 ^ e" using m(2) by (intro mult_strict_right_mono) auto
  then have "m * 2 ^ e < 2 ^ Suc (52 + e)" by (simp add: power_add)
  ultimately have l: "log2n (m * 2 ^ e) = 52 + e" by (rule log2n_eq)
  have "round_half_even (m * 2 ^ e * denom) (denom * 2 ^ e) = m"
    using round_half_even_exact [of "denom * 2 ^ e" m] by (simp add: ac_simps)
  then have "round_frac (scaled k) denom = min inf_mag (e * 2 ^ 52 + m)"
    by (simp add: round_frac_def sc l Let_def)
  with k k2 show ?thesis by simp
qed

lemma round_power_of_ten:
  assumes "denom = 2 ^ j" "0 < j"
  shows "round_dec (n * 5 ^ j) (- int j) = round_frac n denom"
proof -
  have ten: "(10 :: nat) ^ j = denom * 5 ^ j"
    unfolding assms(1) power_mult_distrib [symmetric] by simp
  have "round_dec (n * 5 ^ j) (- int j) = round_frac (n * 5 ^ j) (denom * 5 ^ j)"
    using assms(2) by (simp add: round_dec_def ten)
  also have "\<dots> = round_frac n denom" by (rule round_frac_cancel) simp
  finally show ?thesis .
qed

lemma round_exact:
  assumes "k < inf_mag" "exact_mag k = (d, p)"
  shows "round_dec d p = k"
proof -
  have "d = scaled k * 5 ^ 1074" "p = - int 1074"
    using assms(2) unfolding exact_mag_def by (elim Pair_inject, (simp only: of_nat_numeral)?)+
  then show ?thesis
    using round_power_of_ten [OF denom_def, of "scaled k"] round_scaled [OF assms(1)] by (simp only: zero_less_numeral)
qed


lemma round_shortest_from: "k < inf_mag \<Longrightarrow> shortest_from k ns = (d, p) \<Longrightarrow> round_dec d p = k"
proof (induction ns)
  case Nil
  then show ?case using round_exact by simp
next
  case (Cons n ns)
  let ?p = "lead k - int n + 1"
  show ?case
  proof (cases "find (\<lambda>d. round_dec d ?p = k) (candidates k ?p)")
    case None
    with Cons show ?thesis by (simp add: Let_def)
  next
    case (Some d')
    then have "round_dec d' ?p = k" by (auto simp: find_Some_iff)
    with Cons.prems(2) Some show ?thesis by (auto simp: Let_def)
  qed
qed

lemma round_strip_zeros: "strip_zeros d p = (d', p') \<Longrightarrow> round_dec d' p' = round_dec d p"
proof (induction d p rule: strip_zeros.induct)
  case (1 d p)
  show ?case
  proof (cases "0 < d \<and> d mod 10 = 0")
    case True
    then have "d = d div 10 * 10 ^ 1" using div_mult_mod_eq [of d 10] by simp
    then have "round_dec d p = round_dec (d div 10) (p + 1)"
      using round_dec_shift [of "d div 10" 1 p] by simp
    with True 1 show ?thesis by (simp add: strip_zeros.simps [of d])
  next
    case False
    with 1(2) show ?thesis by (simp add: strip_zeros.simps [of d])
  qed
qed

lemma round_dec_0 [simp]: "round_dec 0 e = 0"
  by (simp add: round_dec_def round_frac_def round_half_even_def log2n.simps [of 0] Let_def)

lemma round_shortest: "k < inf_mag \<Longrightarrow> shortest k = (d, p) \<Longrightarrow> round_dec d p = k"
  using round_shortest_from [of k "[1..<18]"] round_strip_zeros
  by (auto simp: shortest_def split: if_splits prod.splits)

text \<open>Digits.\<close>

lemma digits_value_append: "digits_value (a @ b) = digits_value a * 10 ^ length b + digits_value b"
proof (induction b rule: rev_induct)
  case (snoc x xs)
  then show ?case
    using digits_value_snoc [of "a @ xs" x] by (simp add: algebra_simps)
qed simp

lemma digits_value_zeros [simp]: "digits_value (replicate n 48) = 0"
  by (induction n) (simp_all add: digits_value_append [of "[48]", simplified])

lemma digits_value_0Cons [simp]: "digits_value (48 # ds) = digits_value ds"
  using digits_value_append [of "[48]" ds] by simp

lemma take_drop_digits:
  "list_all is_digit a \<Longrightarrow> r = [] \<or> \<not> is_digit (hd r) \<Longrightarrow>
   takeWhile is_digit (a @ r) = a \<and> dropWhile is_digit (a @ r) = r"
  using takeWhile_append_stop [of a is_digit r] by (auto simp: list_all_iff)

lemma not_digit [simp]: "\<not> is_digit 46" "\<not> is_digit 101" "\<not> is_digit 45" "\<not> is_digit 43" "is_digit 48"
  by (simp_all add: is_digit_def)

lemma decimal_opt_point:
  assumes "list_all is_digit a" "list_all is_digit b" "a @ b \<noteq> []"
  shows "decimal_opt (a @ 46 # b) = Some (digits_value (a @ b), - int (length b))"
proof -
  have "takeWhile is_digit b = b" "dropWhile is_digit b = []"
    using assms(2) by (simp_all add: list_all_iff)
  then show ?thesis
    using assms(3) take_drop_digits [OF assms(1), of "46 # b"]
    by (auto simp: decimal_opt_def simp del: takeWhile_eq_all_conv dropWhile_eq_Nil_conv)
qed

lemma decimal_opt_exp:
  assumes "list_all is_digit a" "list_all is_digit b" "a \<noteq> []"
  shows "decimal_opt (a @ (if b = [] then [] else 46 # b) @ 101 # show_int e) =
    Some (digits_value (a @ b), e - int (length b))"
  using assms take_drop_digits [OF assms(1), of "46 # b @ 101 # show_int e"]
    take_drop_digits [OF assms(1), of "101 # show_int e"]
    take_drop_digits [OF assms(2), of "101 # show_int e"]
  by (auto simp: decimal_opt_def)

lemma decimal_opt_point_form:
  assumes "list_all is_digit ds" "ds \<noteq> []" "x = int (length ds) + p"
  shows "\<exists>d e. decimal_opt (point_form ds x) = Some (d, e) \<and> round_dec d e = round_dec (digits_value ds) p"
proof -
  consider (small) "x \<le> 0" | (mid) "0 < x" "x < int (length ds)" | (large) "0 < x" "int (length ds) \<le> x" by linarith
  then show ?thesis
  proof cases
    case small
    have "decimal_opt ([48] @ 46 # (replicate (nat (- x)) 48 @ ds)) =
        Some (digits_value ([48] @ replicate (nat (- x)) 48 @ ds), - int (length (replicate (nat (- x)) 48 @ ds)))"
      using assms(1) by (intro decimal_opt_point) (auto simp: list_all_iff)
    moreover have "digits_value ([48] @ replicate (nat (- x)) 48 @ ds) = digits_value ds"
      by (simp add: digits_value_append)
    moreover have "- int (length (replicate (nat (- x)) 48 @ ds)) = p" using small assms(3) by simp
    ultimately show ?thesis using small by (simp add: point_form_def Let_def)
  next
    case mid
    have "decimal_opt (take (nat x) ds @ 46 # drop (nat x) ds) =
        Some (digits_value (take (nat x) ds @ drop (nat x) ds), - int (length (drop (nat x) ds)))"
      using assms(1,2) by (intro decimal_opt_point) (auto simp: list_all_iff dest: in_set_takeD in_set_dropD)
    moreover have "- int (length (drop (nat x) ds)) = p" using mid assms(3) by simp
    ultimately show ?thesis using mid by (simp add: point_form_def Let_def)
  next
    case large
    define z where "z = nat (x - int (length ds))"
    have "decimal_opt ((ds @ replicate z 48) @ 46 # [48]) = Some (digits_value ((ds @ replicate z 48) @ [48]), - int (length [48 :: nat]))"
      using assms(1) by (intro decimal_opt_point) (auto simp: list_all_iff)
    moreover have "digits_value ((ds @ replicate z 48) @ [48]) = digits_value ds * 10 ^ Suc z"
      by (simp add: digits_value_append)
    moreover have "round_dec (digits_value ds * 10 ^ Suc z) (- 1) = round_dec (digits_value ds) p"
      using large assms(3) unfolding round_dec_shift by (simp add: z_def)
    ultimately show ?thesis using large by (simp add: point_form_def Let_def z_def [symmetric])
  qed
qed

lemma decimal_opt_exp_form:
  assumes "list_all is_digit ds" "ds \<noteq> []" "x = int (length ds) + p"
  shows "decimal_opt (exp_form ds x) = Some (digits_value ds, p)"
proof -
  from assms(2) obtain c t where ds: "ds = c # t" by (cases ds) auto
  have "decimal_opt ([c] @ (if t = [] then [] else 46 # t) @ 101 # show_int (x - 1)) =
      Some (digits_value ([c] @ t), x - 1 - int (length t))"
    using assms(1) ds by (intro decimal_opt_exp) auto
  moreover have "exp_form ds x = [c] @ (if t = [] then [] else 46 # t) @ 101 # show_int (x - 1)"
    by (simp add: exp_form_def ds)
  ultimately show ?thesis using assms(3) ds by simp
qed

lemma magnitude_debug: "k < inf_mag \<Longrightarrow> magnitude_opt (debug_mag k) = Some k"
proof (cases "k = 0")
  case True
  have "decimal_opt ([48] @ 46 # [48]) = Some (digits_value ([48] @ [48]), - int (length [48 :: nat]))"
    by (rule decimal_opt_point) auto
  then show ?thesis using True by (simp add: debug_mag_def magnitude_opt_def split: prod.splits)
next
  case False
  assume k: "k < inf_mag"
  obtain d p where d: "shortest k = (d, p)" by (cases "shortest k")
  have r: "round_dec d p = k" by (rule round_shortest [OF k d])
  have ds: "list_all is_digit (show_nat d)" "show_nat d \<noteq> []" by (simp_all add: show_nat_digits)
  show ?thesis
    using False d r decimal_opt_point_form [OF ds refl, of p] decimal_opt_exp_form [OF ds refl, of p]
    by (auto simp: debug_mag_def magnitude_opt_def Let_def)
qed

lemma debug_mag_hd: "\<exists>c s. debug_mag k = c # s \<and> is_digit c"
proof -
  obtain d p where d: "shortest k = (d, p)" by (cases "shortest k")
  obtain c t where ds: "show_nat d = c # t" "is_digit c"
    using show_nat_hd_digit [of d] by (cases "show_nat d") auto
  show ?thesis
    using ds by (auto simp: debug_mag_def d Let_def exp_form_def point_form_def take_Cons' )
qed

lemma make_f64_mag: "make_f64 (is_negative v) (mag v) = v"
proof -
  have "(if is_negative v then 2 ^ 63 else 0) + mag v = unat v"
    using unsigned_less [of v, where ?'a = nat] unfolding is_negative_def mag_def by (auto simp: le_mod_geq not_le mod_if)
  then show ?thesis by (simp add: make_f64_def)
qed

theorem parse_debug_f64: "is_finite v \<Longrightarrow> parse_f64 (debug_f64 v) = Some v"
proof -
  assume "is_finite v"
  then have k: "mag v < inf_mag" by (simp add: is_finite_def)
  obtain c s where c: "debug_mag (mag v) = c # s" "is_digit c" using debug_mag_hd by blast
  then have "c \<noteq> 45" "c \<noteq> 43" by (auto simp: is_digit_def)
  with c k magnitude_debug [OF k] make_f64_mag [of v] show ?thesis
    by (auto simp: debug_f64_def parse_f64_def)
qed

lemma debug_mag_real: "\<exists>c\<in>set (debug_mag k). c = 46 \<or> c = 101"
proof -
  obtain d p where d: "shortest k = (d, p)" by (cases "shortest k")
  have "46 \<in> set (point_form ds x)" "101 \<in> set (exp_form ds x)" for ds x
    by (auto simp: point_form_def exp_form_def Let_def)
  then show ?thesis by (auto simp: debug_mag_def d Let_def)
qed

lemma debug_f64_real: "is_finite v \<Longrightarrow> \<exists>c\<in>set (debug_f64 v). c = 46 \<or> c = 101"
  using debug_mag_real [of "mag v"] by (auto simp: debug_f64_def is_finite_def)

end
