(* ===== verification/Json.thy ===== *)
theory Json
  imports F64
begin

text \<open>
  The first half of \<open>rust/src/codec/json.rs\<close>: the JSON tree, its accessors, number tokens, and
  the writer.
\<close>

section \<open>The tree\<close>

datatype number_token = NumberToken (raw: rstring)

datatype json =
    JNull
  | JBool bool
  | JNumber number_token
  | JString rstring
  | JArray "json list"
  | JObject "(rstring \<times> json) list"

datatype json_error = JsonError rstring

definition json_str :: "rstring \<Rightarrow> json" where
  "json_str s = JString s"

fun as_object :: "json \<Rightarrow> (rstring \<times> json) list option" where
  "as_object (JObject v) = Some v"
| "as_object _ = None"

definition get :: "json \<Rightarrow> rstring \<Rightarrow> json option" where
  "get j key =
     (case as_object j of
        None \<Rightarrow> None
      | Some pairs \<Rightarrow> map_option snd (find (\<lambda>(k, _). k = key) pairs))"

fun as_str :: "json \<Rightarrow> rstring option" where
  "as_str (JString s) = Some s"
| "as_str _ = None"

fun as_bool :: "json \<Rightarrow> bool option" where
  "as_bool (JBool b) = Some b"
| "as_bool _ = None"

fun as_array :: "json \<Rightarrow> json list option" where
  "as_array (JArray v) = Some v"
| "as_array _ = None"

fun as_number :: "json \<Rightarrow> number_token option" where
  "as_number (JNumber n) = Some n"
| "as_number _ = None"

fun is_null :: "json \<Rightarrow> bool" where
  "is_null JNull = True"
| "is_null _ = False"

lemma find_map_of: "map_option snd (find (\<lambda>(k, _). k = key) pairs) = map_of pairs key"
  by (induction pairs) auto

lemma get_object [simp]: "get (JObject pairs) key = map_of pairs key"
  by (simp add: get_def find_map_of)

lemma get_not_object: "as_object j = None \<Longrightarrow> get j key = None"
  by (simp add: get_def)

lemma as_object_Some [simp]: "as_object j = Some ps \<longleftrightarrow> j = JObject ps"
  by (cases j) auto

lemma as_array_Some [simp]: "as_array j = Some xs \<longleftrightarrow> j = JArray xs"
  by (cases j) auto

lemma as_str_Some [simp]: "as_str j = Some s \<longleftrightarrow> j = JString s"
  by (cases j) auto

lemma as_bool_Some [simp]: "as_bool j = Some b \<longleftrightarrow> j = JBool b"
  by (cases j) auto

lemma as_number_Some [simp]: "as_number j = Some n \<longleftrightarrow> j = JNumber n"
  by (cases j) auto

lemma is_null_iff [simp]: "is_null j \<longleftrightarrow> j = JNull"
  by (cases j) auto

section \<open>Number tokens\<close>

definition is_real :: "number_token \<Rightarrow> bool" where
  "is_real n \<longleftrightarrow> list_ex (\<lambda>b. b = 46 \<or> b = 101 \<or> b = 69) (utf8 (raw n))"

definition as_i64 :: "number_token \<Rightarrow> i64 option" where
  "as_i64 n = parse_i64 (raw n)"

definition as_f64 :: "number_token \<Rightarrow> f64 option" where
  "as_f64 n = parse_f64 (raw n)"

section \<open>The writer\<close>

definition write_char :: "rchar \<Rightarrow> rstring" where
  "write_char ch =
     (if ch = 34 then [92, 34]
      else if ch = 92 then [92, 92]
      else if ch = 8 then [92, 98]
      else if ch = 12 then [92, 102]
      else if ch = 10 then [92, 110]
      else if ch = 13 then [92, 114]
      else if ch = 9 then [92, 116]
      else if ch < 32 then [92, 117] @ show_04x ch
      else [ch])"

fun write_chars :: "rstring \<Rightarrow> rstring \<Rightarrow> rstring" where
  "write_chars [] out = out"
| "write_chars (ch # s) out = write_chars s (out @ write_char ch)"

definition write_string :: "rstring \<Rightarrow> rstring \<Rightarrow> rstring" where
  "write_string s out = write_chars s (out @ [34]) @ [34]"

text \<open>\<open>i\<close> is the index of the \<open>enumerate()\<close> loops: a comma goes before every element but the first.\<close>

fun write_value :: "json \<Rightarrow> rstring \<Rightarrow> rstring"
  and write_items :: "nat \<Rightarrow> json list \<Rightarrow> rstring \<Rightarrow> rstring"
  and write_pairs :: "nat \<Rightarrow> (rstring \<times> json) list \<Rightarrow> rstring \<Rightarrow> rstring"
where
  "write_value JNull out = out @ str ''null''"
| "write_value (JBool b) out = out @ (if b then str ''true'' else str ''false'')"
| "write_value (JNumber n) out = out @ raw n"
| "write_value (JString s) out = write_string s out"
| "write_value (JArray items) out = write_items 0 items (out @ [91]) @ [93]"
| "write_value (JObject pairs) out = write_pairs 0 pairs (out @ [123]) @ [125]"
| "write_items i [] out = out"
| "write_items i (item # items) out =
     write_items (i + 1) items (write_value item (if 0 < i then out @ [44] else out))"
| "write_pairs i [] out = out"
| "write_pairs i ((k, v) # pairs) out =
     write_pairs (i + 1) pairs
       (write_value v (write_string k (if 0 < i then out @ [44] else out) @ [58]))"

definition write_json :: "json \<Rightarrow> rstring" where
  "write_json value = write_value value []"

end
