(* ===== verification/JsonParser.thy ===== *)
theory JsonParser
  imports Json
begin

text \<open>
  The second half of \<open>rust/src/codec/json.rs\<close>: the recursive-descent parser. The parser's state is a
  position in the bytes of a valid string; every \<open>?\<close> is an \<open>and_then\<close>, and every operation that
  could panic (slicing a \<open>str\<close>, \<open>expect\<close>, checked arithmetic) has a \<open>Panic\<close> branch.
\<close>

section \<open>State and errors\<close>

record parser =
  src :: bytes
  pos :: nat

type_synonym 'a parse = "('a \<times> parser, json_error) result"

lemma and_then_cong [fundef_cong]:
  "r = r' \<Longrightarrow> (\<And>x. r' = Ok x \<Longrightarrow> f x = f' x) \<Longrightarrow> and_then r f = and_then r' f'"
  by (cases r') auto

definition new_parser :: "bytes \<Rightarrow> parser" where
  "new_parser s = \<lparr>src = s, pos = 0\<rparr>"

definition err :: "rstring \<Rightarrow> parser \<Rightarrow> json_error" where
  "err msg p = JsonError (msg @ str '' (at byte offset '' @ show_nat (pos p) @ str '')'')"

definition advance :: "nat \<Rightarrow> parser \<Rightarrow> parser" where
  "advance n p = p\<lparr>pos := pos p + n\<rparr>"

section \<open>Bytes\<close>

definition peek_byte :: "parser \<Rightarrow> u8 option" where
  "peek_byte p = (if pos p < length (src p) then Some (src p ! pos p) else None)"

definition bump_byte :: "parser \<Rightarrow> u8 option \<times> parser" where
  "bump_byte p = (case peek_byte p of Some b \<Rightarrow> (Some b, advance 1 p) | None \<Rightarrow> (None, p))"

definition expect_byte :: "u8 \<Rightarrow> parser \<Rightarrow> (parser, json_error) result" where
  "expect_byte want p =
     (case bump_byte p of
        (Some b, p1) \<Rightarrow>
          if b = want then Ok p1 else Err (err (str ''expected '' @ debug_char (unat want)) p1)
      | (None, p1) \<Rightarrow> Err (err (str ''expected '' @ debug_char (unat want)) p1))"

definition is_ws :: "u8 \<Rightarrow> bool" where
  "is_ws b \<longleftrightarrow> b = 32 \<or> b = 9 \<or> b = 10 \<or> b = 13"

definition is_digit_byte :: "u8 \<Rightarrow> bool" where
  "is_digit_byte b \<longleftrightarrow> 48 \<le> b \<and> b \<le> 57"

text \<open>What is left to read, and how the position moves over it.\<close>

definition rest :: "parser \<Rightarrow> bytes" where
  "rest p = drop (pos p) (src p)"

lemma advance_simps [simp]:
  "src (advance n p) = src p"
  "pos (advance n p) = pos p + n"
  "advance m (advance n p) = advance (n + m) p"
  "advance 0 p = p"
  by (simp_all add: advance_def add.assoc)

lemma rest_advance [simp]: "rest (advance n p) = drop n (rest p)"
  by (simp add: rest_def add.commute)

lemma peek_byte_rest: "peek_byte p = (case rest p of [] \<Rightarrow> None | b # _ \<Rightarrow> Some b)"
  by (auto simp: peek_byte_def rest_def hd_drop_conv_nth neq_Nil_conv split: list.splits)
     (metis drop_eq_Nil2 hd_drop_conv_nth leI list.distinct(1) list.sel(1))

lemma bump_byte_rest:
  "bump_byte p = (case rest p of [] \<Rightarrow> (None, p) | b # _ \<Rightarrow> (Some b, advance 1 p))"
  by (auto simp: bump_byte_def peek_byte_rest split: list.splits)

lemma expect_byte_rest:
  "expect_byte want p = Ok p' \<longleftrightarrow> (\<exists>bs. rest p = want # bs) \<and> p' = advance 1 p"
  by (auto simp: expect_byte_def bump_byte_rest split: list.splits)

lemma expect_byte_not_Panic [simp]: "expect_byte want p \<noteq> Panic"
  by (auto simp: expect_byte_def bump_byte_rest split: list.splits)

text \<open>The \<open>while matches!(self.peek_byte(), ..)\<close> loops.\<close>

function skip_while :: "(u8 \<Rightarrow> bool) \<Rightarrow> parser \<Rightarrow> parser" where
  "skip_while f p =
     (case peek_byte p of
        Some b \<Rightarrow> if f b then skip_while f (advance 1 p) else p
      | None \<Rightarrow> p)"
  by pat_completeness auto
termination
  by (relation "measure (\<lambda>(f, p). length (src p) - pos p)")
     (auto simp: peek_byte_def advance_def split: if_splits)

declare skip_while.simps [simp del]

lemma skip_while_advance: "skip_while f p = advance (length (takeWhile f (rest p))) p"
proof (induction f p rule: skip_while.induct)
  case (1 f p)
  show ?case
  proof (cases "rest p")
    case Nil
    then show ?thesis by (subst skip_while.simps) (simp add: peek_byte_rest)
  next
    case (Cons b bs)
    then show ?thesis
      using 1 by (subst skip_while.simps) (simp add: peek_byte_rest)
  qed
qed

definition skip_ws :: "parser \<Rightarrow> parser" where
  "skip_ws p = skip_while is_ws p"

definition skip_digits :: "parser \<Rightarrow> parser" where
  "skip_digits p = skip_while is_digit_byte p"

section \<open>Literals and numbers\<close>

definition parse_literal :: "string \<Rightarrow> json \<Rightarrow> parser \<Rightarrow> json parse" where
  "parse_literal lit val p =
     and_then (str_from (src p) (pos p)) (\<lambda>sl.
       if take (length lit) sl = utf8 (str lit)
       then Ok (val, advance (length lit) p)
       else Err (err (str ''invalid literal, expected '' @ debug_lit lit) p))"

definition number_int :: "parser \<Rightarrow> (parser, json_error) result" where
  "number_int p =
     (let p1 = (if peek_byte p = Some 45 then advance 1 p else p) in
      case peek_byte p1 of
        Some b \<Rightarrow>
          if b = 48 then Ok (advance 1 p1)
          else if 49 \<le> b \<and> b \<le> 57 then Ok (skip_digits p1)
          else Err (err (str ''invalid number: expected a digit'') p1)
      | None \<Rightarrow> Err (err (str ''invalid number: expected a digit'') p1))"

definition number_frac :: "parser \<Rightarrow> (parser, json_error) result" where
  "number_frac p =
     (if peek_byte p = Some 46 then
        let p1 = advance 1 p; p2 = skip_digits p1 in
        if pos p2 = pos p1
        then Err (err (str ''invalid number: expected a digit after '' @ [39, 46, 39]) p2)
        else Ok p2
      else Ok p)"

definition number_exp :: "parser \<Rightarrow> (parser, json_error) result" where
  "number_exp p =
     (if peek_byte p = Some 101 \<or> peek_byte p = Some 69 then
        let p1 = advance 1 p;
            p2 = (if peek_byte p1 = Some 43 \<or> peek_byte p1 = Some 45 then advance 1 p1 else p1);
            p3 = skip_digits p2 in
        if pos p3 = pos p2
        then Err (err (str ''invalid number: expected a digit in the exponent'') p3)
        else Ok p3
      else Ok p)"

definition parse_number :: "parser \<Rightarrow> number_token parse" where
  "parse_number p =
     and_then (number_int p) (\<lambda>p1.
     and_then (number_frac p1) (\<lambda>p2.
     and_then (number_exp p2) (\<lambda>p3.
     and_then (str_slice (src p3) (pos p) (pos p3)) (\<lambda>sl.
     and_then (slice_to_string sl) (\<lambda>s. Ok (NumberToken s, p3))))))"

section \<open>Strings\<close>

text \<open>\<open>v * 16 + digit\<close> on \<open>u16\<close> panics on overflow in a checked build.\<close>

definition hex_value :: "u8 \<Rightarrow> u8 option" where
  "hex_value b =
     (if 48 \<le> b \<and> b \<le> 57 then Some (b - 48)
      else if 97 \<le> b \<and> b \<le> 102 then Some (b - 97 + 10)
      else if 65 \<le> b \<and> b \<le> 70 then Some (b - 65 + 10)
      else None)"

fun hex4_loop :: "nat \<Rightarrow> u16 \<Rightarrow> parser \<Rightarrow> u16 parse" where
  "hex4_loop 0 v p = Ok (v, p)"
| "hex4_loop (Suc n) v p =
     (case bump_byte p of
        (None, p1) \<Rightarrow> Err (err (str ''unexpected end of '' @ [92, 117] @ str '' escape'') p1)
      | (Some b, p1) \<Rightarrow>
          (case hex_value b of
             None \<Rightarrow> Err (err (str ''invalid hex digit in '' @ [92, 117] @ str '' escape'') p1)
           | Some digit \<Rightarrow>
               if unat v * 16 + unat digit < 2 ^ 16
               then hex4_loop n (v * 16 + ucast digit) p1
               else Panic))"

definition parse_hex4 :: "parser \<Rightarrow> u16 parse" where
  "parse_hex4 p = hex4_loop 4 0 p"

text \<open>The surrogate arithmetic, in \<open>u32\<close> as the code does it.\<close>

definition join_surrogates :: "u16 \<Rightarrow> u16 \<Rightarrow> u32" where
  "join_surrogates cp low = 0x10000 + push_bit 10 (ucast cp - 0xD800) + (ucast low - 0xDC00)"

definition parse_unicode_escape :: "parser \<Rightarrow> rchar parse" where
  "parse_unicode_escape p =
     and_then (parse_hex4 p) (\<lambda>(cp, p1).
       if 0xD800 \<le> cp \<and> cp \<le> 0xDBFF then
         (case bump_byte p1 of
            (Some b, p2) \<Rightarrow>
              if b \<noteq> 92 then Err (err (str ''unpaired UTF-16 surrogate'') p2)
              else (case bump_byte p2 of
                (Some c, p3) \<Rightarrow>
                  if c \<noteq> 117 then Err (err (str ''unpaired UTF-16 surrogate'') p3)
                  else and_then (parse_hex4 p3) (\<lambda>(low, p4).
                    if \<not> (0xDC00 \<le> low \<and> low \<le> 0xDFFF)
                    then Err (err (str ''invalid low surrogate in '' @ [92, 117] @ str '' escape pair'') p4)
                    else and_then (ok_or (char_from_u32 (join_surrogates cp low))
                                         (err (str ''invalid surrogate pair'') p4))
                           (\<lambda>ch. Ok (ch, p4)))
              | (None, p3) \<Rightarrow> Err (err (str ''unpaired UTF-16 surrogate'') p3))
          | (None, p2) \<Rightarrow> Err (err (str ''unpaired UTF-16 surrogate'') p2))
       else if 0xDC00 \<le> cp \<and> cp \<le> 0xDFFF then
         Err (err (str ''unpaired UTF-16 surrogate'') p1)
       else
         and_then (ok_or (char_from_u32 (ucast cp)) (err (str ''invalid '' @ [92, 117] @ str '' escape'') p1))
           (\<lambda>ch. Ok (ch, p1)))"

definition parse_escape :: "parser \<Rightarrow> rstring \<Rightarrow> rstring parse" where
  "parse_escape p out =
     (case bump_byte p of
        (Some b, p1) \<Rightarrow>
          if b = 34 then Ok (out @ [34], p1)
          else if b = 92 then Ok (out @ [92], p1)
          else if b = 47 then Ok (out @ [47], p1)
          else if b = 98 then Ok (out @ [8], p1)
          else if b = 102 then Ok (out @ [12], p1)
          else if b = 110 then Ok (out @ [10], p1)
          else if b = 114 then Ok (out @ [13], p1)
          else if b = 116 then Ok (out @ [9], p1)
          else if b = 117 then
            and_then (parse_unicode_escape p1) (\<lambda>(ch, p2). Ok (out @ [ch], p2))
          else Err (err (str ''invalid escape sequence'') p1)
      | (None, p1) \<Rightarrow> Err (err (str ''invalid escape sequence'') p1))"

text \<open>Every step only moves forward: \<open>p'\<close> is reached from \<open>p\<close>.\<close>

definition reach :: "parser \<Rightarrow> parser \<Rightarrow> bool" where
  "reach p p' \<longleftrightarrow> (\<exists>n. p' = advance n p)"

lemma reach_refl [simp, intro]: "reach p p"
  unfolding reach_def by (rule exI [of _ 0]) simp

lemma reach_advance [simp, intro]: "reach p (advance n p)"
  by (auto simp: reach_def)

lemma reach_trans [trans]: "reach p q \<Longrightarrow> reach q r \<Longrightarrow> reach p r"
  by (auto simp: reach_def)

lemma reach_length: "reach p p' \<Longrightarrow> length (rest p') \<le> length (rest p)"
  by (auto simp: reach_def)

lemma reach_skip_while [simp, intro]: "reach p (skip_while f p)"
  by (simp add: skip_while_advance)

lemma reach_skip_ws [simp, intro]: "reach p (skip_ws p)"
  by (simp add: skip_ws_def)

lemma reach_advanceD [dest]: "reach (advance n p) q \<Longrightarrow> reach p q"
  by (auto simp: reach_def)

lemma reach_skip_wsD [dest]: "reach (skip_ws p) q \<Longrightarrow> reach p q"
  using reach_skip_ws reach_trans by blast

lemma reach_into [intro]:
  "reach p q \<Longrightarrow> reach p (skip_ws q)"
  "reach p q \<Longrightarrow> reach p (advance n q)"
  using reach_skip_ws reach_advance reach_trans by blast+

lemma reach_hex4_loop: "hex4_loop n v p = Ok (w, p') \<Longrightarrow> reach p p'"
  by (induction n arbitrary: v p)
     (auto simp: bump_byte_rest split: list.splits if_splits option.splits)

lemma reach_parse_unicode_escape: "parse_unicode_escape p = Ok (c, p') \<Longrightarrow> reach p p'"
  by (auto simp: parse_unicode_escape_def parse_hex4_def bump_byte_rest
      split: list.splits if_splits dest!: reach_hex4_loop intro: reach_trans)

lemma reach_parse_escape: "parse_escape p out = Ok (out', p') \<Longrightarrow> reach p p'"
  by (auto simp: parse_escape_def bump_byte_rest split: list.splits if_splits
      dest!: reach_parse_unicode_escape intro: reach_trans)

function string_loop :: "parser \<Rightarrow> rstring \<Rightarrow> rstring parse" where
  "string_loop p out =
     (case bump_byte p of
        (None, p1) \<Rightarrow> Err (err (str ''unterminated string'') p1)
      | (Some b, p1) \<Rightarrow>
          if b = 34 then Ok (out, p1)
          else if b = 92 then and_then (parse_escape p1 out) (\<lambda>(out', p2). string_loop p2 out')
          else if b < 32 then Err (err (str ''unescaped control character in string'') p1)
          else if b < 128 then string_loop p1 (out @ [unat b])
          else
            let p2 = p1\<lparr>pos := pos p1 - 1\<rparr> in
            and_then (str_from (src p2) (pos p2)) (\<lambda>sl.
              case first_char sl of
                Some ch \<Rightarrow> string_loop (advance (len_utf8 ch) p2) (out @ [ch])
              | None \<Rightarrow> Panic))"
  by pat_completeness auto

lemma back_up [simp]: "(advance (Suc 0) p)\<lparr>pos := pos p\<rparr> = p"
  by (simp add: advance_def)

lemma len_utf8_pos [simp]: "0 < len_utf8 c"
  by (simp add: len_utf8_def)

termination string_loop
proof (relation "measure (\<lambda>(p, out). length (rest p))", goal_cases)
  case 1
  show ?case by simp
next
  case (2 p out b p1 r out' p2)
  then show ?case
    by (auto simp: bump_byte_rest split: list.splits dest!: reach_parse_escape reach_length)
next
  case (3 p out b p1)
  then show ?case
    by (auto simp: bump_byte_rest split: list.splits)
next
  case (4 p out b p1 p2 sl ch)
  then show ?case
    by (auto simp: bump_byte_rest split: list.splits)
qed

declare string_loop.simps [simp del]

definition parse_string :: "parser \<Rightarrow> rstring parse" where
  "parse_string p = and_then (expect_byte 34 p) (\<lambda>p1. string_loop p1 [])"

lemma reach_from_1: "0 < n \<Longrightarrow> reach (advance (Suc 0) p) (advance n p)"
  unfolding reach_def by (rule exI [of _ "n - 1"]) simp

text \<open>The loop as an equation over what is left to read.\<close>

lemma string_loop_rest:
  "string_loop p out =
     (case rest p of
        [] \<Rightarrow> Err (err (str ''unterminated string'') p)
      | b # _ \<Rightarrow>
          if b = 34 then Ok (out, advance 1 p)
          else if b = 92 then
            and_then (parse_escape (advance 1 p) out) (\<lambda>(out', p2). string_loop p2 out')
          else if b < 32 then
            Err (err (str ''unescaped control character in string'') (advance 1 p))
          else if b < 128 then string_loop (advance 1 p) (out @ [unat b])
          else and_then (str_from (src p) (pos p)) (\<lambda>sl.
            case first_char sl of
              Some ch \<Rightarrow> string_loop (advance (len_utf8 ch) p) (out @ [ch])
            | None \<Rightarrow> Panic))"
  by (subst string_loop.simps) (simp add: bump_byte_rest Let_def split: list.splits)

lemma reach_string_loop: "string_loop p out = Ok (s, p') \<Longrightarrow> reach p p'"
proof (induction "length (rest p)" arbitrary: p out rule: less_induct)
  case less
  have IH: "reach q p'" if "string_loop q out' = Ok (s, p')" and "reach (advance (Suc 0) p) q" and "rest p \<noteq> []"
    for q out'
    using less.hyps [OF _ that(1)] reach_length [OF that(2)] that(3) by (cases "rest p") auto
  have step: "reach p p'" if "string_loop q out' = Ok (s, p')" and "reach (advance (Suc 0) p) q" and "rest p \<noteq> []"
    for q out'
    using IH [OF that] that(2) by (blast intro: reach_trans)
  have jump: "reach p p'" if "string_loop (advance n p) out' = Ok (s, p')" and "0 < n" and "rest p \<noteq> []"
    for n out'
    by (rule step [OF that(1) reach_from_1 [OF that(2)] that(3)])
  show ?case
    using less.prems
    by (subst (asm) string_loop_rest)
       (auto split: list.splits if_splits option.splits dest!: reach_parse_escape
         intro: step jump [OF _ len_utf8_pos])
qed

lemma reach_parse_string: "parse_string p = Ok (s, p') \<Longrightarrow> reach (advance 1 p) p' \<and> rest p \<noteq> []"
  by (auto simp: parse_string_def expect_byte_rest dest: reach_string_loop)

lemma reach_number:
  "number_int p = Ok q \<Longrightarrow> reach p q"
  "number_frac p = Ok q \<Longrightarrow> reach p q"
  "number_exp p = Ok q \<Longrightarrow> reach p q"
  by (auto simp: number_int_def number_frac_def number_exp_def Let_def
      skip_digits_def skip_while_advance split: if_splits option.splits)

lemma reach_parse_number: "parse_number p = Ok (n, p') \<Longrightarrow> reach p p'"
  by (auto simp: parse_number_def dest!: reach_number intro: reach_trans)

lemma reach_parse_literal: "parse_literal lit v p = Ok (w, p') \<Longrightarrow> reach p p'"
  by (auto simp: parse_literal_def split: if_splits)

section \<open>Values, arrays, objects\<close>

function (sequential) parse_value :: "parser \<Rightarrow> json parse"
  and parse_array :: "parser \<Rightarrow> json parse"
  and array_loop :: "parser \<Rightarrow> json list \<Rightarrow> json parse"
  and parse_object :: "parser \<Rightarrow> json parse"
  and object_loop :: "parser \<Rightarrow> (rstring \<times> json) list \<Rightarrow> json parse"
where
  "parse_value p0 =
     (let p = skip_ws p0 in
      case peek_byte p of
        Some c \<Rightarrow>
          if c = 123 then parse_object p
          else if c = 91 then parse_array p
          else if c = 34 then and_then (parse_string p) (\<lambda>(s, p1). Ok (JString s, p1))
          else if c = 116 then parse_literal ''true'' (JBool True) p
          else if c = 102 then parse_literal ''false'' (JBool False) p
          else if c = 110 then parse_literal ''null'' JNull p
          else if c = 45 \<or> 48 \<le> c \<and> c \<le> 57 then
            and_then (parse_number p) (\<lambda>(n, p1). Ok (JNumber n, p1))
          else Err (err (str ''unexpected character '' @ debug_char (unat c)) p)
      | None \<Rightarrow> Err (err (str ''unexpected end of input'') p))"
| "parse_array p0 =
     and_then (expect_byte 91 p0) (\<lambda>p1.
       let p = skip_ws p1 in
       if peek_byte p = Some 93 then Ok (JArray [], advance 1 p)
       else array_loop p [])"
| "array_loop p items =
     and_then (parse_value p) (\<lambda>(v, p1).
       case bump_byte (skip_ws p1) of
         (Some b, p2) \<Rightarrow>
           if b = 44 then array_loop (skip_ws p2) (items @ [v])
           else if b = 93 then Ok (JArray (items @ [v]), p2)
           else Err (err (str ''expected '' @ [39, 44, 39] @ str '' or '' @ [39, 93, 39]
                          @ str '' in array'') p2)
       | (None, p2) \<Rightarrow>
           Err (err (str ''expected '' @ [39, 44, 39] @ str '' or '' @ [39, 93, 39]
                     @ str '' in array'') p2))"
| "parse_object p0 =
     and_then (expect_byte 123 p0) (\<lambda>p1.
       let p = skip_ws p1 in
       if peek_byte p = Some 125 then Ok (JObject [], advance 1 p)
       else object_loop p [])"
| "object_loop p0 pairs =
     (let p = skip_ws p0 in
      if peek_byte p \<noteq> Some 34 then Err (err (str ''expected a string key in object'') p)
      else
        and_then (parse_string p) (\<lambda>(key, p1).
        and_then (expect_byte 58 (skip_ws p1)) (\<lambda>p2.
        and_then (parse_value (skip_ws p2)) (\<lambda>(val, p3).
          case bump_byte (skip_ws p3) of
            (Some b, p4) \<Rightarrow>
              if b = 44 then object_loop (skip_ws p4) (pairs @ [(key, val)])
              else if b = 125 then Ok (JObject (pairs @ [(key, val)]), p4)
              else Err (err (str ''expected '' @ [39, 44, 39] @ str '' or '' @ [39, 125, 39]
                             @ str '' in object'') p4)
          | (None, p4) \<Rightarrow>
              Err (err (str ''expected '' @ [39, 44, 39] @ str '' or '' @ [39, 125, 39]
                        @ str '' in object'') p4)))))"
  by pat_completeness auto

text \<open>
  The loops call \<open>parse_value\<close> and go on from where it stopped, so that they end rests on the
  parsers moving forward; this is proved first, on the domain of the recursion.
\<close>

abbreviation (input) parse_dom where
  "parse_dom \<equiv> parse_value_parse_array_array_loop_parse_object_object_loop_dom"

lemmas parse_psimps =
  parse_value.psimps parse_array.psimps array_loop.psimps parse_object.psimps object_loop.psimps

lemma reach_parse_dom:
  "parse_dom (Inl (Inl p)) \<Longrightarrow> \<forall>v p'. parse_value p = Ok (v, p') \<longrightarrow> reach p p'"
  "parse_dom (Inl (Inr p)) \<Longrightarrow> \<forall>v p'. parse_array p = Ok (v, p') \<longrightarrow> reach p p'"
  "parse_dom (Inr (Inl (p, items))) \<Longrightarrow>
     \<forall>v p'. array_loop p items = Ok (v, p') \<longrightarrow> reach p p'"
  "parse_dom (Inr (Inr (Inl p))) \<Longrightarrow> \<forall>v p'. parse_object p = Ok (v, p') \<longrightarrow> reach p p'"
  "parse_dom (Inr (Inr (Inr (p, pairs)))) \<Longrightarrow>
     \<forall>v p'. object_loop p pairs = Ok (v, p') \<longrightarrow> reach p p'"
proof (induction rule: parse_value_parse_array_array_loop_parse_object_object_loop.pinduct)
  case (1 p0)
  show ?case
    using "1.hyps" "1.IH" reach_skip_ws [of p0]
    by (auto simp: parse_value.psimps Let_def split: option.splits if_splits
        dest!: reach_parse_string reach_parse_literal reach_parse_number intro: reach_trans)
next
  case (2 p0)
  show ?case
    using "2.hyps" "2.IH"
    by (auto simp: parse_array.psimps Let_def expect_byte_rest split: if_splits
        dest!: reach_skip_wsD reach_advanceD)
next
  case (3 p items)
  show ?case
  proof (intro allI impI)
    fix w p'
    assume ok: "array_loop p items = Ok (w, p')"
    note eq = array_loop.psimps [OF "3.hyps"] bump_byte_rest
    obtain v p1 where v: "parse_value p = Ok (v, p1)"
      using ok by (cases "parse_value p") (auto simp: eq)
    obtain b bs where b: "rest (skip_ws p1) = b # bs"
      using ok v by (cases "rest (skip_ws p1)") (auto simp: eq)
    have cont: "b = 44 \<and> array_loop (skip_ws (advance 1 (skip_ws p1))) (items @ [v]) = Ok (w, p')
                 \<or> b = 93 \<and> p' = advance 1 (skip_ws p1)"
      using ok v b by (auto simp: eq split: if_splits)
    have "reach p p1" using "3.IH"(1) v by blast
    moreover have "reach p1 p'"
      using cont "3.IH"(2) [OF v refl _ refl refl, of "advance 1 (skip_ws p1)"] b
      by (auto simp: bump_byte_rest dest!: reach_skip_wsD reach_advanceD)
    ultimately show "reach p p'" by (rule reach_trans)
  qed
next
  case (4 p0)
  show ?case
    using "4.hyps" "4.IH"
    by (auto simp: parse_object.psimps Let_def expect_byte_rest split: if_splits
        dest!: reach_skip_wsD reach_advanceD)
next
  case (5 p0 pairs)
  show ?case
  proof (intro allI impI)
    fix w p'
    let ?p = "skip_ws p0"
    assume ok: "object_loop p0 pairs = Ok (w, p')"
    note eq = object_loop.psimps [OF "5.hyps"] bump_byte_rest Let_def
    have key1: "\<not> peek_byte ?p \<noteq> Some 34" using ok by (auto simp: eq split: if_splits)
    obtain key p1 where key: "\<not> peek_byte ?p \<noteq> Some 34" "parse_string ?p = Ok (key, p1)"
      using ok key1 by (cases "parse_string ?p") (auto simp: eq)
    obtain p2 where colon: "expect_byte 58 (skip_ws p1) = Ok p2"
      using ok key by (cases "expect_byte 58 (skip_ws p1)") (auto simp: eq)
    obtain val p3 where val: "parse_value (skip_ws p2) = Ok (val, p3)"
      using ok key colon by (cases "parse_value (skip_ws p2)") (auto simp: eq)
    obtain b bs where b: "rest (skip_ws p3) = b # bs"
      using ok key colon val by (cases "rest (skip_ws p3)") (auto simp: eq)
    have cont: "b = 44 \<and> object_loop (skip_ws (advance 1 (skip_ws p3))) (pairs @ [(key, val)]) = Ok (w, p')
                 \<or> b = 125 \<and> p' = advance 1 (skip_ws p3)"
      using ok key colon val b by (auto simp: eq split: if_splits)
    have "reach p0 p1" using reach_parse_string [OF key(2)] by auto
    also have "reach p1 p2" using colon by (auto simp: expect_byte_rest)
    also have "reach p2 p3" using "5.IH"(1) [OF refl key refl colon] val by blast
    also have "reach p3 p'"
      using cont b "5.IH"(2) [OF refl key refl colon val refl _ refl refl, of "advance 1 (skip_ws p3)"]
      by (auto simp: bump_byte_rest dest!: reach_skip_wsD reach_advanceD)
    finally show "reach p0 p'" .
  qed
qed

definition parse_weight :: "(parser + parser) + (parser \<times> json list) + parser + (parser \<times> (rstring \<times> json) list) \<Rightarrow> nat" where
  "parse_weight =
     case_sum (case_sum (\<lambda>p. 3 * length (rest p) + 2) (\<lambda>p. 3 * length (rest p) + 1))
       (case_sum (\<lambda>(p, items). 3 * length (rest p) + 3)
         (case_sum (\<lambda>p. 3 * length (rest p) + 1) (\<lambda>(p, pairs). 3 * length (rest p) + 3)))"

lemma rest_skip_ws_length: "length (rest (skip_ws p)) \<le> length (rest p)"
  by (simp add: skip_ws_def skip_while_advance)

lemma peek_byte_Some_rest: "peek_byte p = Some b \<Longrightarrow> \<exists>bs. rest p = b # bs"
  by (auto simp: peek_byte_rest split: list.splits)

lemma bump_byte_Some_rest: "(Some b, p') = bump_byte p \<Longrightarrow> p' = advance 1 p \<and> (\<exists>bs. rest p = b # bs)"
  by (auto simp: bump_byte_rest split: list.splits)

lemma bump_skip_ws_less:
  "(Some b, p') = bump_byte (skip_ws p) \<Longrightarrow> length (rest (skip_ws p')) < length (rest p)"
  using rest_skip_ws_length [of p] rest_skip_ws_length [of p'] by (auto dest!: bump_byte_Some_rest)

lemma expect_skip_ws_less:
  "expect_byte b p = Ok p' \<Longrightarrow> length (rest (skip_ws p')) < length (rest p)"
  using rest_skip_ws_length [of p'] by (auto simp: expect_byte_rest)

lemma reach_string_less: "parse_string p = Ok (s, p') \<Longrightarrow> length (rest p') < length (rest p)"
  by (cases "rest p") (auto dest!: reach_parse_string reach_length)

lemma parse_dom_shorter:
  "parse_dom (Inl (Inl p)) \<Longrightarrow> parse_value p = Ok (v, p') \<Longrightarrow> length (rest p') \<le> length (rest p)"
  using reach_parse_dom(1) reach_length by blast

termination parse_value
proof (relation "measure parse_weight", goal_cases)
  case 1
  show ?case by simp
next
  case (2 p0 p c)
  then show ?case using rest_skip_ws_length [of p0] by (simp add: parse_weight_def)
next
  case (3 p0 p c)
  then show ?case using rest_skip_ws_length [of p0] by (simp add: parse_weight_def)
next
  case (4 p0 p1 p)
  then show ?case by (auto simp: parse_weight_def dest!: expect_skip_ws_less)
next
  case 5
  show ?case by (simp add: parse_weight_def)
next
  case (6 p items x v p1 o' p2 b)
  have "length (rest p1) \<le> length (rest p)"
    using parse_dom_shorter [OF 6(6)] 6 by (metis)
  then show ?case using 6 by (auto simp: parse_weight_def dest!: bump_skip_ws_less)
next
  case (7 p0 p1 p)
  then show ?case by (auto simp: parse_weight_def dest!: expect_skip_ws_less)
next
  case (8 p0 pairs p x key p1 p2)
  then show ?case
    using rest_skip_ws_length [of p0] rest_skip_ws_length [of p1]
    by (auto simp: parse_weight_def dest!: reach_string_less expect_skip_ws_less)
next
  case (9 p0 pairs p x key p1 p2 y val p3 o' p4 b)
  have "length (rest p3) \<le> length (rest (skip_ws p2))"
    using parse_dom_shorter [OF 9(11)] 9 by (metis)
  then show ?case using 9 rest_skip_ws_length [of p0] rest_skip_ws_length [of p1]
    by (auto simp: parse_weight_def dest!: reach_string_less expect_skip_ws_less bump_skip_ws_less)
qed

declare parse_value.simps [simp del] parse_array.simps [simp del] array_loop.simps [simp del]
  parse_object.simps [simp del] object_loop.simps [simp del]

section \<open>Documents\<close>

text \<open>\<open>Display\<close> of the standard library's \<open>Utf8Error\<close>.\<close>

definition display_utf8_error :: "utf8_error \<Rightarrow> rstring" where
  "display_utf8_error e =
     (case error_len e of
        Some n \<Rightarrow> str ''invalid utf-8 sequence of '' @ show_nat n @ str '' bytes from index ''
                   @ show_nat (valid_up_to e)
      | None \<Rightarrow> str ''incomplete utf-8 byte sequence from index '' @ show_nat (valid_up_to e))"

text \<open>The bytes of the validated string are the input itself (lemma \<open>from_utf8_iff\<close>).\<close>

definition parse :: "bytes \<Rightarrow> (json, json_error) result" where
  "parse input =
     and_then (map_err (\<lambda>e. JsonError (str ''invalid UTF-8: '' @ display_utf8_error e)) (from_utf8 input))
       (\<lambda>s. and_then (parse_value (skip_ws (new_parser (utf8 s))))
         (\<lambda>(v, p1).
            let p = skip_ws p1 in
            if pos p \<noteq> length (src p)
            then Err (err (str ''trailing data after JSON value'') p)
            else Ok v))"

end
