(* ===== verification/JsonGrammar.thy ===== *)
theory JsonGrammar
  imports JsonParser
begin

text \<open>
  The JSON grammar (RFC 8259) as a relation between trees and their spellings, independent of the
  parser, and the proofs that the parser accepts exactly the spellings the grammar derives, with
  the tree it assigns, and that no input makes it panic.
\<close>

section \<open>The grammar\<close>

definition ws :: "bytes \<Rightarrow> bool" where
  "ws w \<longleftrightarrow> set w \<subseteq> {0x20, 0x09, 0x0A, 0x0D}"

definition digits1 :: "bytes \<Rightarrow> bool" where
  "digits1 ds \<longleftrightarrow> ds \<noteq> [] \<and> set ds \<subseteq> set (utf8 (str ''0123456789''))"

definition json_int :: "bytes \<Rightarrow> bool" where
  "json_int bs \<longleftrightarrow> (\<exists>ds. (bs = ds \<or> bs = 45 # ds) \<and> (ds = [48] \<or> digits1 ds \<and> hd ds \<noteq> 48))"

definition json_frac :: "bytes \<Rightarrow> bool" where
  "json_frac bs \<longleftrightarrow> bs = [] \<or> (\<exists>ds. digits1 ds \<and> bs = 46 # ds)"

definition json_exp :: "bytes \<Rightarrow> bool" where
  "json_exp bs \<longleftrightarrow>
     bs = [] \<or>
     (\<exists>e sgn ds. (e = 101 \<or> e = 69) \<and> (sgn = [] \<or> sgn = [43] \<or> sgn = [45]) \<and> digits1 ds
                 \<and> bs = e # sgn @ ds)"

definition json_number :: "bytes \<Rightarrow> bool" where
  "json_number bs \<longleftrightarrow> (\<exists>i f e. json_int i \<and> json_frac f \<and> json_exp e \<and> bs = i @ f @ e)"

text \<open>A hexadecimal digit of either case; four of them and their value.\<close>

definition hex_letter :: "u8 \<Rightarrow> nat \<Rightarrow> bool" where
  "hex_letter b n \<longleftrightarrow> n < 16 \<and>
     (b = utf8 (str ''0123456789abcdef'') ! n \<or> b = utf8 (str ''0123456789ABCDEF'') ! n)"

definition hex4 :: "bytes \<Rightarrow> nat \<Rightarrow> bool" where
  "hex4 h n \<longleftrightarrow>
     (\<exists>a b c d a' b' c' d'. h = [a, b, c, d]
        \<and> hex_letter a a' \<and> hex_letter b b' \<and> hex_letter c c' \<and> hex_letter d d'
        \<and> n = a' * 4096 + b' * 256 + c' * 16 + d')"

definition simple_escapes :: "(u8 \<times> rchar) list" where
  "simple_escapes =
     [(34, 34), (92, 92), (47, 47), (98, 8), (102, 12), (110, 10), (114, 13), (116, 9)]"

text \<open>\<open>string_body s bs\<close>: between quotes, \<open>bs\<close> spells the string \<open>s\<close>.\<close>

inductive string_body :: "rstring \<Rightarrow> bytes \<Rightarrow> bool" where
  sb_end: "string_body [] []"
| sb_char: "is_scalar c \<Longrightarrow> 32 \<le> c \<Longrightarrow> c \<noteq> 34 \<Longrightarrow> c \<noteq> 92 \<Longrightarrow> string_body s bs \<Longrightarrow>
     string_body (c # s) (encode_char c @ bs)"
| sb_escape: "(e, c) \<in> set simple_escapes \<Longrightarrow> string_body s bs \<Longrightarrow>
     string_body (c # s) (92 # e # bs)"
| sb_unicode: "hex4 h n \<Longrightarrow> n < 0xD800 \<or> 0xDFFF < n \<Longrightarrow> string_body s bs \<Longrightarrow>
     string_body (n # s) (92 # 117 # h @ bs)"
| sb_pair: "hex4 h n \<Longrightarrow> 0xD800 \<le> n \<Longrightarrow> n \<le> 0xDBFF \<Longrightarrow>
     hex4 l m \<Longrightarrow> 0xDC00 \<le> m \<Longrightarrow> m \<le> 0xDFFF \<Longrightarrow> string_body s bs \<Longrightarrow>
     string_body ((0x10000 + (n - 0xD800) * 1024 + (m - 0xDC00)) # s)
       (92 # 117 # h @ 92 # 117 # l @ bs)"

inductive json_value :: "json \<Rightarrow> bytes \<Rightarrow> bool"
  and json_elements :: "json list \<Rightarrow> bytes \<Rightarrow> bool"
  and json_members :: "(rstring \<times> json) list \<Rightarrow> bytes \<Rightarrow> bool"
where
  jv_null: "json_value JNull (utf8 (str ''null''))"
| jv_true: "json_value (JBool True) (utf8 (str ''true''))"
| jv_false: "json_value (JBool False) (utf8 (str ''false''))"
| jv_number: "json_number (utf8 s) \<Longrightarrow> json_value (JNumber (NumberToken s)) (utf8 s)"
| jv_string: "string_body s b \<Longrightarrow> json_value (JString s) (34 # b @ [34])"
| jv_empty_array: "ws w \<Longrightarrow> json_value (JArray []) (91 # w @ [93])"
| jv_array: "json_elements vs b \<Longrightarrow> json_value (JArray vs) (91 # b @ [93])"
| jv_empty_object: "ws w \<Longrightarrow> json_value (JObject []) (123 # w @ [125])"
| jv_object: "json_members ms b \<Longrightarrow> json_value (JObject ms) (123 # b @ [125])"
| je_last: "ws w \<Longrightarrow> json_value v b \<Longrightarrow> ws w' \<Longrightarrow> json_elements [v] (w @ b @ w')"
| je_more: "ws w \<Longrightarrow> json_value v b \<Longrightarrow> ws w' \<Longrightarrow> json_elements vs bs \<Longrightarrow>
     json_elements (v # vs) (w @ b @ w' @ 44 # bs)"
| jm_last: "ws w \<Longrightarrow> string_body k kb \<Longrightarrow> ws w1 \<Longrightarrow> ws w2 \<Longrightarrow> json_value v b \<Longrightarrow> ws w' \<Longrightarrow>
     json_members [(k, v)] (w @ 34 # kb @ 34 # w1 @ 58 # w2 @ b @ w')"
| jm_more: "ws w \<Longrightarrow> string_body k kb \<Longrightarrow> ws w1 \<Longrightarrow> ws w2 \<Longrightarrow> json_value v b \<Longrightarrow> ws w' \<Longrightarrow>
     json_members ms bs \<Longrightarrow>
     json_members ((k, v) # ms) (w @ 34 # kb @ 34 # w1 @ 58 # w2 @ b @ w' @ 44 # bs)"

definition json_text :: "json \<Rightarrow> bytes \<Rightarrow> bool" where
  "json_text v bs \<longleftrightarrow> (\<exists>w b w'. ws w \<and> json_value v b \<and> ws w' \<and> bs = w @ b @ w')"

section \<open>The letters of the grammar and of the parser\<close>

lemma ws_iff: "ws w \<longleftrightarrow> list_all is_ws w"
  by (auto simp: ws_def is_ws_def list_all_iff)

lemma ws_simps [simp]: "ws []" "ws (b # w) \<longleftrightarrow> is_ws b \<and> ws w" "ws (v @ w) \<longleftrightarrow> ws v \<and> ws w"
  by (simp_all add: ws_iff)

lemma letter_ranges:
  "[0..<16] = [0, 1, 2, 3, 4, 5, 6, 7, 8, 9, 10, 11, 12, 13, 14, 15]"
  "[48..<58] = [48, 49, 50, 51, 52, 53, 54, 55, 56, 57]"
  "[97..<103] = [97, 98, 99, 100, 101, 102]" "[65..<71] = [65, 66, 67, 68, 69, 70]"
  by code_simp+

lemma digits1_iff: "digits1 ds \<longleftrightarrow> ds \<noteq> [] \<and> list_all is_digit_byte ds"
proof -
  have "b \<in> set (utf8 (str ''0123456789'')) \<longleftrightarrow> is_digit_byte b" for b
  proof
    assume "is_digit_byte b"
    then have "48 \<le> unat b" "unat b \<le> 57" by (simp_all add: is_digit_byte_def word_le_nat_alt)
    then have "unat b \<in> set [48..<58]" unfolding set_upt atLeastLessThan_iff by linarith
    then show "b \<in> set (utf8 (str ''0123456789''))"
      unfolding letter_ranges by (simp add: encode_ascii byte_eq_iff)
  qed (auto simp: is_digit_byte_def encode_ascii)
  then show ?thesis by (auto simp: digits1_def list_all_iff)
qed

lemma hex_letter_iff: "hex_letter b n \<longleftrightarrow> (\<exists>d. hex_value b = Some d \<and> n = unat d)"
proof
  have vals: "\<forall>n\<in>set [0..<16].
      (\<exists>d. hex_value (utf8 (str ''0123456789abcdef'') ! n) = Some d \<and> n = unat d)
      \<and> (\<exists>d. hex_value (utf8 (str ''0123456789ABCDEF'') ! n) = Some d \<and> n = unat d)"
    unfolding letter_ranges by (simp add: encode_ascii hex_value_def)
  assume "hex_letter b n"
  then show "\<exists>d. hex_value b = Some d \<and> n = unat d"
    using vals by (auto simp: hex_letter_def)
next
  assume "\<exists>d. hex_value b = Some d \<and> n = unat d"
  then obtain d where d: "hex_value b = Some d" "n = unat d" by blast
  then have "48 \<le> unat b \<and> unat b \<le> 57 \<or> 97 \<le> unat b \<and> unat b \<le> 102 \<or> 65 \<le> unat b \<and> unat b \<le> 70"
    by (auto simp: hex_value_def word_le_nat_alt split: if_splits)
  then have "unat b \<in> set ([48..<58] @ [97..<103] @ [65..<71])"
    unfolding set_append set_upt Un_iff atLeastLessThan_iff by linarith
  then have "b \<in> {48, 49, 50, 51, 52, 53, 54, 55, 56, 57, 97, 98, 99, 100, 101, 102, 65, 66, 67, 68, 69, 70}"
    unfolding letter_ranges by (simp add: byte_eq_iff)
  then show "hex_letter b n"
    unfolding insert_iff empty_iff using d
    by (elim disjE FalseE) (simp_all add: hex_value_def hex_letter_def encode_ascii)
qed

lemma hex4_iff:
  "hex4 h n \<longleftrightarrow>
     (\<exists>a b c d a' b' c' d'. h = [a, b, c, d]
        \<and> map hex_value h = [Some a', Some b', Some c', Some d']
        \<and> n = unat a' * 4096 + unat b' * 256 + unat c' * 16 + unat d')"
  unfolding hex4_def hex_letter_iff by fastforce

section \<open>Reading a piece of the input\<close>

text \<open>\<open>spans p bs q\<close>: reading exactly \<open>bs\<close> takes the parser from \<open>p\<close> to \<open>q\<close>.\<close>

definition spans :: "parser \<Rightarrow> bytes \<Rightarrow> parser \<Rightarrow> bool" where
  "spans p bs q \<longleftrightarrow> (\<exists>r. rest p = bs @ r) \<and> q = advance (length bs) p"

lemma spans_refl [simp]: "spans p [] p"
  by (simp add: spans_def)

lemma spans_trans: "spans p as q \<Longrightarrow> spans q bs r \<Longrightarrow> spans p (as @ bs) r"
  by (auto simp: spans_def)

lemma spans_Cons: "spans p [b] q \<Longrightarrow> spans q bs r \<Longrightarrow> spans p (b # bs) r"
  using spans_trans by fastforce

lemma spansI: "rest p = bs @ r \<Longrightarrow> spans p bs (advance (length bs) p)"
  by (simp add: spans_def)

lemma spans_step: "rest p = b # r \<Longrightarrow> spans p [b] (advance (Suc 0) p)"
  using spansI [of p "[b]"] by simp

lemma spans_peek: "peek_byte p = Some b \<Longrightarrow> spans p [b] (advance (Suc 0) p)"
  by (auto simp: peek_byte_rest spans_step split: list.splits)

lemma spans_expect_byte: "expect_byte b p = Ok q \<longleftrightarrow> spans p [b] q"
  by (auto simp: expect_byte_rest spans_def)

lemma spans_skip_while: "spans p (takeWhile f (rest p)) (skip_while f p)"
  unfolding spans_def skip_while_advance using takeWhile_dropWhile_id [of f "rest p"] by metis

lemma list_all_takeWhile: "list_all f (takeWhile f xs)"
  by (induction xs) auto

lemma spans_skip_ws: "\<exists>w. ws w \<and> spans p w (skip_ws p)"
  unfolding skip_ws_def ws_iff
  using spans_skip_while list_all_takeWhile by blast

lemma skip_while_rest:
  "list_all f w \<Longrightarrow> r = [] \<or> \<not> f (hd r) \<Longrightarrow> rest p = w @ r \<Longrightarrow> skip_while f p = advance (length w) p"
  using takeWhile_append_stop [of w f r] by (simp add: skip_while_advance list_all_iff)

lemma rest_spans: "spans p bs q \<Longrightarrow> rest p = bs @ rest q"
  unfolding spans_def by (elim conjE exE) simp

section \<open>Numbers\<close>

lemma spans_number_int: "number_int p = Ok q \<Longrightarrow> \<exists>b. json_int b \<and> spans p b q"
proof -
  assume ok: "number_int p = Ok q"
  define p1 where "p1 = (if peek_byte p = Some 45 then advance 1 p else p)"
  obtain s where s: "spans p s p1" "s = [] \<or> s = [45]"
  proof (cases "peek_byte p = Some 45")
    case True
    then show ?thesis using that [of "[45]"] by (simp add: p1_def spans_peek)
  next
    case False
    then show ?thesis using that [of "[]"] by (simp add: p1_def)
  qed
  have eq: "number_int p = (case peek_byte p1 of
        Some b \<Rightarrow> if b = 48 then Ok (advance 1 p1)
                  else if 49 \<le> b \<and> b \<le> 57 then Ok (skip_digits p1)
                  else Err (err (str ''invalid number: expected a digit'') p1)
      | None \<Rightarrow> Err (err (str ''invalid number: expected a digit'') p1))"
    unfolding number_int_def p1_def Let_def ..
  from ok obtain b bs where b: "rest p1 = b # bs"
    by (cases "rest p1") (auto simp: eq peek_byte_rest)
  from ok b consider (zero) "b = 48" "q = advance 1 p1"
    | (digits) "49 \<le> b" "b \<le> 57" "q = skip_digits p1"
    by (auto simp: eq peek_byte_rest split: if_splits)
  then obtain ds where ds: "ds = [48] \<or> digits1 ds \<and> hd ds \<noteq> 48" "spans p1 ds q"
  proof cases
    case zero
    then show ?thesis using that [of "[48]"] b by (simp add: spans_step)
  next
    case digits
    have d: "is_digit_byte b" using digits by (auto simp: is_digit_byte_def word_le_nat_alt)
    have "takeWhile is_digit_byte (rest p1) = b # takeWhile is_digit_byte bs"
      using b d by simp
    moreover have "b \<noteq> 48" using digits by (auto simp: word_le_nat_alt)
    ultimately show ?thesis
      using that [of "takeWhile is_digit_byte (rest p1)"] digits
        spans_skip_while [of p1 is_digit_byte] list_all_takeWhile [of is_digit_byte "rest p1"]
      by (auto simp: digits1_iff skip_digits_def)
  qed
  from s ds show ?thesis
    by (intro exI [of _ "s @ ds"]) (auto simp: json_int_def intro: spans_trans)
qed

lemma skip_digits_spans:
  "pos (skip_digits p) \<noteq> pos p \<Longrightarrow> \<exists>ds. digits1 ds \<and> spans p ds (skip_digits p)"
  using spans_skip_while [of p is_digit_byte]
  by (intro exI [of _ "takeWhile is_digit_byte (rest p)"])
     (auto simp: skip_digits_def digits1_iff skip_while_advance list_all_takeWhile)

lemma spans_number_frac: "number_frac p = Ok q \<Longrightarrow> \<exists>b. json_frac b \<and> spans p b q"
proof (cases "peek_byte p = Some 46")
  case True
  assume ok: "number_frac p = Ok q"
  from True have s: "spans p [46] (advance 1 p)"
    by (simp add: spans_peek)
  from ok True have q: "q = skip_digits (advance 1 p)" "pos q \<noteq> pos (advance 1 p)"
    by (auto simp: number_frac_def Let_def split: if_splits)
  then obtain ds where "digits1 ds" "spans (advance 1 p) ds q"
    using skip_digits_spans [of "advance 1 p"] by auto
  with s show ?thesis
    by (intro exI [of _ "46 # ds"]) (auto simp: json_frac_def intro: spans_Cons)
next
  case False
  assume "number_frac p = Ok q"
  with False show ?thesis
    by (intro exI [of _ "[]"]) (simp add: number_frac_def json_frac_def)
qed

lemma spans_number_exp: "number_exp p = Ok q \<Longrightarrow> \<exists>b. json_exp b \<and> spans p b q"
proof (cases "peek_byte p = Some 101 \<or> peek_byte p = Some 69")
  case True
  assume ok: "number_exp p = Ok q"
  from True obtain e where e: "e = 101 \<or> e = 69" "spans p [e] (advance 1 p)"
    by (auto dest: spans_peek)
  define p1 where "p1 = advance 1 p"
  define p2 where
    "p2 = (if peek_byte p1 = Some 43 \<or> peek_byte p1 = Some 45 then advance 1 p1 else p1)"
  obtain s where s: "s = [] \<or> s = [43] \<or> s = [45]" "spans p1 s p2"
  proof (cases "peek_byte p1 = Some 43 \<or> peek_byte p1 = Some 45")
    case True
    then show ?thesis using that [of "[43]"] that [of "[45]"] by (auto simp: p2_def spans_peek)
  next
    case False
    then show ?thesis using that [of "[]"] by (simp add: p2_def)
  qed
  from ok True have q: "q = skip_digits p2" "pos q \<noteq> pos p2"
    by (auto simp: number_exp_def Let_def p2_def p1_def split: if_splits)
  then obtain ds where "digits1 ds" "spans p2 ds q"
    using skip_digits_spans [of p2] by auto
  with e s show ?thesis
    unfolding json_exp_def p1_def
    by (intro exI [of _ "e # s @ ds"]) (blast intro: spans_Cons spans_trans)
next
  case False
  assume "number_exp p = Ok q"
  with False show ?thesis
    by (intro exI [of _ "[]"]) (simp add: number_exp_def json_exp_def)
qed


lemma spans_parse_number:
  assumes "parse_number p = Ok (n, q)"
  shows "\<exists>s. n = NumberToken s \<and> json_number (utf8 s) \<and> spans p (utf8 s) q"
proof -
  from assms obtain p1 p2 sl s where ok: "number_int p = Ok p1" "number_frac p1 = Ok p2"
      "number_exp p2 = Ok q" "str_slice (src q) (pos p) (pos q) = (Ok sl :: (_, json_error) result)"
      "slice_to_string sl = (Ok s :: (_, json_error) result)" "n = NumberToken s"
    by (auto simp: parse_number_def)
  obtain i f e where b: "json_int i" "spans p i p1" "json_frac f" "spans p1 f p2" "json_exp e" "spans p2 e q"
    using ok(1,2,3) spans_number_int spans_number_frac spans_number_exp by blast
  have all: "spans p (i @ f @ e) q" using b by (blast intro: spans_trans)
  have "sl = i @ f @ e"
    using all ok(4) by (auto simp: str_slice_def spans_def rest_def split: if_splits)
  moreover have "utf8 s = sl"
    using ok(5) by (auto simp: slice_to_string_def from_utf8_iff split: result.splits)
  ultimately show ?thesis
    using all b ok(6) by (auto simp: json_number_def)
qed

section \<open>Strings\<close>

lemma unat_ucast_u16 [simp]: "unat (ucast (d :: u8) :: u16) = unat d"
proof -
  have "unat d < 2 ^ 16" by (rule less_le_trans [OF u8_less_256]) simp
  then show ?thesis by (simp add: unsigned_ucast_eq take_bit_nat_eq_self)
qed

lemma unat_ucast_u32 [simp]: "unat (ucast (d :: u16) :: u32) = unat d"
proof -
  have "unat d < 2 ^ 32" using unsigned_less [of d, where ?'a = nat] by simp
  then show ?thesis by (simp add: unsigned_ucast_eq take_bit_nat_eq_self)
qed

lemma spans_hex4_loop:
  "hex4_loop k v p = Ok (w, q) \<Longrightarrow>
   \<exists>h ds. length h = k \<and> map hex_value h = map Some ds \<and> spans p h q
     \<and> unat w = foldl (\<lambda>a d. a * 16 + unat d) (unat v) ds"
proof (induction k arbitrary: v p)
  case 0
  then show ?case by (intro exI [of _ "[]"]) auto
next
  case (Suc k)
  then obtain b r d where b: "rest p = b # r" "hex_value b = Some d" "unat v * 16 + unat d < 2 ^ 16"
      "hex4_loop k (v * 16 + ucast d) (advance 1 p) = Ok (w, q)"
    by (auto simp: bump_byte_rest split: list.splits option.splits if_splits)
  obtain h ds where IH: "length h = k" "map hex_value h = map Some ds" "spans (advance 1 p) h q"
      "unat w = foldl (\<lambda>a d. a * 16 + unat d) (unat (v * 16 + ucast d)) ds"
    using Suc.IH [OF b(4)] by blast
  have "unat (v * 16) = unat v * 16"
    using b(3) by (simp add: unat_word_ariths)
  then have "unat (v * 16 + ucast d) = unat v * 16 + unat d"
    using b(3) by (simp add: unat_word_ariths)
  with IH b show ?case
    by (intro exI [of _ "b # h"] exI [of _ "d # ds"]) (auto intro: spans_Cons spans_step)
qed


lemma spans_parse_hex4: "parse_hex4 p = Ok (w, q) \<Longrightarrow> \<exists>h. hex4 h (unat w) \<and> spans p h q"
  unfolding parse_hex4_def
proof (drule spans_hex4_loop, elim exE conjE)
  fix h ds
  assume a: "length h = 4" "map hex_value h = map Some ds" "spans p h q"
    and w: "unat w = foldl (\<lambda>a d. a * 16 + unat d) (unat (0 :: u16)) ds"
  from a(1) obtain b1 b2 b3 b4 where h: "h = [b1, b2, b3, b4]"
    by (auto simp: length_Suc_conv eval_nat_numeral)
  from a(2) h obtain d1 d2 d3 d4 where ds: "ds = [d1, d2, d3, d4]" by auto
  have "hex4 h (unat w)"
    using a(2) w unfolding hex4_iff h ds by (simp add: algebra_simps)
  with a(3) show "\<exists>h. hex4 h (unat w) \<and> spans p h q" by blast
qed

lemma unat_join_surrogates:
  assumes "0xD800 \<le> cp" "cp \<le> 0xDBFF" "0xDC00 \<le> low" "low \<le> 0xDFFF"
  shows "unat (join_surrogates cp low) = 0x10000 + (unat cp - 0xD800) * 1024 + (unat low - 0xDC00)"
proof -
  have n: "55296 \<le> unat cp" "unat cp \<le> 56319" "56320 \<le> unat low" "unat low \<le> 57343"
    using assms by (simp_all add: word_le_nat_alt)
  define a l :: u32 where "a = ucast cp - 0xD800" and "l = ucast low - 0xDC00"
  have a: "unat a = unat cp - 55296"
    unfolding a_def using n by (subst unat_sub) (simp_all add: word_le_nat_alt)
  have l: "unat l = unat low - 56320"
    unfolding l_def using n by (subst unat_sub) (simp_all add: word_le_nat_alt)
  have "join_surrogates cp low = 0x10000 + a * 1024 + l"
    unfolding join_surrogates_def a_def [symmetric] l_def [symmetric] by (simp add: push_bit_eq_mult)
  then show ?thesis
    using n by (simp add: unat_word_ariths a l)
qed

lemma spans_parse_unicode_escape:
  assumes "parse_unicode_escape p = Ok (c, q)"
  shows "\<exists>b. spans p b q \<and>
    (\<forall>s bs. string_body s bs \<longrightarrow> string_body (c # s) (92 # 117 # b @ bs))"
proof -
  from assms obtain cp p1 where h: "parse_hex4 p = Ok (cp, p1)"
    by (auto simp: parse_unicode_escape_def)
  then obtain hb where hb: "hex4 hb (unat cp)" "spans p hb p1"
    using spans_parse_hex4 by blast
  show ?thesis
  proof (cases "0xD800 \<le> cp \<and> cp \<le> 0xDBFF")
    case True
    with assms h obtain r low where r: "rest p1 = 92 # 117 # r"
        "parse_hex4 (advance 2 p1) = Ok (low, q)" "0xDC00 \<le> low" "low \<le> 0xDFFF"
        "char_from_u32 (join_surrogates cp low) = Some c"
      by (auto simp: parse_unicode_escape_def bump_byte_rest numeral_2_eq_2
          split: list.splits if_splits)
    obtain lb where lb: "hex4 lb (unat low)" "spans (advance 2 p1) lb q"
      using spans_parse_hex4 r(2) by blast
    have c: "c = 0x10000 + (unat cp - 0xD800) * 1024 + (unat low - 0xDC00)"
      using r True by (simp add: char_from_u32_def unat_join_surrogates split: if_splits)
    have "spans p1 [92, 117] (advance 2 p1)" using r by (auto simp: spans_def)
    with hb lb have "spans p (hb @ [92, 117] @ lb) q" by (blast intro: spans_trans)
    moreover have "string_body (c # s) (92 # 117 # (hb @ [92, 117] @ lb) @ bs)" if "string_body s bs" for s bs
      using sb_pair [OF hb(1) _ _ lb(1) _ _ that] True r unfolding c by (simp add: word_le_nat_alt)
    ultimately show ?thesis by blast
  next
    case False
    with assms h have r: "p1 = q" "\<not> (0xDC00 \<le> cp \<and> cp \<le> 0xDFFF)" "c = unat cp"
      by (auto simp: parse_unicode_escape_def char_from_u32_def split: if_splits)
    have "unat cp < 0xD800 \<or> 0xDFFF < unat cp"
      using False r(2) by (simp add: word_le_nat_alt) linarith
    then show ?thesis using hb r sb_unicode by blast
  qed
qed

lemma spans_parse_escape:
  assumes "parse_escape p out = Ok (out', q)"
  shows "\<exists>c b. out' = out @ [c] \<and> spans p b q \<and>
    (\<forall>s bs. string_body s bs \<longrightarrow> string_body (c # s) (92 # b @ bs))"
proof -
  from assms obtain b r where b: "rest p = b # r"
    by (cases "rest p") (auto simp: parse_escape_def bump_byte_rest)
  show ?thesis
  proof (cases "b = 117")
    case True
    with assms b obtain c where c: "parse_unicode_escape (advance 1 p) = Ok (c, q)" "out' = out @ [c]"
      by (auto simp: parse_escape_def bump_byte_rest)
    obtain ub where "spans (advance 1 p) ub q"
        "\<forall>s bs. string_body s bs \<longrightarrow> string_body (c # s) (92 # 117 # ub @ bs)"
      using spans_parse_unicode_escape [OF c(1)] by blast
    with b c(2) True show ?thesis
      by (intro exI [of _ c] exI [of _ "117 # ub"]) (auto intro: spans_Cons spans_step)
  next
    case False
    with assms b obtain c where "(b, c) \<in> set simple_escapes" "out' = out @ [c]" "q = advance 1 p"
      by (auto simp: parse_escape_def bump_byte_rest simple_escapes_def split: if_splits)
    with b show ?thesis
      by (intro exI [of _ c] exI [of _ "[b]"]) (auto intro: spans_step sb_escape)
  qed
qed

lemma spans_first_char:
  assumes "first_char (rest p) = Some c"
  shows "is_scalar c" and "spans p (encode_char c) (advance (len_utf8 c) p)"
proof -
  from assms obtain n where n: "decode_first (rest p) = Ok (c, n)"
    by (auto simp: first_char_def split: result.splits)
  show "is_scalar c" by (rule decode_first_sound(1) [OF n])
  show "spans p (encode_char c) (advance (len_utf8 c) p)"
    using decode_first_sound(2) [OF n] unfolding spans_def length_encode_char by blast
qed

lemma encode_char_hd: "rest p = b # r \<Longrightarrow> spans p (encode_char c) q \<Longrightarrow> hd (encode_char c) = b"
  by (cases "encode_char c") (auto simp: spans_def)

lemma spans_string_loop:
  "string_loop p out = Ok (s, q) \<Longrightarrow>
   \<exists>t b. s = out @ t \<and> string_body t b \<and> spans p (b @ [34]) q"
proof (induction "length (rest p)" arbitrary: p out rule: less_induct)
  case less
  obtain b r where b: "rest p = b # r"
    using less.prems by (subst (asm) string_loop_rest) (cases "rest p"; auto)
  note eq = less.prems [unfolded string_loop_rest [of p out] b, simplified]
  have step: "\<exists>t bs. s = out @ t \<and> string_body t bs \<and> spans p (bs @ [34]) q"
    if "string_loop p1 (out @ [c]) = Ok (s, q)" "spans p cb p1" "cb \<noteq> []"
      "\<And>t bs. string_body t bs \<Longrightarrow> string_body (c # t) (cb @ bs)" for c cb p1
  proof -
    have "length (rest p1) < length (rest p)" using rest_spans [OF that(2)] that(3) by simp
    from less.hyps [OF this that(1)] obtain t bs
      where "s = (out @ [c]) @ t" "string_body t bs" "spans p1 (bs @ [34]) q" by blast
    then show ?thesis
      using spans_trans [OF that(2)] that(4)
      by (intro exI [of _ "c # t"] exI [of _ "cb @ bs"]) auto
  qed
  consider "b = 34" | (esc) "b = 92" | (ascii) "32 \<le> b" "b < 128" "b \<noteq> 34" "b \<noteq> 92" | (multi) "128 \<le> b"
    using eq by (auto split: if_splits)
  then show ?case
  proof cases
    case 1
    with eq b show ?thesis by (intro exI [of _ "[]"]) (auto intro: spans_step sb_end)
  next
    case esc
    then obtain out' p2 where e: "parse_escape (advance 1 p) out = Ok (out', p2)" "string_loop p2 out' = Ok (s, q)"
      using eq by auto
    then obtain c eb where "out' = out @ [c]" "spans (advance 1 p) eb p2"
        "\<forall>t bs. string_body t bs \<longrightarrow> string_body (c # t) (92 # eb @ bs)"
      using spans_parse_escape by blast
    with e(2) esc b show ?thesis
      by (intro step [of p2 c "92 # eb"]) (auto intro: spans_Cons spans_step)
  next
    case ascii
    then have n: "unat b < 128" "32 \<le> unat b" "unat b \<noteq> 34" "unat b \<noteq> 92" "\<not> b < 32"
      by (auto simp: word_le_nat_alt word_less_nat_alt byte_eq_iff)
    with eq ascii b show ?thesis
      using sb_char [of "unat b"] ascii_scalar [of "unat b"]
      by (intro step [of "advance 1 p" "unat b" "[b]"])
         (auto intro: spans_step simp: encode_ascii)
  next
    case multi
    then have n: "b \<noteq> 34" "b \<noteq> 92" "\<not> b < 32" "\<not> b < 128" "128 \<le> unat b"
      by (auto simp: word_le_nat_alt word_less_nat_alt)
    with eq obtain c where c: "first_char (rest p) = Some c"
        "string_loop (advance (len_utf8 c) p) (out @ [c]) = Ok (s, q)"
      by (auto simp: str_from_def rest_def [symmetric] split: if_splits option.splits)
    note sp = spans_first_char [OF c(1)]
    have "128 \<le> c"
    proof (rule ccontr)
      assume "\<not> 128 \<le> c"
      then have "hd (encode_char c) = byte c" "unat (byte c) = c"
        by (simp_all add: encode_ascii unat_byte)
      with encode_char_hd [OF b sp(2)] n(5) \<open>\<not> 128 \<le> c\<close> show False by simp
    qed
    then show ?thesis
      using step [OF c(2) sp(2)] sb_char [OF sp(1)] by auto
  qed
qed

lemma spans_parse_string:
  "parse_string p = Ok (s, q) \<Longrightarrow> \<exists>b. string_body s b \<and> spans p (34 # b @ [34]) q"
  using spans_string_loop by (fastforce simp: parse_string_def spans_expect_byte intro: spans_Cons)


section \<open>Values\<close>

lemma spans_parse_literal:
  assumes "parse_literal lit v p = Ok (w, q)" and "length (utf8 (str lit)) = length lit"
  shows "w = v \<and> spans p (utf8 (str lit)) q"
proof -
  from assms have "take (length lit) (rest p) = utf8 (str lit)" "w = v" "q = advance (length lit) p"
    by (auto simp: parse_literal_def str_from_def rest_def split: if_splits)
  with assms(2) show ?thesis
    unfolding spans_def by (metis append_take_drop_id)
qed

lemma spans_bump: "bump_byte p = (Some b, q) \<Longrightarrow> spans p [b] q"
  by (auto simp: bump_byte_rest spans_step split: list.splits)

lemma spans_after_ws:
  assumes "spans (skip_ws p) bs q"
  shows "\<exists>w. ws w \<and> spans p (w @ bs) q"
  using assms spans_skip_ws [of p] spans_trans by blast

text \<open>White space in front of the elements of an array or of the members of an object.\<close>

inductive_cases elements_cases: "json_elements vs b"
inductive_cases members_cases: "json_members ms b"

lemma elements_ws: "json_elements vs b \<Longrightarrow> ws w \<Longrightarrow> json_elements vs (w @ b)"
  by (erule elements_cases)
     (simp_all add: je_last [of "w @ _", simplified] je_more [of "w @ _", simplified])

lemma members_ws: "json_members ms b \<Longrightarrow> ws w \<Longrightarrow> json_members ms (w @ b)"
  by (erule members_cases)
     (simp_all add: jm_last [of "w @ _", simplified] jm_more [of "w @ _", simplified])

theorem parse_sound:
  "parse_value p = Ok (v, q) \<Longrightarrow> \<exists>w b. ws w \<and> json_value v b \<and> spans p (w @ b) q"
  "parse_array p = Ok (v, q) \<Longrightarrow> \<exists>b. json_value v b \<and> spans p b q"
  "array_loop p items = Ok (v, q) \<Longrightarrow>
     \<exists>vs b. v = JArray (items @ vs) \<and> json_elements vs b \<and> spans p (b @ [93]) q"
  "parse_object p = Ok (v, q) \<Longrightarrow> \<exists>b. json_value v b \<and> spans p b q"
  "object_loop p pairs = Ok (v, q) \<Longrightarrow>
     \<exists>ms b. v = JObject (pairs @ ms) \<and> json_members ms b \<and> spans p (b @ [125]) q"
proof (induction p and p and p items and p and p pairs arbitrary: v q and v q and v q and v q and v q
    rule: parse_value_parse_array_array_loop_parse_object_object_loop.induct)
  case (1 p0)
  let ?p = "skip_ws p0"
  obtain c where c: "peek_byte ?p = Some c"
    using 1(3) by (cases "peek_byte ?p") (auto simp: parse_value.simps Let_def)
  note eq = 1(3) [unfolded parse_value.simps [of p0] Let_def c, simplified]
  consider "c = 123" | "c = 91" | (str) "c = 34" | (lit) "c = 116 \<or> c = 102 \<or> c = 110"
    | (num) "c \<noteq> 123" "c \<noteq> 91" "c \<noteq> 34" "c \<noteq> 116" "c \<noteq> 102" "c \<noteq> 110"
    by blast
  then have "\<exists>b. json_value v b \<and> spans ?p b q"
  proof cases
    case 1
    then show ?thesis using "1.IH"(1) [OF refl c] eq by simp
  next
    case 2
    then show ?thesis using "1.IH"(2) [OF refl c] eq by simp
  next
    case str
    then show ?thesis using eq spans_parse_string jv_string by fastforce
  next
    case lit
    then show ?thesis
      using eq jv_null jv_true jv_false by (auto dest!: spans_parse_literal simp: encode_ascii) blast+
  next
    case num
    then obtain n where "parse_number ?p = Ok (n, q)" "v = JNumber n"
      using eq by (auto split: if_splits)
    then show ?thesis using spans_parse_number jv_number by blast
  qed
  then show ?case using spans_skip_ws [of p0] spans_trans by blast
next
  case (2 p0)
  then obtain p1 where p1: "spans p0 [91] p1" "expect_byte 91 p0 = Ok p1"
    by (auto simp: parse_array.simps spans_expect_byte)
  note eq = 2(2) [unfolded parse_array.simps [of p0] p1(2) and_then.simps Let_def]
  show ?case
  proof (cases "peek_byte (skip_ws p1) = Some 93")
    case True
    with eq have "v = JArray []" "q = advance 1 (skip_ws p1)" by simp_all
    moreover from True obtain w where "ws w" "spans p1 (w @ [93]) (advance 1 (skip_ws p1))"
      using spans_after_ws [of p1 "[93]"] spans_peek by fastforce
    ultimately show ?thesis using jv_empty_array spans_Cons [OF p1(1)] by blast
  next
    case False
    with eq "2.IH" [OF p1(2) refl] obtain vs b
      where b: "v = JArray vs" "json_elements vs b" "spans (skip_ws p1) (b @ [93]) q"
      by auto
    from b(3) obtain w where w: "ws w" "spans p0 (91 # w @ b @ [93]) q"
      using spans_after_ws [of p1] spans_Cons [OF p1(1)] by blast
    have "json_elements vs (w @ b)"
      using b(2) w(1) by (rule elements_ws)
    then show ?thesis using b(1) w(2) jv_array by fastforce
  qed
next
  case (3 p items)
  obtain x p1 where x: "parse_value p = Ok (x, p1)"
    using 3(3) by (auto simp: array_loop.simps)
  obtain w b where b: "ws w" "json_value x b" "spans p (w @ b) p1"
    using "3.IH"(1) [OF x] by blast
  obtain c p2 where c: "bump_byte (skip_ws p1) = (Some c, p2)"
    using 3(3) x by (cases "bump_byte (skip_ws p1)") (auto simp: array_loop.simps split: option.splits)
  note eq = 3(3) [unfolded array_loop.simps [of p] x c and_then.simps prod.case option.case]
  obtain w' where w': "ws w'" "spans p1 (w' @ [c]) p2"
    using spans_after_ws [OF spans_bump [OF c]] by blast
  have upto: "spans p (w @ b @ w' @ [c]) p2" using spans_trans [OF b(3) w'(2)] by simp
  show ?case
  proof (cases "c = 44")
    case True
    with eq "3.IH"(2) [OF x refl c [symmetric] refl True] obtain vs bs
      where "v = JArray ((items @ [x]) @ vs)" "json_elements vs bs" "spans (skip_ws p2) (bs @ [93]) q"
      by auto
    then obtain w2 where "v = JArray (items @ x # vs)" "json_elements vs (w2 @ bs)"
        "spans p2 ((w2 @ bs) @ [93]) q"
      using elements_ws spans_after_ws by fastforce
    then show ?thesis
      using je_more [OF b(1,2) w'(1)] spans_trans [OF upto] True
      by (intro exI [of _ "x # vs"] exI [of _ "w @ b @ w' @ 44 # w2 @ bs"]) fastforce
  next
    case False
    with eq have "c = 93" "v = JArray (items @ [x])" "p2 = q"
      by (auto split: if_splits)
    then show ?thesis
      using je_last [OF b(1,2) w'(1)] upto
      by (intro exI [of _ "[x]"] exI [of _ "w @ b @ w'"]) simp
  qed
next
  case (4 p0)
  then obtain p1 where p1: "spans p0 [123] p1" "expect_byte 123 p0 = Ok p1"
    by (auto simp: parse_object.simps spans_expect_byte)
  note eq = 4(2) [unfolded parse_object.simps [of p0] p1(2) and_then.simps Let_def]
  show ?case
  proof (cases "peek_byte (skip_ws p1) = Some 125")
    case True
    with eq have "v = JObject []" "q = advance 1 (skip_ws p1)" by simp_all
    moreover from True obtain w where "ws w" "spans p1 (w @ [125]) (advance 1 (skip_ws p1))"
      using spans_after_ws [of p1 "[125]"] spans_peek by fastforce
    ultimately show ?thesis using jv_empty_object spans_Cons [OF p1(1)] by blast
  next
    case False
    with eq "4.IH" [OF p1(2) refl] obtain ms b
      where b: "v = JObject ms" "json_members ms b" "spans (skip_ws p1) (b @ [125]) q"
      by auto
    from b(3) obtain w where w: "ws w" "spans p0 (123 # w @ b @ [125]) q"
      using spans_after_ws [of p1] spans_Cons [OF p1(1)] by blast
    have "json_members ms (w @ b)"
      using b(2) w(1) by (rule members_ws)
    then show ?thesis using b(1) w(2) jv_object by fastforce
  qed
next
  case (5 p0 pairs)
  let ?p = "skip_ws p0"
  have quote: "\<not> peek_byte ?p \<noteq> Some 34"
    using 5(3) by (auto simp: object_loop.simps Let_def split: if_splits)
  obtain k p1 p2 x p3 where ok: "parse_string ?p = Ok (k, p1)" "expect_byte 58 (skip_ws p1) = Ok p2"
      "parse_value (skip_ws p2) = Ok (x, p3)"
    using 5(3) by (auto simp: object_loop.simps Let_def split: if_splits)
  obtain c p4 where c: "bump_byte (skip_ws p3) = (Some c, p4)"
    using 5(3) ok by (cases "bump_byte (skip_ws p3)") (auto simp: object_loop.simps Let_def split: if_splits option.splits)
  note eq = 5(3) [unfolded object_loop.simps [of p0] Let_def ok c if_not_P [OF quote] and_then.simps prod.case option.case]
  obtain w kb where kb: "ws w" "string_body k kb" "spans p0 (w @ 34 # kb @ [34]) p1"
    using spans_parse_string [OF ok(1)] spans_after_ws by blast
  obtain w1 where w1: "ws w1" "spans p1 (w1 @ [58]) p2"
    using spans_after_ws ok(2) spans_expect_byte by blast
  obtain w2 w2' b where b: "ws w2" "ws w2'" "json_value x b" "spans p2 (w2 @ w2' @ b) p3"
    using "5.IH"(1) [OF refl quote ok(1) refl ok(2) ok(3)] spans_after_ws by blast
  obtain w' where w': "ws w'" "spans p3 (w' @ [c]) p4"
    using spans_after_ws [OF spans_bump [OF c]] by blast
  have w22: "ws (w2 @ w2')" using b by simp
  have upto: "spans p0 (w @ 34 # kb @ 34 # w1 @ 58 # (w2 @ w2') @ b @ w' @ [c]) p4"
    using spans_trans [OF kb(3) spans_trans [OF w1(2) spans_trans [OF b(4) w'(2)]]] by simp
  show ?case
  proof (cases "c = 44")
    case True
    with eq "5.IH"(2) [OF refl quote ok(1) refl ok(2) ok(3) refl c [symmetric] refl True] obtain ms bs
      where "v = JObject ((pairs @ [(k, x)]) @ ms)" "json_members ms bs"
        "spans (skip_ws p4) (bs @ [125]) q"
      by auto
    then obtain w3 where "v = JObject (pairs @ (k, x) # ms)" "json_members ms (w3 @ bs)"
        "spans p4 ((w3 @ bs) @ [125]) q"
      using members_ws spans_after_ws by fastforce
    then show ?thesis
      using jm_more [OF kb(1,2) w1(1) w22 b(3) w'(1)] spans_trans [OF upto] True
      by (intro exI [of _ "(k, x) # ms"]
          exI [of _ "w @ 34 # kb @ 34 # w1 @ 58 # (w2 @ w2') @ b @ w' @ 44 # w3 @ bs"]) fastforce
  next
    case False
    with eq have "c = 125" "v = JObject (pairs @ [(k, x)])" "p4 = q"
      by (auto split: if_splits)
    then show ?thesis
      using jm_last [OF kb(1,2) w1(1) w22 b(3) w'(1)] upto
      by (intro exI [of _ "[(k, x)]"] exI [of _ "w @ 34 # kb @ 34 # w1 @ 58 # (w2 @ w2') @ b @ w'"]) simp
  qed
qed

end
