(* ===== verification/JsonComplete.thy ===== *)
theory JsonComplete
  imports JsonGrammar
begin

text \<open>
  The converse of soundness: whatever the grammar derives, the parser accepts, with the tree the
  grammar assigns. With it, the parser accepts exactly the grammar.
\<close>

section \<open>Following a spelling\<close>

lemma spans_ConsD:
  "spans p (b # bs) q \<Longrightarrow>
     peek_byte p = Some b \<and> bump_byte p = (Some b, advance 1 p) \<and> spans (advance 1 p) bs q"
  by (auto simp: spans_def peek_byte_rest bump_byte_rest)

lemma spans_appendE:
  assumes "spans p (as @ bs) q"
  obtains m where "spans p as m" "spans m bs q"
  using assms by (auto simp: spans_def)

lemma spans_NilD: "spans p [] q \<Longrightarrow> q = p"
  by (simp add: spans_def)

lemma skip_ws_over: "ws w \<Longrightarrow> spans p w q \<Longrightarrow> skip_ws p = skip_ws q"
proof (induction w arbitrary: p)
  case Nil
  then show ?case by (auto dest: spans_NilD)
next
  case (Cons b w)
  then have "peek_byte p = Some b" "spans (advance 1 p) w q" "is_ws b" "ws w"
    by (auto dest: spans_ConsD)
  with Cons.IH show ?case
    by (simp add: skip_ws_def skip_while.simps [of _ p])
qed

lemma skip_ws_stop: "peek_byte p = Some b \<Longrightarrow> \<not> is_ws b \<Longrightarrow> skip_ws p = p"
  by (simp add: skip_ws_def skip_while.simps)

lemma skip_ws_idem [simp]: "skip_ws (skip_ws p) = skip_ws p"
  using skip_ws_over spans_skip_ws by metis

lemma parse_value_skip_ws [simp]: "parse_value (skip_ws p) = parse_value p"
  by (subst (1 2) parse_value.simps) simp

lemma array_loop_skip_ws [simp]: "array_loop (skip_ws p) items = array_loop p items"
  by (subst (1 2) array_loop.simps) simp

lemma object_loop_skip_ws [simp]: "object_loop (skip_ws p) items = object_loop p items"
  by (subst (1 2) object_loop.simps) simp

lemma boundary_at:
  "rest p = c # r \<Longrightarrow> \<not> is_cont c \<Longrightarrow> is_char_boundary (src p) (pos p)"
  by (auto simp: is_char_boundary_def rest_def)
     (metis drop_eq_Nil leI list.distinct(1), metis hd_drop_conv_nth drop_eq_Nil leI list.distinct(1) list.sel(1))

lemma boundary_end:
  assumes "spans p bs q" "bs \<noteq> []" "rest q = []"
  shows "is_char_boundary (src q) (pos q)"
proof -
  have "rest p = bs" using rest_spans [OF assms(1)] assms(3) by simp
  then have "length (src p) - pos p = length bs" by (metis length_drop rest_def)
  moreover have "0 < length bs" using assms(2) by simp
  ultimately have "pos p + length bs = length (src p)" by linarith
  then show ?thesis using assms(1) by (simp add: spans_def is_char_boundary_def)
qed

section \<open>Strings\<close>

lemma hex_value_less: "hex_value b = Some d \<Longrightarrow> unat d < 16"
  by (auto simp: hex_value_def word_le_nat_alt unat_sub unat_word_ariths split: if_splits)

text \<open>One round of \<open>parse_hex4\<close>: with \<open>k\<close> more digits to come, the \<open>u16\<close> cannot overflow.\<close>

lemma hex4_step:
  assumes "(unat (v :: u16) + 1) * 16 ^ Suc k \<le> 2 ^ 16" "hex_value b = Some d"
  shows "unat v * 16 + unat d < 2 ^ 16"
    and "(unat (v * 16 + ucast d) + 1) * 16 ^ k \<le> 2 ^ 16"
proof -
  have d: "unat d < 16" using assms(2) by (rule hex_value_less)
  have "(unat v * 16 + 16) * 16 ^ k \<le> 2 ^ 16"
    using assms(1) by (simp add: algebra_simps)
  moreover have "(unat v * 16 + unat d + 1) * 16 ^ k \<le> (unat v * 16 + 16) * 16 ^ k"
    using d by (intro mult_right_mono) auto
  ultimately have le: "(unat v * 16 + unat d + 1) * 16 ^ k \<le> 2 ^ 16"
    by (rule order_trans [rotated])
  have one: "(unat v * 16 + unat d + 1) * 1 \<le> (unat v * 16 + unat d + 1) * 16 ^ k"
    by (intro mult_left_mono) auto
  from order_trans [OF one le] have "unat v * 16 + unat d + 1 \<le> 2 ^ 16" by simp
  then show lt: "unat v * 16 + unat d < 2 ^ 16" by simp
  then have "unat (v * 16) = unat v * 16" by (simp add: unat_word_ariths)
  then have "unat (v * 16 + ucast d) = unat v * 16 + unat d"
    using lt by (simp add: unat_word_ariths)
  with le show "(unat (v * 16 + ucast d) + 1) * 16 ^ k \<le> 2 ^ 16" by simp
qed

lemma hex4_loop_complete:
  assumes "length h = k" "map hex_value h = map Some ds" "(unat v + 1) * 16 ^ k \<le> 2 ^ 16" "spans p h q"
  shows "\<exists>w. hex4_loop k v p = Ok (w, q)"
  using assms
proof (induction k arbitrary: h ds v p)
  case 0
  then show ?case by (auto dest: spans_NilD)
next
  case (Suc k)
  then obtain b h' d ds' where h: "h = b # h'" "ds = d # ds'" "hex_value b = Some d"
      "map hex_value h' = map Some ds'" "length h' = k"
    by (cases h; cases ds) auto
  then have b: "bump_byte p = (Some b, advance 1 p)" "spans (advance 1 p) h' q"
    using Suc.prems(4) spans_ConsD by blast+
  note step = hex4_step [OF Suc.prems(3) h(3)]
  have "\<exists>w. hex4_loop k (v * 16 + ucast d) (advance 1 p) = Ok (w, q)"
    using Suc.IH [OF h(5) h(4) step(2) b(2)] .
  with b(1) h(3) step(1) show ?case by simp
qed

lemma parse_hex4_complete:
  assumes "hex4 h n" "spans p h q"
  obtains w where "parse_hex4 p = Ok (w, q)" "unat w = n"
proof -
  from assms(1) obtain ds where ds: "length h = 4" "map hex_value h = map Some ds"
    unfolding hex4_iff by (elim exE conjE) (rule that [of "[_, _, _, _]"]; simp)
  then obtain w where w: "parse_hex4 p = Ok (w, q)"
    using hex4_loop_complete [OF ds _ assms(2), of 0] by (auto simp: parse_hex4_def)
  then obtain h' where "hex4 h' (unat w)" "spans p h' q" using spans_parse_hex4 by blast
  then have "length h' = length h" "h @ rest q = h' @ rest q"
    using assms(2) ds(1) by (auto simp: hex4_iff dest!: rest_spans)
  then have "h' = h" by simp
  then have "unat w = n"
    using assms(1) \<open>hex4 h' (unat w)\<close> by (auto simp: hex4_iff)
  with w show ?thesis by (rule that)
qed

lemma char_from_surrogates:
  assumes "0xD800 \<le> unat cp" "unat cp \<le> 0xDBFF" "0xDC00 \<le> unat low" "unat low \<le> 0xDFFF"
  shows "char_from_u32 (join_surrogates cp low) =
    Some (0x10000 + (unat cp - 0xD800) * 1024 + (unat low - 0xDC00))"
  using assms unat_join_surrogates [of cp low]
  by (simp add: char_from_u32_def is_scalar_def word_le_nat_alt)

lemma simple_escape_complete:
  assumes "(e, c) \<in> set simple_escapes" "rest p = e # r"
  shows "parse_escape p out = Ok (out @ [c], advance 1 p)"
proof -
  have b: "bump_byte p = (Some e, advance 1 p)" using assms(2) by (simp add: bump_byte_rest)
  from assms(1) show ?thesis
    unfolding parse_escape_def b simple_escapes_def by auto
qed

lemma string_loop_complete:
  "string_body s b \<Longrightarrow> spans p (b @ [34]) q \<Longrightarrow> string_loop p out = Ok (out @ s, q)"
proof (induction s b arbitrary: p out rule: string_body.induct)
  case sb_end
  then show ?case
    by (subst string_loop.simps) (auto dest!: spans_ConsD spans_NilD)
next
  case (sb_char c s bs)
  then obtain m where m: "spans p (encode_char c) m" "spans m (bs @ [34]) q"
    by (metis append_assoc spans_appendE)
  then have IH: "string_loop m (out @ [c]) = Ok (out @ c # s, q)"
    using sb_char.IH by simp
  show ?case
  proof (cases "c < 128")
    case True
    then obtain r where "rest p = byte c # r" "m = advance 1 p"
      using m(1) by (auto simp: encode_ascii spans_def)
    moreover have "byte c \<noteq> 34" "byte c \<noteq> 92" "\<not> byte c < 32" "byte c < 128"
      using True sb_char(2-4) by (auto simp: byte_eq_iff word_less_nat_alt unat_byte)
    ultimately show ?thesis
      using IH True by (simp add: string_loop_rest [of p] unat_byte)
  next
    case False
    obtain h t where h: "encode_char c = h # t" by (cases "encode_char c") auto
    obtain r where p: "rest p = h # t @ r" using m(1) h by (auto simp: spans_def)
    have nc: "\<not> is_cont h" using encode_char_hd_not_cont [OF sb_char(1)] h by simp
    have h128: "128 \<le> unat h"
    proof (rule ccontr)
      assume "\<not> 128 \<le> unat h"
      then have "decode_first (encode_char c @ []) = Ok (unat h, 1)" by (simp add: h Let_def)
      with decode_encode_char [OF sb_char(1), of "[]"] False \<open>\<not> 128 \<le> unat h\<close> show False by simp
    qed
    have "first_char (rest p) = Some c"
      using decode_encode_char [OF sb_char(1)] m(1) by (auto simp: first_char_def spans_def)
    moreover have "h \<noteq> 34" "h \<noteq> 92" "\<not> h < 32" "\<not> h < 128"
      using h128 by (auto simp: word_less_nat_alt)
    moreover have "m = advance (len_utf8 c) p" using m(1) by (simp add: spans_def length_encode_char)
    ultimately show ?thesis
      using IH boundary_at [OF p nc]
      by (simp add: string_loop_rest [of p] p str_from_def rest_def [symmetric])
  qed
next
  case (sb_escape e c s bs)
  then obtain r where m: "spans (advance (Suc (Suc 0)) p) (bs @ [34]) q" and p: "rest p = 92 # e # bs @ 34 # r"
    by (auto simp: spans_def)
  have IH: "string_loop (advance (Suc (Suc 0)) p) (out @ [c]) = Ok (out @ c # s, q)"
    using sb_escape.IH [OF m] by simp
  have "parse_escape (advance 1 p) out = Ok (out @ [c], advance (Suc (Suc 0)) p)"
    using simple_escape_complete [OF sb_escape(1), of "advance 1 p"] p by simp
  with IH show ?case by (simp add: string_loop_rest [of p] p)
next
  case (sb_unicode h n s bs)
  then obtain r where "spans (advance (Suc (Suc 0)) p) (h @ bs @ [34]) q"
    and p: "rest p = 92 # 117 # h @ bs @ 34 # r"
    by (auto simp: spans_def)
  then obtain m where m: "spans (advance (Suc (Suc 0)) p) h m" "spans m (bs @ [34]) q" by (metis spans_appendE)
  obtain w where w: "parse_hex4 (advance (Suc (Suc 0)) p) = Ok (w, m)" "unat w = n"
    using parse_hex4_complete [OF sb_unicode(1) m(1)] .
  have "unat w < 65536" using unsigned_less [of w, where ?'a = nat] by simp
  then have "parse_unicode_escape (advance (Suc (Suc 0)) p) = Ok (n, m)"
    using w sb_unicode(2)
    by (auto simp: parse_unicode_escape_def char_from_u32_def is_scalar_def word_le_nat_alt)
  then have "parse_escape (advance 1 p) out = Ok (out @ [n], m)"
    using p by (simp add: parse_escape_def bump_byte_rest)
  with sb_unicode.IH [OF m(2)] show ?case by (simp add: string_loop_rest [of p] p)
next
  case (sb_pair h n l m s bs)
  then obtain r where "spans (advance (Suc (Suc 0)) p) (h @ 92 # 117 # l @ bs @ [34]) q"
    and p: "rest p = 92 # 117 # h @ 92 # 117 # l @ bs @ 34 # r"
    by (auto simp: spans_def)
  then obtain m1 where m1: "spans (advance (Suc (Suc 0)) p) h m1" "spans m1 (92 # 117 # l @ bs @ [34]) q"
    by (metis spans_appendE)
  then obtain r1 where "spans (advance (Suc (Suc 0)) m1) (l @ bs @ [34]) q"
    and p1: "rest m1 = 92 # 117 # l @ bs @ 34 # r1"
    by (auto simp: spans_def)
  then obtain m2 where m2: "spans (advance (Suc (Suc 0)) m1) l m2" "spans m2 (bs @ [34]) q" by (metis spans_appendE)
  obtain w where w: "parse_hex4 (advance (Suc (Suc 0)) p) = Ok (w, m1)" "unat w = n"
    using parse_hex4_complete [OF sb_pair(1) m1(1)] .
  obtain w2 where w2: "parse_hex4 (advance (Suc (Suc 0)) m1) = Ok (w2, m2)" "unat w2 = m"
    using parse_hex4_complete [OF sb_pair(4) m2(1)] .
  have "parse_unicode_escape (advance (Suc (Suc 0)) p) = Ok (0x10000 + (n - 0xD800) * 1024 + (m - 0xDC00), m2)"
    using w w2 p1 sb_pair(2,3,5,6) char_from_surrogates [of w w2]
    by (simp add: parse_unicode_escape_def bump_byte_rest word_le_nat_alt)
  then have "parse_escape (advance 1 p) out = Ok (out @ [0x10000 + (n - 0xD800) * 1024 + (m - 0xDC00)], m2)"
    using p by (simp add: parse_escape_def bump_byte_rest)
  with sb_pair.IH [OF m2(2)] show ?case by (simp add: string_loop_rest [of p] p)
qed

lemma parse_string_complete:
  "string_body s b \<Longrightarrow> spans p (34 # b @ [34]) q \<Longrightarrow> parse_string p = Ok (s, q)"
  by (auto simp: parse_string_def expect_byte_rest string_loop_complete peek_byte_rest
      dest!: spans_ConsD split: list.splits)


section \<open>Numbers\<close>

text \<open>What may follow a value: the end of the input, white space, or one of \<open>, ] }\<close>.\<close>

definition delim :: "parser \<Rightarrow> bool" where
  "delim p \<longleftrightarrow> (case rest p of [] \<Rightarrow> True | b # _ \<Rightarrow> is_ws b \<or> b = 44 \<or> b = 93 \<or> b = 125)"

lemma skip_digits_complete:
  assumes "list_all is_digit_byte ds" "spans p ds q" "\<And>b r. rest q = b # r \<Longrightarrow> \<not> is_digit_byte b"
  shows "skip_digits p = q"
proof -
  have r: "rest p = ds @ rest q" by (rule rest_spans [OF assms(2)])
  have "takeWhile is_digit_byte (ds @ rest q) = ds"
    using assms(1,3) takeWhile_append_stop [of ds is_digit_byte "rest q"]
    by (cases "rest q") (auto simp: list_all_iff)
  then have "skip_while is_digit_byte p = advance (length ds) p"
    unfolding skip_while_advance r by simp
  with assms(2) show ?thesis by (simp add: skip_digits_def spans_def)
qed

lemma digit_byte_cases: "is_digit_byte b \<Longrightarrow> b \<noteq> 48 \<Longrightarrow> 49 \<le> b \<and> b \<le> 57"
  by (auto simp: is_digit_byte_def word_le_nat_alt byte_eq_iff)

lemma spans_peek_hd: "spans p ds q \<Longrightarrow> ds \<noteq> [] \<Longrightarrow> peek_byte p = Some (hd ds)"
  by (cases ds) (auto simp: spans_def peek_byte_rest)

lemma number_int_complete:
  assumes "json_int i" "spans p i q" "\<And>b r. rest q = b # r \<Longrightarrow> \<not> is_digit_byte b"
  shows "number_int p = Ok q"
proof -
  from assms(1) obtain ds where ds: "i = ds \<or> i = 45 # ds" "ds = [48] \<or> digits1 ds \<and> hd ds \<noteq> 48"
    unfolding json_int_def by blast
  then have hd: "is_digit_byte (hd ds)" "ds \<noteq> []"
    by (auto simp: digits1_iff is_digit_byte_def word_le_nat_alt list.set_sel list_all_iff)
  then have not45: "hd ds \<noteq> 45" by (auto simp: is_digit_byte_def word_le_nat_alt)
  define p1 where "p1 = (if peek_byte p = Some 45 then advance 1 p else p)"
  have p1: "spans p1 ds q"
    using ds(1) spans_peek_hd [OF assms(2)] hd not45 assms(2)
    by (auto simp: p1_def dest: spans_ConsD)
  have peek: "peek_byte p1 = Some (hd ds)" by (rule spans_peek_hd [OF p1 hd(2)])
  have eq: "number_int p = (if hd ds = 48 then Ok (advance 1 p1)
                  else if 49 \<le> hd ds \<and> hd ds \<le> 57 then Ok (skip_digits p1)
                  else Err (err (str ''invalid number: expected a digit'') p1))"
    using peek unfolding number_int_def Let_def p1_def [symmetric] by simp
  show ?thesis
  proof (cases "hd ds = 48")
    case True
    with ds(2) p1 show ?thesis by (auto simp: eq spans_def)
  next
    case False
    with ds(2) have "list_all is_digit_byte ds" by (auto simp: digits1_iff)
    then have "skip_digits p1 = q" using p1 assms(3) by (rule skip_digits_complete)
    with False hd digit_byte_cases show ?thesis by (simp add: eq)
  qed
qed

lemma spans_pos: "spans p bs q \<Longrightarrow> pos q = pos p + length bs"
  by (simp add: spans_def)

lemma number_frac_complete:
  assumes "json_frac f" "spans p f q" "\<And>b r. rest q = b # r \<Longrightarrow> \<not> is_digit_byte b \<and> b \<noteq> 46"
  shows "number_frac p = Ok q"
proof (cases "f = []")
  case True
  then have "q = p" using assms(2) by (auto dest: spans_NilD)
  then show ?thesis using assms(3) by (auto simp: number_frac_def peek_byte_rest split: list.splits)
next
  case False
  with assms(1) obtain ds where ds: "f = 46 # ds" "digits1 ds" by (auto simp: json_frac_def)
  with assms(2) have p: "peek_byte p = Some 46" "spans (advance 1 p) ds q" by (auto dest: spans_ConsD)
  have "skip_digits (advance 1 p) = q"
    using ds(2) p(2) assms(3) by (intro skip_digits_complete) (auto simp: digits1_iff)
  moreover have "pos q \<noteq> pos (advance 1 p)" using spans_pos [OF p(2)] ds(2) by (auto simp: digits1_iff)
  ultimately show ?thesis using p(1) by (simp add: number_frac_def Let_def)
qed

lemma number_exp_complete:
  assumes "json_exp e" "spans p e q"
    "\<And>b r. rest q = b # r \<Longrightarrow> \<not> is_digit_byte b \<and> b \<noteq> 101 \<and> b \<noteq> 69"
  shows "number_exp p = Ok q"
proof (cases "e = []")
  case True
  then have "q = p" using assms(2) by (auto dest: spans_NilD)
  then show ?thesis using assms(3) by (auto simp: number_exp_def peek_byte_rest split: list.splits)
next
  case False
  with assms(1) obtain c sgn ds where ds: "c = 101 \<or> c = 69" "sgn = [] \<or> sgn = [43] \<or> sgn = [45]"
      "digits1 ds" "e = c # sgn @ ds"
    unfolding json_exp_def by blast
  have hd: "ds \<noteq> []" "hd ds \<noteq> 43" "hd ds \<noteq> 45"
    using ds(3) by (cases ds; auto simp: digits1_iff is_digit_byte_def word_le_nat_alt)+
  from assms(2) ds(4) have p: "peek_byte p = Some c" "spans (advance 1 p) (sgn @ ds) q"
    by (auto dest: spans_ConsD)
  define p1 where "p1 = advance 1 p"
  define p2 where
    "p2 = (if peek_byte p1 = Some 43 \<or> peek_byte p1 = Some 45 then advance 1 p1 else p1)"
  have p2: "spans p2 ds q"
    using ds(2) p(2) spans_peek_hd [OF p(2)] hd
    by (auto simp: p2_def p1_def dest!: spans_ConsD)
  have "skip_digits p2 = q"
    using ds(3) p2 assms(3) by (intro skip_digits_complete) (auto simp: digits1_iff)
  moreover have "pos q \<noteq> pos p2" using spans_pos [OF p2] hd by auto
  ultimately show ?thesis
    using p(1) ds(1) unfolding number_exp_def Let_def p1_def [symmetric] p2_def [symmetric] by auto
qed

lemma is_digit_byte_not [simp]:
  "\<not> is_digit_byte 46" "\<not> is_digit_byte 101" "\<not> is_digit_byte 69"
  by (simp_all add: is_digit_byte_def word_le_nat_alt)

lemma delim_not:
  assumes "delim q" "rest q = b # r"
  shows "\<not> is_digit_byte b \<and> b \<noteq> 46 \<and> b \<noteq> 101 \<and> b \<noteq> 69 \<and> \<not> is_cont b"
  using assms by (auto simp: delim_def is_ws_def is_digit_byte_def word_le_nat_alt is_cont_def)

lemma json_number_hd:
  assumes "json_number b"
  obtains c r where "b = c # r" "c = 45 \<or> is_digit_byte c"
proof -
  from assms obtain i t where "json_int i" "b = i @ t" by (auto simp: json_number_def)
  then show ?thesis
    by (cases i) (auto simp: json_int_def digits1_iff is_digit_byte_def word_le_nat_alt intro: that)
qed

lemma ascii_bytes_inv:
  "\<forall>b\<in>set (utf8 s). unat b < 128 \<Longrightarrow> valid_string s \<and> (\<forall>c\<in>set s. c < 128)"
proof (induction s)
  case (Cons c s)
  have "c < 128"
  proof (rule ccontr)
    assume "\<not> c < 128"
    then have "byte (128 + c mod 64) \<in> set (encode_char c)" by (simp add: encode_char_def)
    then have "byte (128 + c mod 64) \<in> set (utf8 (c # s))" by simp
    with Cons.prems have "unat (byte (128 + c mod 64)) < 128" by blast
    then show False by simp
  qed
  with Cons show ?case by (auto simp: ascii_scalar)
qed simp

lemma digits_ascii: "list_all is_digit_byte ds \<Longrightarrow> b \<in> set ds \<Longrightarrow> unat b < 128"
  by (auto simp: list_all_iff is_digit_byte_def word_le_nat_alt)

lemma json_number_ascii: "json_number bs \<Longrightarrow> b \<in> set bs \<Longrightarrow> unat b < 128"
  by (auto simp: json_number_def json_int_def json_frac_def json_exp_def digits1_iff dest: digits_ascii)

lemma json_number_string: "json_number (utf8 s) \<Longrightarrow> valid_string s \<and> (\<forall>c\<in>set s. c < 128)"
  using json_number_ascii by (intro ascii_bytes_inv) blast

lemma parse_number_complete:
  assumes "json_number (utf8 s)" "spans p (utf8 s) q" "delim q"
  shows "parse_number p = Ok (NumberToken s, q)"
proof -
  from assms(1) obtain i f e where g: "json_int i" "json_frac f" "json_exp e" "utf8 s = i @ f @ e"
    unfolding json_number_def by blast
  with assms(2) obtain p1 p2 where sp: "spans p i p1" "spans p1 f p2" "spans p2 e q"
    by (metis spans_appendE)
  note d = delim_not [OF assms(3)]
  have d2: "\<not> is_digit_byte b \<and> b \<noteq> 46" if "rest p2 = b # r" for b r
    using g(3) that d rest_spans [OF sp(3)] by (auto simp: json_exp_def)
  have d1: "\<not> is_digit_byte b" if "rest p1 = b # r" for b r
    using g(2) that d2 rest_spans [OF sp(2)] by (auto simp: json_frac_def)
  have n: "number_int p = Ok p1" "number_frac p1 = Ok p2" "number_exp p2 = Ok q"
    using number_int_complete [OF g(1) sp(1)] number_frac_complete [OF g(2) sp(2)]
      number_exp_complete [OF g(3) sp(3)] d d1 d2 by blast+
  obtain c r where c: "utf8 s = c # r" "c = 45 \<or> is_digit_byte c" by (rule json_number_hd [OF assms(1)])
  obtain r' where p: "rest p = c # r'" using assms(2) c(1) by (auto simp: spans_def)
  have "\<not> is_cont c" using c(2) by (auto simp: is_cont_def is_digit_byte_def word_le_nat_alt)
  with p have start: "is_char_boundary (src p) (pos p)" by (rule boundary_at)
  have src: "src q = src p" using assms(2) by (simp add: spans_def)
  have stop: "is_char_boundary (src p) (pos q)"
  proof (cases "rest q")
    case Nil
    with boundary_end [OF assms(2)] c(1) src show ?thesis by simp
  next
    case (Cons b t)
    with boundary_at [OF Cons] d src show ?thesis by simp
  qed
  have "str_slice (src q) (pos p) (pos q) = (Ok (utf8 s) :: (_, json_error) result)"
    using assms(2) start stop
    by (auto simp: str_slice_def spans_def rest_def [symmetric])
  then show ?thesis
    using n json_number_string [OF assms(1)] by (simp add: parse_number_def)
qed


section \<open>Values\<close>

lemma json_value_hd:
  assumes "json_value v b"
  shows "\<exists>c r. b = c # r \<and> \<not> is_ws c \<and> c \<noteq> 93"
  using assms
proof (cases rule: json_value.cases)
  case (jv_number s)
  then obtain c r where "b = c # r" "c = 45 \<or> is_digit_byte c" by (auto elim: json_number_hd)
  then show ?thesis by (auto simp: is_ws_def is_digit_byte_def word_le_nat_alt)
qed (auto simp: is_ws_def encode_ascii)

lemma parse_literal_complete:
  assumes "spans p (utf8 (str lit)) q" "length (utf8 (str lit)) = length lit"
    "peek_byte p = Some c" "\<not> is_cont c"
  shows "parse_literal lit v p = Ok (v, q)"
proof -
  obtain r where r: "rest p = utf8 (str lit) @ r" "q = advance (length lit) p"
    using assms(1,2) by (auto simp: spans_def)
  have "is_char_boundary (src p) (pos p)"
    using assms(3,4) boundary_at by (auto simp: peek_byte_rest split: list.splits)
  then show ?thesis
    using r assms(2) by (simp add: parse_literal_def str_from_def rest_def [symmetric])
qed

lemma parse_value_at:
  assumes "peek_byte p = Some c" "\<not> is_ws c"
  shows "parse_value p =
    (if c = 123 then parse_object p
     else if c = 91 then parse_array p
     else if c = 34 then and_then (parse_string p) (\<lambda>(s, p1). Ok (JString s, p1))
     else if c = 116 then parse_literal ''true'' (JBool True) p
     else if c = 102 then parse_literal ''false'' (JBool False) p
     else if c = 110 then parse_literal ''null'' JNull p
     else if c = 45 \<or> 48 \<le> c \<and> c \<le> 57 then
       and_then (parse_number p) (\<lambda>(n, p1). Ok (JNumber n, p1))
     else Err (err (str ''unexpected character '' @ debug_char (unat c)) p))"
  unfolding parse_value.simps [of p] skip_ws_stop [OF assms] Let_def assms(1) option.case ..

lemma delim_before:
  assumes "ws w" "spans p (w @ [b]) q" "b = 44 \<or> b = 93 \<or> b = 125"
  shows "delim p" and "bump_byte (skip_ws p) = (Some b, q)"
proof -
  obtain m where m: "spans p w m" "spans m [b] q" using assms(2) by (rule spans_appendE)
  show "delim p"
    using assms by (cases w) (auto simp: delim_def spans_def)
  have b: "peek_byte m = Some b" "bump_byte m = (Some b, q)"
    using m(2) by (auto simp: spans_def bump_byte_rest peek_byte_rest)
  have "skip_ws p = m"
    using skip_ws_over [OF assms(1) m(1)] skip_ws_stop [OF b(1)] assms(3) by (auto simp: is_ws_def)
  with b show "bump_byte (skip_ws p) = (Some b, q)" by simp
qed

lemma parse_array_first:
  assumes "json_elements vs b" "spans p (b @ r) q"
  shows "peek_byte (skip_ws p) \<noteq> Some 93"
proof -
  obtain w v b' t where e: "ws w" "json_value v b'" "b = w @ b' @ t"
    using assms(1) by (auto elim: elements_cases)
  obtain c r' where c: "b' = c # r'" "\<not> is_ws c" "c \<noteq> 93" using json_value_hd [OF e(2)] by blast
  from assms(2) e c obtain m where m: "spans p w m" "spans m (c # r' @ t @ r) q"
    by (auto elim: spans_appendE)
  then have "peek_byte m = Some c" by (auto dest: spans_ConsD)
  then show ?thesis
    using skip_ws_over [OF e(1) m(1)] skip_ws_stop c by simp
qed

lemma parse_object_first:
  assumes "json_members ms b" "spans p (b @ r) q"
  shows "peek_byte (skip_ws p) \<noteq> Some 125"
proof -
  obtain w t where e: "ws w" "b = w @ 34 # t"
    using assms(1) by (auto elim: members_cases)
  from assms(2) e obtain m where m: "spans p w m" "spans m (34 # t @ r) q"
    by (auto elim: spans_appendE)
  then have "peek_byte m = Some 34" by (auto dest: spans_ConsD)
  then show ?thesis
    using skip_ws_over [OF e(1) m(1)] skip_ws_stop [of m 34] by (simp add: is_ws_def)
qed


lemma object_memberE:
  assumes "spans p (w @ 34 # kb @ 34 # w1 @ 58 # w2 @ b @ t) q"
  obtains p1 p2 p3 p4 p5 p6 where "spans p w p1" "spans p1 (34 # kb @ [34]) p2" "spans p2 w1 p3"
    "spans p3 [58] p4" "spans p4 w2 p5" "spans p5 b p6" "spans p6 t q"
proof -
  from assms obtain p1 where p1: "spans p w p1" "spans p1 ((34 # kb @ [34]) @ w1 @ [58] @ w2 @ b @ t) q"
    by (auto elim: spans_appendE)
  from p1(2) obtain p2 where p2: "spans p1 (34 # kb @ [34]) p2" "spans p2 (w1 @ [58] @ w2 @ b @ t) q"
    by (rule spans_appendE)
  from p2(2) obtain p3 where p3: "spans p2 w1 p3" "spans p3 ([58] @ w2 @ b @ t) q"
    by (rule spans_appendE)
  from p3(2) obtain p4 where p4: "spans p3 [58] p4" "spans p4 (w2 @ b @ t) q"
    by (rule spans_appendE)
  from p4(2) obtain p5 where p5: "spans p4 w2 p5" "spans p5 (b @ t) q"
    by (rule spans_appendE)
  from p5(2) obtain p6 where "spans p5 b p6" "spans p6 t q"
    by (rule spans_appendE)
  with p1(1) p2(1) p3(1) p4(1) p5(1) show ?thesis by (rule that)
qed

lemma object_member:
  assumes "ws w" "string_body k kb" "ws w1" "ws w2"
    and "spans p w p1" "spans p1 (34 # kb @ [34]) p2" "spans p2 w1 p3" "spans p3 [58] p4" "spans p4 w2 p5"
  shows "peek_byte (skip_ws p) = Some 34" "parse_string (skip_ws p) = Ok (k, p2)"
    "expect_byte 58 (skip_ws p2) = Ok p4" "parse_value p4 = parse_value p5"
proof -
  have p1: "peek_byte p1 = Some 34" using assms(6) by (auto dest: spans_ConsD)
  then have s: "skip_ws p = p1"
    using skip_ws_over [OF assms(1,5)] skip_ws_stop [OF p1] by (simp add: is_ws_def)
  show "peek_byte (skip_ws p) = Some 34" using s p1 by simp
  show "parse_string (skip_ws p) = Ok (k, p2)"
    unfolding s by (rule parse_string_complete [OF assms(2,6)])
  have p3: "peek_byte p3 = Some 58" using assms(8) by (auto dest: spans_ConsD)
  have "skip_ws p2 = p3"
    using skip_ws_over [OF assms(3,7)] skip_ws_stop [OF p3] by (simp add: is_ws_def)
  then show "expect_byte 58 (skip_ws p2) = Ok p4"
    using assms(8) by (simp add: spans_expect_byte)
  show "parse_value p4 = parse_value p5"
    using skip_ws_over [OF assms(4,9)] parse_value_skip_ws by metis
qed

theorem parse_complete:
  "json_value v b \<Longrightarrow> spans p b q \<Longrightarrow> delim q \<Longrightarrow> parse_value p = Ok (v, q)"
  "json_elements vs b \<Longrightarrow> spans p (b @ [93]) q \<Longrightarrow> array_loop p items = Ok (JArray (items @ vs), q)"
  "json_members ms b \<Longrightarrow> spans p (b @ [125]) q \<Longrightarrow> object_loop p pairs = Ok (JObject (pairs @ ms), q)"
proof (induction arbitrary: p q and p q items and p q pairs
    rule: json_value_json_elements_json_members.inducts)
  case jv_null
  then have "peek_byte p = Some 110" by (auto simp: encode_ascii dest: spans_ConsD)
  with jv_null show ?case
    by (simp add: parse_value_at is_ws_def parse_literal_complete is_cont_def encode_ascii)
next
  case jv_true
  then have "peek_byte p = Some 116" by (auto simp: encode_ascii dest: spans_ConsD)
  with jv_true show ?case
    by (simp add: parse_value_at is_ws_def parse_literal_complete is_cont_def encode_ascii)
next
  case jv_false
  then have "peek_byte p = Some 102" by (auto simp: encode_ascii dest: spans_ConsD)
  with jv_false show ?case
    by (simp add: parse_value_at is_ws_def parse_literal_complete is_cont_def encode_ascii)
next
  case (jv_number s)
  obtain c r where c: "utf8 s = c # r" "c = 45 \<or> is_digit_byte c"
    by (rule json_number_hd [OF jv_number(1)])
  with jv_number(2) have "peek_byte p = Some c" by (auto dest: spans_ConsD)
  moreover have "\<not> is_ws c" "c \<notin> {123, 91, 34, 116, 102, 110}" "c = 45 \<or> 48 \<le> c \<and> c \<le> 57"
    using c(2) by (auto simp: is_ws_def is_digit_byte_def word_le_nat_alt)
  ultimately show ?case
    using parse_number_complete [OF jv_number] by (simp add: parse_value_at)
next
  case (jv_string s b)
  then have "peek_byte p = Some 34" by (auto dest: spans_ConsD)
  then show ?case
    using parse_string_complete [OF jv_string(1,2)] by (simp add: parse_value_at is_ws_def)
next
  case (jv_empty_array w)
  then have p: "peek_byte p = Some 91" "expect_byte 91 p = Ok (advance 1 p)" "spans (advance 1 p) (w @ [93]) q"
    by (auto simp: expect_byte_def dest: spans_ConsD)
  have "bump_byte (skip_ws (advance 1 p)) = (Some 93, q)"
    using delim_before(2) [OF jv_empty_array(1) p(3)] by simp
  then have "peek_byte (skip_ws (advance 1 p)) = Some 93" "q = advance 1 (skip_ws (advance 1 p))"
    by (auto simp: bump_byte_def split: option.splits)
  with p show ?case by (simp add: parse_value_at is_ws_def parse_array.simps Let_def)
next
  case (jv_array vs b)
  then have p: "peek_byte p = Some 91" "expect_byte 91 p = Ok (advance 1 p)" "spans (advance 1 p) (b @ [93]) q"
    by (auto simp: expect_byte_def dest: spans_ConsD)
  with parse_array_first [OF jv_array(1) p(3)] jv_array.IH [OF p(3)] show ?case
    by (simp add: parse_value_at is_ws_def parse_array.simps Let_def)
next
  case (jv_empty_object w)
  then have p: "peek_byte p = Some 123" "expect_byte 123 p = Ok (advance 1 p)" "spans (advance 1 p) (w @ [125]) q"
    by (auto simp: expect_byte_def dest: spans_ConsD)
  have "bump_byte (skip_ws (advance 1 p)) = (Some 125, q)"
    using delim_before(2) [OF jv_empty_object(1) p(3)] by simp
  then have "peek_byte (skip_ws (advance 1 p)) = Some 125" "q = advance 1 (skip_ws (advance 1 p))"
    by (auto simp: bump_byte_def split: option.splits)
  with p show ?case by (simp add: parse_value_at is_ws_def parse_object.simps Let_def)
next
  case (jv_object ms b)
  then have p: "peek_byte p = Some 123" "expect_byte 123 p = Ok (advance 1 p)" "spans (advance 1 p) (b @ [125]) q"
    by (auto simp: expect_byte_def dest: spans_ConsD)
  with parse_object_first [OF jv_object(1) p(3)] jv_object.IH [OF p(3)] show ?case
    by (simp add: parse_value_at is_ws_def parse_object.simps Let_def)
next
  case (je_last w v b w')
  then obtain p1 p2 where sp: "spans p w p1" "spans p1 b p2" "spans p2 (w' @ [93]) q"
    by (metis append_assoc spans_appendE)
  note d = delim_before [OF je_last(3) sp(3)]
  have "parse_value p = Ok (v, p2)"
    using je_last.IH [OF sp(2)] d(1) skip_ws_over [OF je_last(1) sp(1)]
    by (metis parse_value_skip_ws)
  with d(2) show ?case by (subst array_loop.simps) simp
next
  case (je_more w v b w' vs bs)
  then have "spans p (w @ b @ (w' @ [44]) @ bs @ [93]) q" by simp
  then obtain p1 p2 p3 where sp: "spans p w p1" "spans p1 b p2" "spans p2 (w' @ [44]) p3"
      "spans p3 (bs @ [93]) q"
    by (metis spans_appendE)
  note d = delim_before [OF je_more(3) sp(3)]
  have "parse_value p = Ok (v, p2)"
    using je_more.IH(1) [OF sp(2)] d(1) skip_ws_over [OF je_more(1) sp(1)]
    by (metis parse_value_skip_ws)
  with d(2) je_more.IH(2) [OF sp(4)] show ?case by (subst array_loop.simps) simp
next
  case (jm_last w k kb w1 w2 v b w')
  then have "spans p (w @ 34 # kb @ 34 # w1 @ 58 # w2 @ b @ w' @ [125]) q" by simp
  then obtain p1 p2 p3 p4 p5 p6 where sp: "spans p w p1" "spans p1 (34 # kb @ [34]) p2" "spans p2 w1 p3"
      "spans p3 [58] p4" "spans p4 w2 p5" "spans p5 b p6" "spans p6 (w' @ [125]) q"
    by (rule object_memberE)
  note k = object_member [OF jm_last(1-4) sp(1-5)]
  note d = delim_before [OF jm_last(6) sp(7)]
  show ?case
    using k d(2) jm_last.IH [OF sp(6)] d(1) by (subst object_loop.simps) (simp add: Let_def)
next
  case (jm_more w k kb w1 w2 v b w' ms bs)
  then have "spans p (w @ 34 # kb @ 34 # w1 @ 58 # w2 @ b @ (w' @ [44]) @ bs @ [125]) q" by simp
  then obtain p1 p2 p3 p4 p5 p6 where sp: "spans p w p1" "spans p1 (34 # kb @ [34]) p2" "spans p2 w1 p3"
      "spans p3 [58] p4" "spans p4 w2 p5" "spans p5 b p6" "spans p6 ((w' @ [44]) @ bs @ [125]) q"
    by (rule object_memberE)
  from sp(7) obtain p7 where sp7: "spans p6 (w' @ [44]) p7" "spans p7 (bs @ [125]) q"
    by (rule spans_appendE)
  note k = object_member [OF jm_more(1-4) sp(1-5)]
  note d = delim_before [OF jm_more(6) sp7(1)]
  show ?case
    using k d(2) jm_more.IH(1) [OF sp(6)] d(1) jm_more.IH(2) [OF sp7(2)]
    by (subst object_loop.simps) (simp add: Let_def)
qed


section \<open>Documents\<close>

text \<open>Everything the grammar derives is UTF-8.\<close>

definition utf8_bytes :: "bytes \<Rightarrow> bool" where
  "utf8_bytes bs \<longleftrightarrow> (\<exists>s. valid_string s \<and> bs = utf8 s)"

lemma utf8_bytes_utf8 [simp, intro]: "valid_string s \<Longrightarrow> utf8_bytes (utf8 s)"
  by (auto simp: utf8_bytes_def)

lemma utf8_bytes_append [intro]: "utf8_bytes as \<Longrightarrow> utf8_bytes bs \<Longrightarrow> utf8_bytes (as @ bs)"
  unfolding utf8_bytes_def by (metis utf8_append valid_string_simps(3))

lemma utf8_bytes_ascii: "(\<And>b. b \<in> set bs \<Longrightarrow> unat b < 128) \<Longrightarrow> utf8_bytes bs"
proof -
  assume a: "\<And>b. b \<in> set bs \<Longrightarrow> unat b < 128"
  then have "\<forall>c\<in>set (map unat bs). c < 128" by auto
  then have "valid_string (map unat bs)" "utf8 (map unat bs) = bs"
    by (simp_all add: valid_string_ascii utf8_ascii comp_def)
  then show ?thesis unfolding utf8_bytes_def by metis
qed

lemma utf8_bytes_Cons [intro]: "unat b < 128 \<Longrightarrow> utf8_bytes bs \<Longrightarrow> utf8_bytes (b # bs)"
  using utf8_bytes_append [OF utf8_bytes_ascii [of "[b]"]] by auto

lemma utf8_bytes_Nil [simp]: "utf8_bytes []"
  using utf8_bytes_ascii [of "[]"] by simp

lemma utf8_bytes_ws [intro]: "ws w \<Longrightarrow> utf8_bytes w"
  by (rule utf8_bytes_ascii) (auto simp: ws_iff list_all_iff is_ws_def)

lemma utf8_bytes_number: "json_number bs \<Longrightarrow> utf8_bytes bs"
  using json_number_ascii by (intro utf8_bytes_ascii) blast

lemma utf8_bytes_char: "is_scalar c \<Longrightarrow> utf8_bytes (encode_char c)"
  using utf8_bytes_utf8 [of "[c]"] by simp

lemma hex_value_ascii: "hex_value b = Some d \<Longrightarrow> unat b < 128"
  by (auto simp: hex_value_def word_le_nat_alt split: if_splits)

lemma utf8_bytes_hex4: "hex4 h n \<Longrightarrow> utf8_bytes h"
  by (rule utf8_bytes_ascii) (auto simp: hex4_iff dest: hex_value_ascii)

lemma utf8_bytes_string: "string_body s b \<Longrightarrow> utf8_bytes b"
  by (induction rule: string_body.induct)
     (auto simp: simple_escapes_def intro!: utf8_bytes_append utf8_bytes_Cons
       dest: utf8_bytes_char utf8_bytes_hex4)

lemma utf8_bytes_value:
  "json_value v b \<Longrightarrow> utf8_bytes b"
  "json_elements vs b \<Longrightarrow> utf8_bytes b"
  "json_members ms b \<Longrightarrow> utf8_bytes b"
  by (induction rule: json_value_json_elements_json_members.inducts)
     (auto simp: encode_ascii intro!: utf8_bytes_append utf8_bytes_Cons
       dest: utf8_bytes_number utf8_bytes_string)

lemma new_parser_rest [simp]: "rest (new_parser s) = s" "src (new_parser s) = s" "pos (new_parser s) = 0"
  by (simp_all add: new_parser_def rest_def)

theorem parse_iff: "parse bs = Ok v \<longleftrightarrow> json_text v bs"
proof
  assume "parse bs = Ok v"
  then obtain s p1 where s: "valid_string s" "bs = utf8 s"
      and v: "parse_value (skip_ws (new_parser bs)) = Ok (v, p1)"
      and e: "pos (skip_ws p1) = length (src (skip_ws p1))"
    by (auto simp: parse_def from_utf8_iff Let_def split: if_splits)
  obtain w b where w: "ws w" "json_value v b" "spans (new_parser bs) (w @ b) p1"
    using parse_sound(1) v by fastforce
  obtain w' where w': "ws w'" "spans p1 w' (skip_ws p1)" using spans_skip_ws by blast
  have "rest (skip_ws p1) = []" using e by (simp add: rest_def)
  then have "bs = w @ b @ w'"
    using rest_spans [OF w(3)] rest_spans [OF w'(2)] by simp
  with w w' show "json_text v bs" unfolding json_text_def by blast
next
  assume "json_text v bs"
  then obtain w b w' where g: "ws w" "json_value v b" "ws w'" "bs = w @ b @ w'"
    unfolding json_text_def by blast
  then have "utf8_bytes bs" using utf8_bytes_value(1) by blast
  then obtain s where s: "valid_string s" "bs = utf8 s" unfolding utf8_bytes_def by blast
  define p where "p = new_parser bs"
  obtain q where "spans p (w @ b @ w') q"
    using g(4) spansI [of p bs "[]"] by (auto simp: p_def)
  then obtain p1 p2 where sp: "spans p w p1" "spans p1 b p2" "spans p2 w' q"
    by (metis spans_appendE)
  have q: "pos q = length (src q)" "rest q = []"
    using sp g(4) by (auto simp: spans_def p_def rest_def)
  have "rest p2 = w'" using rest_spans [OF sp(3)] q(2) by simp
  then have "delim p2" using g(3) by (auto simp: delim_def split: list.splits)
  then have v: "parse_value p = Ok (v, p2)"
    using parse_complete(1) [OF g(2) sp(2)] skip_ws_over [OF g(1) sp(1)]
    by (metis parse_value_skip_ws)
  have "skip_ws p2 = skip_ws q" by (rule skip_ws_over [OF g(3) sp(3)])
  also have "\<dots> = q" using q(2) by (simp add: skip_ws_def skip_while.simps peek_byte_rest)
  finally show "parse bs = Ok v"
    using s v q by (simp add: parse_def utf8c.dec_enc p_def)
qed

end
