(* ===== verification/JsonSafe.thy ===== *)
theory JsonSafe
  imports JsonComplete
begin

text \<open>
  No input makes the parser panic: between two steps the position is a character boundary of a valid
  string, so no slice is out of place; the \<open>u16\<close> arithmetic of \<open>parse_hex4\<close> never overflows;
  and \<open>chars().next()\<close> finds a character.
\<close>

section \<open>The invariant\<close>

definition okp :: "parser \<Rightarrow> bool" where
  "okp p \<longleftrightarrow> (\<exists>s t. valid_string s \<and> valid_string t \<and> src p = utf8 s @ utf8 t \<and> pos p = length (utf8 s))"

definition safe :: "'a parse \<Rightarrow> bool" where
  "safe r \<longleftrightarrow> r \<noteq> Panic \<and> (\<forall>x q. r = Ok (x, q) \<longrightarrow> okp q)"

lemma safe_simps [simp]: "safe (Ok (x, q)) \<longleftrightarrow> okp q" "safe (Err e)" "\<not> safe Panic"
  by (auto simp: safe_def)

lemma safe_and_then:
  "safe r \<Longrightarrow> (\<And>x q. r = Ok (x, q) \<Longrightarrow> okp q \<Longrightarrow> safe (f (x, q))) \<Longrightarrow> safe (and_then r f)"
  by (cases r) auto

lemma okp_new: "valid_string s \<Longrightarrow> okp (new_parser (utf8 s))"
  unfolding okp_def by (intro exI [of _ "[]"] exI [of _ s]) (simp add: new_parser_def)

lemma okp_boundary: "okp p \<Longrightarrow> is_char_boundary (src p) (pos p)"
  by (auto simp: okp_def boundary_utf8)

lemma okp_rest: "okp p \<Longrightarrow> \<exists>t. valid_string t \<and> rest p = utf8 t"
  by (auto simp: okp_def rest_def)

lemma okp_first:
  assumes "okp p" "rest p \<noteq> []"
  shows "\<exists>c. first_char (rest p) = Some c \<and> okp (advance (len_utf8 c) p)"
proof -
  from assms(1) obtain s t where st: "valid_string s" "valid_string t" "src p = utf8 s @ utf8 t"
      "pos p = length (utf8 s)"
    unfolding okp_def by blast
  then obtain c t' where t: "t = c # t'" using assms(2) by (cases t) (auto simp: rest_def)
  have "first_char (rest p) = Some c"
    using st t first_char_utf8 by (simp add: rest_def)
  moreover have "okp (advance (len_utf8 c) p)"
    unfolding okp_def using st t
    by (intro exI [of _ "s @ [c]"] exI [of _ t']) (simp add: length_encode_char)
  ultimately show ?thesis by blast
qed

lemma okp_ascii:
  assumes "okp p" "rest p = b # r" "unat b < 128"
  shows "okp (advance (Suc 0) p)"
proof -
  from okp_first [OF assms(1)] assms(2) obtain c
    where c: "first_char (rest p) = Some c" "okp (advance (len_utf8 c) p)" by auto
  then have "c = unat b" using assms(2,3) by (simp add: first_char_def Let_def)
  with c(2) assms(3) show ?thesis by (simp add: len_utf8_def)
qed

lemma okp_skip_while:
  "okp p \<Longrightarrow> (\<And>b. f b \<Longrightarrow> unat b < 128) \<Longrightarrow> okp (skip_while f p)"
proof (induction f p rule: skip_while.induct)
  case (1 f p)
  show ?case
  proof (cases "rest p")
    case Nil
    with 1 show ?thesis by (subst skip_while.simps) (simp add: peek_byte_rest)
  next
    case (Cons b r)
    with 1 okp_ascii show ?thesis by (subst skip_while.simps) (simp add: peek_byte_rest)
  qed
qed

lemma okp_skip_ws [intro]: "okp p \<Longrightarrow> okp (skip_ws p)"
  unfolding skip_ws_def by (rule okp_skip_while) (auto simp: is_ws_def)

lemma okp_skip_digits [intro]: "okp p \<Longrightarrow> okp (skip_digits p)"
  unfolding skip_digits_def by (rule okp_skip_while) (auto simp: is_digit_byte_def word_le_nat_alt)

lemma okp_peek: "okp p \<Longrightarrow> peek_byte p = Some b \<Longrightarrow> unat b < 128 \<Longrightarrow> okp (advance (Suc 0) p)"
  using okp_ascii by (auto simp: peek_byte_rest split: list.splits)

lemma okp_bump: "okp p \<Longrightarrow> bump_byte p = (Some b, q) \<Longrightarrow> unat b < 128 \<Longrightarrow> okp q"
  using okp_ascii by (auto simp: bump_byte_rest split: list.splits)

lemma okp_expect: "okp p \<Longrightarrow> expect_byte b p = Ok q \<Longrightarrow> unat b < 128 \<Longrightarrow> okp q"
  using okp_ascii by (auto simp: expect_byte_rest)

section \<open>Every parsing function keeps it\<close>

lemma spans_okp:
  assumes "okp p" "spans p b q" "utf8_bytes b"
  shows "okp q"
proof -
  from assms(1) obtain s t where st: "valid_string s" "valid_string t" "src p = utf8 s @ utf8 t"
      "pos p = length (utf8 s)"
    unfolding okp_def by blast
  from assms(3) obtain u where u: "valid_string u" "b = utf8 u" unfolding utf8_bytes_def by blast
  have "rest p = utf8 t" using st by (simp add: rest_def)
  then obtain r where r: "utf8 t = utf8 u @ r" using assms(2) u(2) by (auto simp: spans_def)
  have "\<exists>v. valid_string v \<and> r = utf8 v"
    using st(2) u(1) r
  proof (induction u arbitrary: t)
    case Nil
    then show ?case by auto
  next
    case (Cons c u)
    then obtain d t' where t: "t = d # t'" by (cases t) auto
    have "decode_first (utf8 t) = Ok (c, len_utf8 c)"
      using Cons.prems decode_encode_char [of c "utf8 u @ r"] by simp
    moreover have "decode_first (utf8 t) = Ok (d, len_utf8 d)"
      using Cons.prems(1) t decode_encode_char [of d "utf8 t'"] by simp
    ultimately have "d = c" by simp
    with Cons.IH [of t'] Cons.prems t show ?case by auto
  qed
  then obtain v where v: "valid_string v" "r = utf8 v" by blast
  show ?thesis
    unfolding okp_def using assms(2) st u v r
    by (intro exI [of _ "s @ u"] exI [of _ v]) (simp add: spans_def)
qed

lemma utf8_bytes_tail: "utf8_bytes (b # bs) \<Longrightarrow> unat b < 128 \<Longrightarrow> utf8_bytes bs"
proof -
  assume "utf8_bytes (b # bs)" and b: "unat b < 128"
  then obtain c t where t: "is_scalar c" "valid_string t" "b # bs = encode_char c @ utf8 t"
    by (auto simp: utf8_bytes_def) (metis list.distinct(1) utf8_Cons utf8_Nil valid_string_simps(2) neq_Nil_conv)
  then have "Ok (c, len_utf8 c) = decode_first (b # bs)" using decode_encode_char by simp
  then have "c < 128" using b by (simp add: Let_def)
  then show ?thesis using t by (simp add: encode_ascii)
qed

lemma safeI: "r \<noteq> Panic \<Longrightarrow> (\<And>x q. r = Ok (x, q) \<Longrightarrow> okp q) \<Longrightarrow> safe r"
  by (auto simp: safe_def)

lemma safe_number: "okp p \<Longrightarrow> safe (parse_number p)"
proof (rule safeI)
  assume p: "okp p"
  show "okp q" if "parse_number p = Ok (x, q)" for x q
    using spans_parse_number [OF that] spans_okp [OF p] utf8_bytes_number by blast
  show "parse_number p \<noteq> Panic"
  proof
    assume pan: "parse_number p = Panic"
    have no: "number_int p \<noteq> Panic" "\<And>q. number_frac q \<noteq> Panic" "\<And>q. number_exp q \<noteq> Panic"
      by (auto simp: number_int_def number_frac_def number_exp_def Let_def split: option.splits)
    from pan obtain p1 p2 p3 where ok: "number_int p = Ok p1" "number_frac p1 = Ok p2" "number_exp p2 = Ok p3"
      and bad: "str_slice (src p3) (pos p) (pos p3) = (Panic :: (_, json_error) result) \<or>
        (\<exists>sl. str_slice (src p3) (pos p) (pos p3) = (Ok sl :: (_, json_error) result) \<and>
          slice_to_string sl = (Panic :: (_, json_error) result))"
      by (auto simp: parse_number_def and_then_eq_Panic no)
    obtain i f e where g: "json_int i" "spans p i p1" "json_frac f" "spans p1 f p2" "json_exp e" "spans p2 e p3"
      using ok spans_number_int spans_number_frac spans_number_exp by blast
    then have n: "json_number (i @ f @ e)" "spans p (i @ f @ e) p3"
      unfolding json_number_def by (blast, blast intro: spans_trans)
    note u = utf8_bytes_number [OF n(1)]
    then obtain s where s: "valid_string s" "i @ f @ e = utf8 s" unfolding utf8_bytes_def by blast
    have "okp p3" by (rule spans_okp [OF p n(2) u])
    then have "is_char_boundary (src p3) (pos p3)" by (rule okp_boundary)
    moreover obtain r where "rest p = (i @ f @ e) @ r" "p3 = advance (length (i @ f @ e)) p"
      using n(2) unfolding spans_def by blast
    ultimately have "str_slice (src p3) (pos p) (pos p3) = (Ok (i @ f @ e) :: (_, json_error) result)"
      using okp_boundary [OF p] by (simp add: str_slice_def rest_def)
    moreover have "slice_to_string (i @ f @ e) = (Ok s :: (_, json_error) result)"
      unfolding s(2) using s(1) by simp
    ultimately show False using bad by simp
  qed
qed

lemma hex4_loop_not_Panic: "(unat v + 1) * 16 ^ k \<le> 2 ^ 16 \<Longrightarrow> hex4_loop k v p \<noteq> Panic"
proof (induction k arbitrary: v p)
  case (Suc k)
  show ?case
  proof (cases "rest p")
    case (Cons b r)
    show ?thesis
    proof (cases "hex_value b")
      case (Some d)
      note step = hex4_step [OF Suc.prems Some]
      show ?thesis using Suc.IH [of "v * 16 + ucast d"] step Cons Some by (simp add: bump_byte_rest)
    qed (simp add: Cons bump_byte_rest)
  qed (simp add: bump_byte_rest)
qed simp


lemma safe_unicode: "okp p \<Longrightarrow> safe (parse_unicode_escape p)"
proof (rule safeI)
  have no: "parse_hex4 q \<noteq> Panic" for q
    by (simp add: parse_hex4_def hex4_loop_not_Panic)
  assume p: "okp p"
  show "parse_unicode_escape p \<noteq> Panic"
    unfolding parse_unicode_escape_def
    by (auto simp: no and_then_eq_Panic bump_byte_rest split: list.splits if_splits)
  show "okp q" if ok: "parse_unicode_escape p = Ok (c, q)" for c q
  proof -
    obtain b where "spans p b q" "string_body [c] (92 # 117 # b)"
      using spans_parse_unicode_escape [OF ok] sb_end by fastforce
    moreover from this have "utf8_bytes b" 
      using utf8_bytes_tail [OF utf8_bytes_tail [OF utf8_bytes_string]] by simp
    ultimately show ?thesis using spans_okp [OF p] by blast
  qed
qed


lemma safe_escape:
  assumes "okp p"
  shows "safe (parse_escape p out)"
proof (cases "rest p")
  case (Cons b r)
  show ?thesis
  proof (cases "b = 117")
    case True
    then have "okp (advance (Suc 0) p)" using okp_ascii [OF assms Cons] by simp
    with True Cons show ?thesis
      by (auto simp: parse_escape_def bump_byte_rest intro!: safe_and_then safe_unicode)
  next
    case False
    have "okp (advance (Suc 0) p)" if "unat b < 128" using okp_ascii [OF assms Cons that] .
    with False Cons show ?thesis by (auto simp: parse_escape_def bump_byte_rest)
  qed
qed (simp add: parse_escape_def bump_byte_rest)

lemma safe_string_loop: "okp p \<Longrightarrow> safe (string_loop p out)"
proof (induction p out rule: string_loop.induct)
  case (1 p out)
  show ?case
  proof (cases "rest p")
    case Nil
    then show ?thesis by (simp add: string_loop_rest)
  next
    case (Cons b r)
    then have bump: "bump_byte p = (Some b, advance 1 p)" by (simp add: bump_byte_rest)
    note IH = "1.IH" [OF bump [symmetric] refl]
    have adv: "okp (advance (Suc 0) p)" if "unat b < 128" using okp_ascii [OF "1.prems" Cons that] .
    consider "b = 34" | (esc) "b = 92" | (ctl) "b < 32" "b \<noteq> 34" "b \<noteq> 92"
      | (ascii) "\<not> b < 32" "b < 128" "b \<noteq> 34" "b \<noteq> 92" | (multi) "\<not> b < 128" "\<not> b < 32" "b \<noteq> 34" "b \<noteq> 92"
      by blast
    then show ?thesis
    proof cases
      case 1
      then show ?thesis using adv by (simp add: string_loop_rest Cons)
    next
      case esc
      then show ?thesis
        using adv safe_escape IH(1) by (auto simp: string_loop_rest [of p] Cons intro!: safe_and_then)
    next
      case ctl
      then show ?thesis by (simp add: string_loop_rest [of p] Cons)
    next
      case ascii
      then show ?thesis
        using adv IH(2) by (simp add: string_loop_rest [of p] Cons word_less_nat_alt)
    next
      case multi
      obtain c where c: "first_char (rest p) = Some c" "okp (advance (len_utf8 c) p)"
        using okp_first [OF "1.prems"] Cons by auto
      have sl: "str_from (src p) (pos p) = (Ok (rest p) :: (_, json_error) result)"
        using okp_boundary [OF "1.prems"] by (simp add: str_from_def rest_def)
      have undo: "(advance 1 p)\<lparr>pos := pos (advance 1 p) - 1\<rparr> = p" by (simp add: back_up)
      have "safe (string_loop (advance (len_utf8 c) p) (out @ [c]))"
        using IH(3) [OF multi(3,4,2,1) refl, unfolded undo, OF sl c(1)] c(2) by simp
      then show ?thesis
        using multi sl c(1) by (simp add: string_loop_rest [of p] Cons)
    qed
  qed
qed

lemma safe_string: "okp p \<Longrightarrow> safe (parse_string p)"
  using okp_expect safe_string_loop
  by (cases "expect_byte 34 p") (auto simp: parse_string_def)

lemma safe_literal: "okp p \<Longrightarrow> \<forall>c\<in>set (str lit). c < 128 \<Longrightarrow> safe (parse_literal lit v p)"
proof -
  assume p: "okp p" and a: "\<forall>c\<in>set (str lit). c < 128"
  then have l: "length (utf8 (str lit)) = length lit" by (simp add: utf8_ascii str_def)
  have "parse_literal lit v p \<noteq> Panic"
    using okp_boundary [OF p] by (simp add: parse_literal_def str_from_def)
  moreover have "okp q" if "parse_literal lit v p = Ok (w, q)" for w q
    using spans_parse_literal [OF that l] spans_okp [OF p] valid_string_ascii [OF a] by blast
  ultimately show ?thesis by (intro safeI)
qed

theorem parse_safe:
  "okp p \<Longrightarrow> safe (parse_value p)"
  "okp p \<Longrightarrow> safe (parse_array p)"
  "okp p \<Longrightarrow> safe (array_loop p items)"
  "okp p \<Longrightarrow> safe (parse_object p)"
  "okp p \<Longrightarrow> safe (object_loop p pairs)"
proof (induction p and p and p items and p and p pairs
    rule: parse_value_parse_array_array_loop_parse_object_object_loop.induct)
  case (1 p0)
  have p: "okp (skip_ws p0)" using 1(3) by (rule okp_skip_ws)
  show ?case
  proof (cases "peek_byte (skip_ws p0)")
    case (Some c)
    then show ?thesis
      using "1.IH" [OF refl Some] p safe_string [OF p] safe_number [OF p]
      by (simp add: parse_value.simps [of p0] Let_def)
         (auto intro!: safe_and_then safe_literal)
  qed (simp add: parse_value.simps [of p0] Let_def)
next
  case (2 p0)
  show ?case
  proof (cases "expect_byte 91 p0")
    case (Ok p1)
    then have p: "okp (skip_ws p1)" using okp_expect [OF 2(2) Ok] by auto
    then show ?thesis
      using "2.IH" [OF Ok refl] okp_peek [OF p] by (simp add: parse_array.simps [of p0] Ok Let_def)
  qed (simp_all add: parse_array.simps [of p0])
next
  case (3 p items)
  show ?case
    unfolding array_loop.simps [of p]
  proof (rule safe_and_then [OF "3.IH"(1) [OF 3(3)]], goal_cases)
    case (1 v p1)
    show ?case
    proof (cases "bump_byte (skip_ws p1)")
      case (Pair o' p2)
      then show ?thesis
        using "3.IH"(2) [OF 1(1) refl Pair [symmetric]] okp_bump [OF okp_skip_ws [OF 1(2)]]
        by (cases o') (auto simp: okp_skip_ws)
    qed
  qed
next
  case (4 p0)
  show ?case
  proof (cases "expect_byte 123 p0")
    case (Ok p1)
    then have p: "okp (skip_ws p1)" using okp_expect [OF 4(2) Ok] by auto
    then show ?thesis
      using "4.IH" [OF Ok refl] okp_peek [OF p] by (simp add: parse_object.simps [of p0] Ok Let_def)
  qed (simp_all add: parse_object.simps [of p0])
next
  case (5 p0 pairs)
  have p: "okp (skip_ws p0)" using 5(3) by (rule okp_skip_ws)
  show ?case
  proof (cases "peek_byte (skip_ws p0) = Some 34")
    case True
    then have q: "\<not> peek_byte (skip_ws p0) \<noteq> Some 34" by simp
    show ?thesis
      unfolding object_loop.simps [of p0] Let_def if_not_P [OF q]
    proof (rule safe_and_then [OF safe_string [OF p]], unfold prod.case, goal_cases)
      case key: (1 key p1)
      show ?case
      proof (cases "expect_byte 58 (skip_ws p1)")
        case colon: (Ok p2)
        have p2: "okp (skip_ws p2)"
          using okp_expect [OF okp_skip_ws [OF key(2)] colon] by (auto simp: okp_skip_ws)
        note IH = "5.IH" [OF refl q key(1) refl colon]
        show ?thesis
          unfolding colon and_then.simps
        proof (rule safe_and_then [OF IH(1) [OF p2]], unfold prod.case, goal_cases)
          case val: (1 v p3)
          show ?case
          proof (cases "bump_byte (skip_ws p3)")
            case (Pair o' p4)
            then show ?thesis
              using IH(2) [OF val(1) refl Pair [symmetric]] okp_bump [OF okp_skip_ws [OF val(2)]]
              by (cases o') (auto simp: okp_skip_ws)
          qed
        qed
      qed simp_all
    qed
  qed (simp add: object_loop.simps [of p0] Let_def)
qed


theorem parse_not_Panic: "parse bs \<noteq> Panic"
proof (cases "from_utf8 bs")
  case (Ok s)
  then have "valid_string s" by (simp add: from_utf8_iff)
  then have "safe (parse_value (skip_ws (new_parser (utf8 s))))"
    by (intro parse_safe okp_skip_ws okp_new)
  then show ?thesis
    using Ok by (auto simp: parse_def safe_def and_then_eq_Panic Let_def split: if_splits)
qed (auto simp: parse_def from_utf8_def from_utf8_at_not_Panic)

end
