(* ===== verification/JsonRoundtrip.thy ===== *)
theory JsonRoundtrip
  imports JsonSafe
begin

text \<open>
  The writer against the grammar: what it writes for a well-formed tree is a spelling of that tree,
  so parsing it gives the tree back; it contains no line break.
\<close>

section \<open>Well-formed trees\<close>

fun wf_json :: "json \<Rightarrow> bool" where
  "wf_json JNull = True"
| "wf_json (JBool b) = True"
| "wf_json (JNumber n) = json_number (utf8 (raw n))"
| "wf_json (JString s) = valid_string s"
| "wf_json (JArray vs) = list_all wf_json vs"
| "wf_json (JObject ms) = list_all (\<lambda>(k, v). valid_string k \<and> wf_json v) ms"

lemma hex_value_unat: "hex_value b = Some d \<Longrightarrow> unat d < 16"
  by (rule hex_value_less)

lemma hex4_less: "hex4 h n \<Longrightarrow> n < 65536"
  by (auto simp: hex4_iff dest!: hex_value_less)

lemma string_body_valid: "string_body s b \<Longrightarrow> valid_string s"
  by (induction rule: string_body.induct)
     (auto simp: simple_escapes_def is_scalar_def dest!: hex4_less)

lemma json_value_wf:
  "json_value v b \<Longrightarrow> wf_json v"
  "json_elements vs b \<Longrightarrow> list_all wf_json vs"
  "json_members ms b \<Longrightarrow> list_all (\<lambda>(k, v). valid_string k \<and> wf_json v) ms"
  by (induction rule: json_value_json_elements_json_members.inducts) (auto dest: string_body_valid)

section \<open>What the writer writes\<close>

text \<open>The same text without accumulator and index.\<close>

fun commas :: "rstring list \<Rightarrow> rstring" where
  "commas [] = []"
| "commas [w] = w"
| "commas (w # us) = w @ 44 # commas us"

definition spell_string :: "rstring \<Rightarrow> rstring" where
  "spell_string s = 34 # concat (map write_char s) @ [34]"

fun spell :: "json \<Rightarrow> rstring" where
  "spell JNull = str ''null''"
| "spell (JBool b) = (if b then str ''true'' else str ''false'')"
| "spell (JNumber n) = raw n"
| "spell (JString s) = spell_string s"
| "spell (JArray vs) = 91 # commas (map spell vs) @ [93]"
| "spell (JObject ms) = 123 # commas (map (\<lambda>(k, v). spell_string k @ 58 # spell v) ms) @ [125]"

lemma write_chars_append: "write_chars s out = out @ concat (map write_char s)"
  by (induction s arbitrary: out) auto

lemma write_string_append: "write_string s out = out @ spell_string s"
  by (simp add: write_string_def spell_string_def write_chars_append)

lemma commas_Cons: "commas (w # us) = w @ (if us = [] then [] else 44 # commas us)"
  by (cases us) auto

lemma write_value_spell:
  "write_value v out = out @ spell v"
  "write_items i vs out =
     out @ (if 0 < i \<and> vs \<noteq> [] then [44] else []) @ commas (map spell vs)"
  "write_pairs i ms out =
     out @ (if 0 < i \<and> ms \<noteq> [] then [44] else [])
         @ commas (map (\<lambda>(k, v). spell_string k @ 58 # spell v) ms)"
  by (induction v out and i vs out and i ms out rule: write_value_write_items_write_pairs.induct)
     (simp_all add: write_string_append commas_Cons)

theorem write_json_spell: "write_json v = spell v"
  by (simp add: write_json_def write_value_spell)

section \<open>It is in the grammar\<close>

lemma unat_numerals [simp]: "unat (3 :: u8) = 3"
  by simp

lemma control_escape_hex: "\<forall>c\<in>set [0..<32]. map hex_value (utf8 (show_04x c)) = map Some [0, 0, byte (c div 16), byte (c mod 16)]"
  by code_simp

lemma hex4_control:
  assumes "c < 32"
  shows "hex4 (utf8 (show_04x c)) c"
proof -
  have m: "map hex_value (utf8 (show_04x c)) = map Some [0, 0, byte (c div 16), byte (c mod 16)]"
    using control_escape_hex assms by simp
  have "length (utf8 (show_04x c)) = 4" using arg_cong [OF m, of length] by simp
  then obtain h0 h1 h2 h3 where h: "utf8 (show_04x c) = [h0, h1, h2, h3]"
    by (auto simp: length_Suc_conv eval_nat_numeral)
  have "unat (byte (c div 16)) = c div 16" "unat (byte (c mod 16)) = c mod 16"
    using assms by (auto intro!: unat_byte)
  then have "c = unat (0 :: u8) * 4096 + unat (0 :: u8) * 256 + unat (byte (c div 16)) * 16 + unat (byte (c mod 16))"
    by simp
  with m show ?thesis unfolding hex4_iff h list.map by blast
qed

lemma write_char_body:
  assumes "is_scalar c" "string_body s b"
  shows "string_body (c # s) (utf8 (write_char c) @ b)"
proof -
  consider (esc) "c \<in> {34, 92, 8, 12, 10, 13, 9}" | (ctl) "c < 32" "c \<notin> {34, 92, 8, 12, 10, 13, 9}"
    | (plain) "32 \<le> c" "c \<noteq> 34" "c \<noteq> 92" by fastforce
  then show ?thesis
  proof cases
    case esc
    then show ?thesis
      by (auto simp: write_char_def encode_ascii simple_escapes_def intro!: sb_escape [OF _ assms(2)])
  next
    case ctl
    then show ?thesis
      using sb_unicode [OF hex4_control _ assms(2), of c]
      by (simp add: write_char_def encode_ascii)
  next
    case plain
    then show ?thesis
      using sb_char [OF assms(1) _ _ _ assms(2)] by (simp add: write_char_def)
  qed
qed

lemma spell_string_body: "valid_string s \<Longrightarrow> string_body s (utf8 (concat (map write_char s)))"
  by (induction s) (auto intro: write_char_body sb_end)

lemma spell_elements:
  assumes "\<And>v. v \<in> set vs \<Longrightarrow> json_value v (utf8 (spell v))" "vs \<noteq> []"
  shows "json_elements vs (utf8 (commas (map spell vs)))"
  using assms
proof (induction vs)
  case (Cons v vs)
  then show ?case
    using je_last [of "[]" v _ "[]"] je_more [of "[]" v _ "[]"]
    by (cases "vs = []") (auto simp: commas_Cons encode_ascii)
qed simp

lemma spell_members:
  assumes "\<And>k v. (k, v) \<in> set ms \<Longrightarrow> valid_string k \<and> json_value v (utf8 (spell v))" "ms \<noteq> []"
  shows "json_members ms (utf8 (commas (map (\<lambda>(k, v). spell_string k @ 58 # spell v) ms)))"
  using assms
proof (induction ms)
  case (Cons m ms)
  obtain k v where m: "m = (k, v)" by (cases m)
  have kv: "string_body k (utf8 (concat (map write_char k)))" "json_value v (utf8 (spell v))"
    using Cons.prems(1) m spell_string_body by auto
  show ?case
    using jm_last [OF _ kv(1) _ _ kv(2), of "[]" "[]" "[]" "[]"] Cons m
      jm_more [OF _ kv(1) _ _ kv(2), of "[]" "[]" "[]" "[]" ms]
    by (cases "ms = []") (auto simp: commas_Cons encode_ascii spell_string_def)
qed simp

theorem spell_value: "wf_json v \<Longrightarrow> json_value v (utf8 (spell v))"
proof (induction v)
  case JNull
  show ?case using jv_null by simp
next
  case (JBool b)
  show ?case using jv_true jv_false by simp
next
  case (JNumber n)
  then show ?case using jv_number [of "raw n"] by simp
next
  case (JString s)
  then show ?case using jv_string [OF spell_string_body] by (simp add: spell_string_def encode_ascii)
next
  case (JArray vs)
  then show ?case
    using jv_empty_array [of "[]"] jv_array [OF spell_elements, of vs]
    by (cases "vs = []") (auto simp: list_all_iff encode_ascii)
next
  case (JObject ms)
  then have "valid_string k \<and> json_value v (utf8 (spell v))" if "(k, v) \<in> set ms" for k v
    using that by (fastforce simp: list_all_iff)
  then show ?case
    using jv_empty_object [of "[]"] jv_object [OF spell_members, of ms]
    by (cases "ms = []") (auto simp: encode_ascii)
qed

lemma json_text_value: "json_value v b \<Longrightarrow> json_text v b"
  unfolding json_text_def by (rule exI [of _ "[]"], rule exI [of _ b], rule exI [of _ "[]"]) simp

theorem parse_write: "wf_json v \<Longrightarrow> parse (utf8 (write_json v)) = Ok v"
  by (simp add: parse_iff write_json_spell spell_value json_text_value)

theorem parse_wf: "parse bs = Ok v \<Longrightarrow> wf_json v"
  by (auto simp: parse_iff json_text_def dest: json_value_wf)

interpretation jsonc: codec "\<lambda>v. utf8 (write_json v)" parse wf_json
  by unfold_locales (rule parse_write)

section \<open>It is one line\<close>

lemma show_hex_ge: "c \<in> set (show_hex n) \<Longrightarrow> 32 \<le> c"
proof (induction n arbitrary: c rule: show_hex.induct)
  case (1 n)
  then show ?case
    by (auto simp: show_hex.simps [of n] hex_digit_def split: if_splits)
qed

lemma write_char_ge: "c \<in> set (write_char ch) \<Longrightarrow> 32 \<le> c"
  by (auto simp: write_char_def show_04x_def Let_def dest: show_hex_ge split: if_splits)

lemma commas_ge: "(\<And>w c. w \<in> set us \<Longrightarrow> c \<in> set w \<Longrightarrow> 32 \<le> c) \<Longrightarrow> c \<in> set (commas us) \<Longrightarrow> 32 \<le> (c :: nat)"
  by (induction us) (auto simp: commas_Cons split: if_splits)

lemma spell_string_ge: "c \<in> set (spell_string s) \<Longrightarrow> 32 \<le> c"
  by (auto simp: spell_string_def dest: write_char_ge)

lemma digits_ge: "list_all is_digit_byte ds \<Longrightarrow> b \<in> set ds \<Longrightarrow> 32 \<le> unat b"
  by (auto simp: list_all_iff is_digit_byte_def word_le_nat_alt)

lemma json_number_ge: "json_number bs \<Longrightarrow> b \<in> set bs \<Longrightarrow> 32 \<le> unat b"
  by (auto simp: json_number_def json_int_def json_frac_def json_exp_def digits1_iff dest: digits_ge)

lemma number_raw_ge:
  assumes "json_number (utf8 s)" "c \<in> set s"
  shows "32 \<le> c"
proof -
  have c: "utf8 s = map byte s" "c < 128" using json_number_string [OF assms(1)] assms(2) by (auto simp: utf8_ascii)
  then have "byte c \<in> set (utf8 s)" using assms(2) by simp
  then have "32 \<le> unat (byte c)" using json_number_ge [OF assms(1)] by blast
  with c(2) show ?thesis by (simp add: unat_byte)
qed

theorem spell_ge: "wf_json v \<Longrightarrow> c \<in> set (spell v) \<Longrightarrow> 32 \<le> c"
proof (induction v arbitrary: c)
  case (JNumber n)
  then show ?case using number_raw_ge by simp
next
  case (JArray vs)
  then have "32 \<le> d" if "w \<in> set (map spell vs)" "d \<in> set w" for w d
    using that by (auto simp: list_all_iff)
  then have "d \<in> set (commas (map spell vs)) \<Longrightarrow> 32 \<le> d" for d by (rule commas_ge)
  with JArray.prems show ?case by auto
next
  case (JObject ms)
  let ?f = "\<lambda>(k, v). spell_string k @ 58 # spell v"
  have "32 \<le> d" if w: "w \<in> set (map ?f ms)" "d \<in> set w" for w d
  proof -
    from w(1) obtain k v where kv: "(k, v) \<in> set ms" "w = spell_string k @ 58 # spell v" by auto
    with JObject.prems have "wf_json v" by (auto simp: list_all_iff)
    with JObject.IH [OF kv(1), of v] kv(2) w(2) spell_string_ge show ?thesis by auto
  qed
  then have "d \<in> set (commas (map ?f ms)) \<Longrightarrow> 32 \<le> d" for d by (rule commas_ge)
  with JObject.prems show ?case by auto
qed (auto dest: spell_string_ge split: if_splits)


lemma show_hex_ascii: "c \<in> set (show_hex n) \<Longrightarrow> c < 128"
proof (induction n arbitrary: c rule: show_hex.induct)
  case (1 n)
  then show ?case
    by (auto simp: show_hex.simps [of n] hex_digit_def split: if_splits)
qed

lemma write_char_valid: "is_scalar ch \<Longrightarrow> valid_string (write_char ch)"
  by (auto simp: write_char_def show_04x_def Let_def ascii_scalar
      intro!: valid_string_ascii dest: show_hex_ascii)

lemma commas_valid: "(\<And>w. w \<in> set us \<Longrightarrow> valid_string w) \<Longrightarrow> valid_string (commas us)"
  by (induction us) (auto simp: commas_Cons ascii_scalar)

lemma spell_string_valid: "valid_string s \<Longrightarrow> valid_string (spell_string s)"
proof -
  assume "valid_string s"
  then have "valid_string (concat (map write_char s))" by (induction s) (auto simp: write_char_valid)
  then show ?thesis by (simp add: spell_string_def ascii_scalar)
qed

lemma spell_valid: "wf_json v \<Longrightarrow> valid_string (spell v)"
proof (induction v)
  case (JNumber n)
  then show ?case by (simp add: json_number_string)
next
  case (JString s)
  then show ?case by (simp add: spell_string_valid)
next
  case (JArray vs)
  then have "valid_string (commas (map spell vs))" by (intro commas_valid) (auto simp: list_all_iff)
  then show ?case by (simp add: ascii_scalar)
next
  case (JObject ms)
  then have "valid_string (commas (map (\<lambda>(k, v). spell_string k @ 58 # spell v) ms))"
    by (intro commas_valid) (fastforce simp: list_all_iff spell_string_valid ascii_scalar)
  then show ?case by (simp add: ascii_scalar)
qed (auto simp: ascii_scalar)

lemma encode_char_ge:
  assumes "is_scalar c" "32 \<le> c" "b \<in> set (encode_char c)"
  shows "32 \<le> unat b"
proof -
  have "c < 1114112" using assms(1) by (auto simp: is_scalar_def)
  then have "c < 2048 \<Longrightarrow> unat (byte (192 + c div 64)) = 192 + c div 64"
    "c < 65536 \<Longrightarrow> unat (byte (224 + c div 4096)) = 224 + c div 4096"
    "unat (byte (240 + c div 262144)) = 240 + c div 262144"
    by (auto intro!: unat_byte)
  with assms show ?thesis
    by (auto simp: encode_char_def unat_byte split: if_splits)
qed

lemma utf8_ge:
  "valid_string s \<Longrightarrow> (\<And>c. c \<in> set s \<Longrightarrow> 32 \<le> c) \<Longrightarrow> b \<in> set (utf8 s) \<Longrightarrow> 32 \<le> unat b"
  by (induction s) (auto dest: encode_char_ge)

theorem write_json_bytes_ge: "wf_json v \<Longrightarrow> b \<in> set (utf8 (write_json v)) \<Longrightarrow> 32 \<le> unat b"
  unfolding write_json_spell by (rule utf8_ge [OF spell_valid]) (auto dest: spell_ge)

section \<open>Properties\<close>

text \<open>
  C10: The parser accepts exactly the documents the grammar of RFC 8259 derives, in any byte sequence,
  and returns the tree the grammar assigns to them.
\<close>
theorem json_parser_accepts_grammar: "parse bs = Ok v \<longleftrightarrow> json_text v bs"
  by (rule parse_iff)

text \<open>
  C35: No input makes the parser panic: no slice off a character boundary, no failing \<open>expect\<close>, no
  overflow of the \<open>u16\<close> in \<open>parse_hex4\<close>.
\<close>
theorem json_parser_never_panics: "parse bs \<noteq> Panic"
  by (rule parse_not_Panic)

text \<open>
  C23: Parsing what the writer writes for a well-formed tree gives the tree back: same key order,
  same number spellings, same characters.
\<close>
theorem json_write_parse: "wf_json v \<Longrightarrow> parse (utf8 (write_json v)) = Ok v"
  by (rule jsonc.dec_enc)

definition sample_tree :: json where
  "sample_tree = JObject [(str ''a'', JArray [JNull, JString [34, 10, 233]]), ([1], JBool False)]"

lemma json_write_parse_witness:
  "wf_json sample_tree \<and> parse (utf8 (write_json sample_tree)) = Ok sample_tree"
proof -
  have "wf_json sample_tree" by (simp add: sample_tree_def is_scalar_def)
  with json_write_parse [of sample_tree] show ?thesis by simp
qed

text \<open>
  What the writer writes for a well-formed tree has no control byte, so no line break: a
  request is one line.
\<close>
lemma json_write_one_line:
  "wf_json v \<Longrightarrow> \<forall>b\<in>set (utf8 (write_json v)). 32 \<le> b"
  using write_json_bytes_ge by (auto simp: word_le_nat_alt)

lemma json_write_one_line_witness:
  "wf_json sample_tree \<and> 10 \<notin> set (utf8 (write_json sample_tree))"
proof -
  have "wf_json sample_tree" by (simp add: sample_tree_def is_scalar_def)
  with json_write_one_line [of sample_tree] show ?thesis by auto
qed

text \<open>
  C36: A parsed document can be written and parsed again without change, and every tree the parser
  returns is well-formed.
\<close>
theorem json_parse_stable:
  "parse bs = Ok v \<Longrightarrow> wf_json v \<and> parse (utf8 (write_json v)) = Ok v"
  using parse_wf parse_write by blast

lemma json_parse_stable_witness:
  "wf_json (JArray []) \<and> parse (utf8 (write_json (JArray []))) = Ok (JArray [])"
proof (rule json_parse_stable)
  show "parse [91, 32, 93] = Ok (JArray [])"
    using jv_empty_array [of "[32]"] by (simp add: parse_iff json_text_value is_ws_def)
qed

end
