(* ===== verification/Base64.thy ===== *)
theory Base64
  imports StdText
begin

text \<open>
  \<open>rust/src/codec/base64.rs\<close>: the hand-written Base64 codec of BLOB values, its round trip, and
  exactly which strings the strict decoder accepts.
\<close>

section \<open>The code\<close>

definition ALPHABET :: rstring where
  "ALPHABET = str ''ABCDEFGHIJKLMNOPQRSTUVWXYZabcdefghijklmnopqrstuvwxyz0123456789+/''"

datatype base64_error = Base64Error rstring

text \<open>One chunk of up to three bytes, as the loop body of \<open>encode\<close> pushes it.\<close>

definition encode_chunk :: "bytes \<Rightarrow> rstring" where
  "encode_chunk chunk =
     (let b0 = chunk ! 0;
          b1 = (if 1 < length chunk then Some (chunk ! 1) else None);
          b2 = (if 2 < length chunk then Some (chunk ! 2) else None);
          n = push_bit 16 (ucast b0 :: u32)
              OR push_bit 8 (ucast (case b1 of Some b \<Rightarrow> b | None \<Rightarrow> 0))
              OR ucast (case b2 of Some b \<Rightarrow> b | None \<Rightarrow> 0)
      in [ALPHABET ! unat (drop_bit 18 n AND 0x3F),
          ALPHABET ! unat (drop_bit 12 n AND 0x3F),
          (case b1 of Some _ \<Rightarrow> ALPHABET ! unat (drop_bit 6 n AND 0x3F) | None \<Rightarrow> 61),
          (case b2 of Some _ \<Rightarrow> ALPHABET ! unat (n AND 0x3F) | None \<Rightarrow> 61)])"

fun encode_chunks :: "bytes list \<Rightarrow> rstring \<Rightarrow> rstring" where
  "encode_chunks [] out = out"
| "encode_chunks (chunk # rest) out = encode_chunks rest (out @ encode_chunk chunk)"

definition encode :: "bytes \<Rightarrow> rstring" where
  "encode data = encode_chunks (chunks 3 data) []"

definition decode_char :: "u8 \<Rightarrow> (u8, base64_error) result" where
  "decode_char c =
     (if 65 \<le> c \<and> c \<le> 90 then Ok (c - 65)
      else if 97 \<le> c \<and> c \<le> 122 then Ok (c - 97 + 26)
      else if 48 \<le> c \<and> c \<le> 57 then Ok (c - 48 + 52)
      else if c = 43 then Ok 62
      else if c = 47 then Ok 63
      else Err (Base64Error (str ''invalid base64 character: '' @ debug_char (unat c))))"

text \<open>The inner loop over one group: \<open>j\<close> counts its characters, \<open>vals\<close> and \<open>pad\<close> accumulate.\<close>

fun decode_group :: "bool \<Rightarrow> nat \<Rightarrow> bytes \<Rightarrow> bytes \<Rightarrow> nat \<Rightarrow> (bytes \<times> nat, base64_error) result" where
  "decode_group is_last j [] vals pad = Ok (vals, pad)"
| "decode_group is_last j (c # chars) vals pad =
     (if c = 61 then
        if \<not> is_last then
          Err (Base64Error ([39, 61, 39] @ str '' padding is only allowed in the final block''))
        else if j < 2 then
          Err (Base64Error ([39, 61, 39] @ str '' padding cannot start this early in a block''))
        else decode_group is_last (j + 1) chars vals (pad + 1)
      else if 0 < pad then
        Err (Base64Error (str ''data character found after '' @ [39, 61, 39] @ str '' padding''))
      else and_then (decode_char c)
             (\<lambda>v. decode_group is_last (j + 1) chars (vals[j := v]) pad))"

definition push_group :: "bytes \<Rightarrow> nat \<Rightarrow> bytes" where
  "push_group vals pad =
     (let n = push_bit 18 (ucast (vals ! 0) :: u32) OR push_bit 12 (ucast (vals ! 1))
              OR push_bit 6 (ucast (vals ! 2)) OR ucast (vals ! 3)
      in [ucast (drop_bit 16 n)]
         @ (if pad < 2 then [ucast (drop_bit 8 n)] else [])
         @ (if pad < 1 then [ucast n] else []))"

fun decode_groups :: "nat \<Rightarrow> nat \<Rightarrow> bytes list \<Rightarrow> bytes \<Rightarrow> (bytes, base64_error) result" where
  "decode_groups gi n_groups [] out = Ok out"
| "decode_groups gi n_groups (grp # groups) out =
     and_then (decode_group (gi + 1 = n_groups) 0 grp [0, 0, 0, 0] 0)
       (\<lambda>(vals, pad). decode_groups (gi + 1) n_groups groups (out @ push_group vals pad))"

definition decode :: "rstring \<Rightarrow> (bytes, base64_error) result" where
  "decode s =
     (let b = utf8 s in
      if length b mod 4 \<noteq> 0 then
        Err (Base64Error (str ''base64 length '' @ show_nat (length b)
                          @ str '' is not a multiple of 4''))
      else decode_groups 0 (length b div 4) (chunks 4 b) [])"

section \<open>Round trip\<close>

lemma ALPHABET_length [simp]: "length ALPHABET = 64"
  by (simp add: ALPHABET_def)

text \<open>The 64 characters, checked one by one: ASCII, not the padding, and decoded to their index.\<close>

fun alphabet_ok :: "u8 \<Rightarrow> rstring \<Rightarrow> bool" where
  "alphabet_ok v [] \<longleftrightarrow> True"
| "alphabet_ok v (c # cs) \<longleftrightarrow>
     c < 128 \<and> c \<noteq> 61 \<and> decode_char (byte c) = Ok v \<and> alphabet_ok (v + 1) cs"

lemma alphabet_okD:
  "alphabet_ok v cs \<Longrightarrow> k < length cs \<Longrightarrow>
   cs ! k < 128 \<and> cs ! k \<noteq> 61 \<and> decode_char (byte (cs ! k)) = Ok (v + byte k)"
proof (induction v cs arbitrary: k rule: alphabet_ok.induct)
  case (2 v c cs)
  then show ?case by (cases k) (auto simp: byte_def algebra_simps)
qed simp

lemma alphabet_ok_ALPHABET: "alphabet_ok 0 ALPHABET"
  by (simp add: ALPHABET_def decode_char_def)

lemma alphabet_index:
  assumes "i < 64"
  shows "ALPHABET ! i < 128" and "ALPHABET ! i \<noteq> 61"
    and "decode_char (byte (ALPHABET ! i)) = Ok (byte i)"
  using alphabet_okD [OF alphabet_ok_ALPHABET, of i] assms by simp_all

text \<open>The sextet at bit \<open>j\<close>, as an index into the alphabet and back.\<close>

lemma mask6: "(0x3F :: u32) = mask 6"
  by (simp add: mask_eq_exp_minus_1)

lemma sextet_less: "unat ((n :: u32) AND 0x3F) < 64"
proof -
  have "n AND 0x3F \<le> 0x3F" by (rule word_and_le1)
  then show ?thesis by (simp add: word_le_nat_alt)
qed

definition sextet :: "nat \<Rightarrow> u32 \<Rightarrow> u8" where
  "sextet j n = byte (unat (drop_bit j n AND 0x3F))"

lemma sextet_bit: "bit (ucast (sextet j n) :: u32) k \<longleftrightarrow> k < 6 \<and> bit n (j + k)"
proof -
  have "sextet j n = ucast (drop_bit j n AND 0x3F)"
    by (simp add: sextet_def byte_def)
  then show ?thesis
    by (auto simp: mask6 bit_simps dest: bit_imp_le_length)
qed

lemma sextets_join:
  fixes n :: u32
  assumes "\<And>k. bit n k \<Longrightarrow> k < 24"
  shows "push_bit 18 (ucast (sextet 18 n) :: u32) OR push_bit 12 (ucast (sextet 12 n))
    OR push_bit 6 (ucast (sextet 6 n)) OR ucast (sextet 0 n) = n"
proof (rule bit_word_eqI)
  fix k
  assume "k < LENGTH(32)"
  then have k: "k < 32" by simp
  consider "k < 6" | "6 \<le> k" "k < 12" | "12 \<le> k" "k < 18" | "18 \<le> k" "k < 24" | "24 \<le> k"
    by linarith
  then show "bit (push_bit 18 (ucast (sextet 18 n) :: u32) OR push_bit 12 (ucast (sextet 12 n))
    OR push_bit 6 (ucast (sextet 6 n)) OR ucast (sextet 0 n)) k = bit n k"
    using k assms [of k]
    by cases (auto simp: bit_or_iff bit_push_bit_iff sextet_bit)
qed

text \<open>A chunk as a 24-bit word, its bytes back, and the encoded characters as bytes.\<close>

definition chunk_word :: "u8 \<Rightarrow> u8 \<Rightarrow> u8 \<Rightarrow> u32" where
  "chunk_word a b c = push_bit 16 (ucast a) OR push_bit 8 (ucast b) OR ucast c"

lemma chunk_word_bit:
  "bit (chunk_word a b c) k \<longleftrightarrow>
     (if k < 8 then bit c k else if k < 16 then bit b (k - 8) else k < 24 \<and> bit a (k - 16))"
  by (auto simp: chunk_word_def bit_or_iff bit_push_bit_iff bit_ucast_iff dest: bit_imp_le_length)

lemma chunk_word_bytes:
  "ucast (drop_bit 16 (chunk_word a b c)) = a"
  "ucast (drop_bit 8 (chunk_word a b c)) = b"
  "ucast (chunk_word a b c) = c"
  by (rule bit_word_eqI; simp add: bit_ucast_iff bit_drop_bit_eq chunk_word_bit)+

lemma sextet_0:
  "c = 0 \<Longrightarrow> sextet 0 (chunk_word a b c) = 0"
  "b = 0 \<Longrightarrow> c = 0 \<Longrightarrow> sextet 6 (chunk_word a b c) = 0"
proof -
  have *: "sextet j (chunk_word a b c) = 0"
    if "\<And>k. k < 6 \<Longrightarrow> \<not> bit (chunk_word a b c) (j + k)" for j
  proof (rule bit_word_eqI)
    fix k assume "k < LENGTH(8)"
    then show "bit (sextet j (chunk_word a b c)) k = bit (0 :: u8) k"
      using sextet_bit [of j "chunk_word a b c" k] that [of k]
      by (auto simp: bit_ucast_iff)
  qed
  show "c = 0 \<Longrightarrow> sextet 0 (chunk_word a b c) = 0"
    by (rule *) (simp add: chunk_word_bit)
  show "b = 0 \<Longrightarrow> c = 0 \<Longrightarrow> sextet 6 (chunk_word a b c) = 0"
    by (rule *) (simp add: chunk_word_bit)
qed

definition letter :: "u8 \<Rightarrow> rchar" where
  "letter v = ALPHABET ! unat v"

lemma letter_sextet: "ALPHABET ! unat (drop_bit j n AND 0x3F) = letter (sextet j n)"
  using sextet_less [of "drop_bit j n"] by (simp add: letter_def sextet_def unat_byte)

lemma sextet_64: "unat (sextet j n) < 64"
  using sextet_less [of "drop_bit j n"] by (simp add: sextet_def unat_byte)

lemma letter_byte:
  assumes "unat v < 64"
  shows "letter v < 128" and "byte (letter v) \<noteq> 61" and "decode_char (byte (letter v)) = Ok v"
proof -
  show 1: "letter v < 128" using alphabet_index(1) [OF assms] by (simp add: letter_def)
  have "letter v \<noteq> 61" using alphabet_index(2) [OF assms] by (simp add: letter_def)
  then have "unat (byte (letter v)) \<noteq> unat (61 :: u8)" using 1 by (simp add: unat_byte)
  then show "byte (letter v) \<noteq> 61" by metis
  show "decode_char (byte (letter v)) = Ok v"
    using alphabet_index(3) [OF assms] by (simp add: letter_def)
qed

lemma encode_chunk_letters:
  "encode_chunk [a] =
     [letter (sextet 18 (chunk_word a 0 0)), letter (sextet 12 (chunk_word a 0 0)), 61, 61]"
  "encode_chunk [a, b] =
     [letter (sextet 18 (chunk_word a b 0)), letter (sextet 12 (chunk_word a b 0)),
      letter (sextet 6 (chunk_word a b 0)), 61]"
  "encode_chunk [a, b, c] =
     [letter (sextet 18 (chunk_word a b c)), letter (sextet 12 (chunk_word a b c)),
      letter (sextet 6 (chunk_word a b c)), letter (sextet 0 (chunk_word a b c))]"
proof -
  have "encode_chunk [a] = (let n = chunk_word a 0 0 in
      [ALPHABET ! unat (drop_bit 18 n AND 0x3F), ALPHABET ! unat (drop_bit 12 n AND 0x3F), 61, 61])"
    by (simp add: encode_chunk_def chunk_word_def Let_def)
  then show "encode_chunk [a] =
     [letter (sextet 18 (chunk_word a 0 0)), letter (sextet 12 (chunk_word a 0 0)), 61, 61]"
    by (simp only: Let_def letter_sextet)
  have "encode_chunk [a, b] = (let n = chunk_word a b 0 in
      [ALPHABET ! unat (drop_bit 18 n AND 0x3F), ALPHABET ! unat (drop_bit 12 n AND 0x3F),
       ALPHABET ! unat (drop_bit 6 n AND 0x3F), 61])"
    by (simp add: encode_chunk_def chunk_word_def Let_def)
  then show "encode_chunk [a, b] =
     [letter (sextet 18 (chunk_word a b 0)), letter (sextet 12 (chunk_word a b 0)),
      letter (sextet 6 (chunk_word a b 0)), 61]"
    by (simp only: Let_def letter_sextet)
  have "encode_chunk [a, b, c] = (let n = chunk_word a b c in
      [ALPHABET ! unat (drop_bit 18 n AND 0x3F), ALPHABET ! unat (drop_bit 12 n AND 0x3F),
       ALPHABET ! unat (drop_bit 6 n AND 0x3F), ALPHABET ! unat (drop_bit 0 n AND 0x3F)])"
    by (simp add: encode_chunk_def chunk_word_def Let_def)
  then show "encode_chunk [a, b, c] =
     [letter (sextet 18 (chunk_word a b c)), letter (sextet 12 (chunk_word a b c)),
      letter (sextet 6 (chunk_word a b c)), letter (sextet 0 (chunk_word a b c))]"
    by (simp only: Let_def letter_sextet)
qed

lemma push_group_join:
  "push_group [sextet 18 (chunk_word a b c), sextet 12 (chunk_word a b c),
               sextet 6 (chunk_word a b c), sextet 0 (chunk_word a b c)] pad
   = [a] @ (if pad < 2 then [b] else []) @ (if pad < 1 then [c] else [])"
proof -
  have "\<And>k. bit (chunk_word a b c) k \<Longrightarrow> k < 24" by (auto simp: chunk_word_bit split: if_splits)
  then show ?thesis
    by (simp add: push_group_def sextets_join chunk_word_bytes Let_def)
qed

lemma decode_encode_chunk:
  assumes "chunk \<noteq> []" and "length chunk \<le> 3" and "length chunk < 3 \<Longrightarrow> is_last"
  shows "\<exists>vals pad. decode_group is_last 0 (utf8 (encode_chunk chunk)) [0, 0, 0, 0] 0 = Ok (vals, pad)
           \<and> push_group vals pad = chunk"
proof -
  note facts = encode_chunk_letters encode_ascii letter_byte sextet_64
  consider a where "chunk = [a]" | a b where "chunk = [a, b]" | a b c where "chunk = [a, b, c]"
    using assms(1,2) by (cases chunk; cases "tl chunk"; cases "tl (tl chunk)") auto
  then show ?thesis
  proof cases
    case 1
    then show ?thesis
      using assms(3) push_group_join [of a 0 0 "Suc (Suc 0)"] by (simp add: facts sextet_0 encode_char_def)
  next
    case 2
    then show ?thesis
      using assms(3) push_group_join [of a b 0 "Suc 0"] by (simp add: facts sextet_0 encode_char_def)
  next
    case 3
    then show ?thesis
      using push_group_join [of a b c 0] by (simp add: facts)
  qed
qed

lemma encode_chunk_bytes:
  assumes "chunk \<noteq> []" and "length chunk \<le> 3"
  shows "length (utf8 (encode_chunk chunk)) = 4"
proof -
  note facts = encode_chunk_letters encode_ascii letter_byte sextet_64 encode_char_def
  consider a where "chunk = [a]" | a b where "chunk = [a, b]" | a b c where "chunk = [a, b, c]"
    using assms by (cases chunk; cases "tl chunk"; cases "tl (tl chunk)") auto
  then show ?thesis by cases (simp_all add: facts)
qed

lemma encode_chunks_append: "encode_chunks cs out = out @ encode_chunks cs []"
proof (induction cs arbitrary: out)
  case (Cons c cs)
  show ?case
    using Cons [of "out @ encode_chunk c"] Cons [of "encode_chunk c"] by simp
qed simp

lemma encode_step:
  "data \<noteq> [] \<Longrightarrow> encode data = encode_chunk (take 3 data) @ encode (drop 3 data)"
  by (simp add: encode_def chunks.simps [of 3 data] encode_chunks_append [of _ "encode_chunk _"])

lemma encode_Nil [simp]: "encode [] = []"
  by (simp add: encode_def)

lemma encode_length: "length (utf8 (encode data)) = 4 * ((length data + 2) div 3)"
proof (induction data rule: length_induct)
  case (1 data)
  show ?case
  proof (cases "data = []")
    case False
    then have "length (utf8 (encode (drop 3 data))) = 4 * ((length (drop 3 data) + 2) div 3)"
      using 1 by simp
    moreover have "(length data + 2) div 3 = 1 + (length data - 3 + 2) div 3"
      using False by (cases "length data") (simp, presburger)
    ultimately show ?thesis
      using False by (simp add: encode_step encode_chunk_bytes)
  qed simp
qed

lemma decode_groups_encode:
  "n_groups = gi + length (utf8 (encode data)) div 4 \<Longrightarrow>
   decode_groups gi n_groups (chunks 4 (utf8 (encode data))) out = Ok (out @ data)"
proof (induction data arbitrary: gi out rule: length_induct)
  case (1 data)
  show ?case
  proof (cases "data = []")
    case False
    let ?g = "utf8 (encode_chunk (take 3 data))"
    have g: "length ?g = 4" using False by (simp add: encode_chunk_bytes)
    have n: "n_groups = gi + 1 + length (utf8 (encode (drop 3 data))) div 4"
      using "1.prems" False g by (simp add: encode_step)
    have "\<exists>vals pad. decode_group (gi + 1 = n_groups) 0 ?g [0, 0, 0, 0] 0 = Ok (vals, pad)
           \<and> push_group vals pad = take 3 data"
      using False n by (intro decode_encode_chunk) (auto simp: min_def split: if_splits)
    moreover have "decode_groups (gi + 1) n_groups (chunks 4 (utf8 (encode (drop 3 data))))
        (out @ take 3 data) = Ok ((out @ take 3 data) @ drop 3 data)"
      using False n "1.IH" [rule_format, of "drop 3 data" "gi + 1" "out @ take 3 data"] by simp
    ultimately show ?thesis
      using False g by (auto simp: encode_step chunks_append)
  qed simp
qed

lemma decode_encode: "decode (encode data) = Ok data"
  using decode_groups_encode [of _ 0 data "[]"] by (simp add: decode_def encode_length)

interpretation base64: codec encode decode "\<lambda>_. True"
  by unfold_locales (rule decode_encode)

section \<open>What the decoder accepts\<close>

text \<open>
  The strict format: a multiple of four bytes, alphabet characters and then at most two padding
  characters. The specification looks at the whole text at once; the code goes group by group.
\<close>

definition is_b64 :: "u8 \<Rightarrow> bool" where
  "is_b64 c \<longleftrightarrow>
     65 \<le> c \<and> c \<le> 90 \<or> 97 \<le> c \<and> c \<le> 122 \<or> 48 \<le> c \<and> c \<le> 57 \<or> c = 43 \<or> c = 47"

definition padding :: "bytes \<Rightarrow> bytes" where
  "padding b = dropWhile is_b64 b"

definition b64_wf :: "bytes \<Rightarrow> bool" where
  "b64_wf b \<longleftrightarrow> length b mod 4 = 0 \<and> length (padding b) \<le> 2 \<and> list_all (\<lambda>c. c = 61) (padding b)"

lemma decode_char_cases:
  "is_b64 c \<Longrightarrow> \<exists>v. decode_char c = Ok v"
  "\<not> is_b64 c \<Longrightarrow> \<exists>e. decode_char c = Err e"
  by (auto simp: is_b64_def decode_char_def)

lemma is_b64_61 [simp]: "\<not> is_b64 61"
  by (simp add: is_b64_def)

definition group_wf :: "bool \<Rightarrow> bytes \<Rightarrow> bool" where
  "group_wf is_last g \<longleftrightarrow> length (padding g) \<le> 2 \<and> list_all (\<lambda>c. c = 61) (padding g)
     \<and> (is_last \<or> padding g = [])"

lemma decode_group_padded:
  "0 < pad \<Longrightarrow> 2 \<le> j \<Longrightarrow>
   (if list_all (\<lambda>c. c = 61) g \<and> (is_last \<or> g = [])
    then decode_group is_last j g vals pad = Ok (vals, pad + length g)
    else \<exists>e. decode_group is_last j g vals pad = Err e)"
  by (induction g arbitrary: j pad) (auto split: if_splits)

lemma decode_group_from:
  "if list_all (\<lambda>c. c = 61) (padding g) \<and> (padding g = [] \<or> is_last \<and> 2 \<le> j + length (takeWhile is_b64 g))
   then \<exists>vals'. decode_group is_last j g vals 0 = Ok (vals', length (padding g))
   else \<exists>e. decode_group is_last j g vals 0 = Err e"
proof (induction g arbitrary: j vals)
  case Nil
  show ?case by (simp add: padding_def)
next
  case (Cons c g)
  show ?case
  proof (cases "is_b64 c")
    case True
    then obtain v where "decode_char c = Ok v" using decode_char_cases by blast
    moreover have "c \<noteq> 61" using True by auto
    ultimately show ?thesis
      using Cons [of "j + 1" "vals[j := v]"] True
      by (auto simp: padding_def simp del: dropWhile_eq_Nil_conv split: if_splits)
  next
    case False
    show ?thesis
    proof (cases "c = 61")
      case True
      then show ?thesis
        using decode_group_padded [of 1 "j + 1" g is_last vals]
        by (cases "2 \<le> j") (auto simp: padding_def split: if_splits)
    next
      case no: False
      then obtain e where "decode_char c = Err e" using False decode_char_cases by blast
      then show ?thesis using False no by (simp add: padding_def)
    qed
  qed
qed

lemma decode_group_cases:
  assumes "length g = 4"
  shows "if group_wf is_last g
         then \<exists>vals. decode_group is_last 0 g [0, 0, 0, 0] 0 = Ok (vals, length (padding g))
         else \<exists>e. decode_group is_last 0 g [0, 0, 0, 0] 0 = Err e"
proof -
  have "length (takeWhile is_b64 g) + length (padding g) = 4"
    using assms by (metis length_append padding_def takeWhile_dropWhile_id)
  then have "group_wf is_last g \<longleftrightarrow> list_all (\<lambda>c. c = 61) (padding g)
      \<and> (padding g = [] \<or> is_last \<and> 2 \<le> 0 + length (takeWhile is_b64 g))"
    by (auto simp: group_wf_def)
  then show ?thesis
    using decode_group_from [of g is_last 0 "[0, 0, 0, 0]"] by simp
qed

lemma push_group_length:
  "pad \<le> 2 \<Longrightarrow> length (push_group vals pad) = 3 - pad"
  by (auto simp: push_group_def Let_def)

lemma padding_append:
  "padding (g @ rest) = (if padding g = [] then padding rest else padding g @ rest)"
  by (auto simp: padding_def dropWhile_append dropWhile_eq_Nil_conv)

lemma length_padding: "length (padding b) \<le> length b"
  by (simp add: padding_def length_dropWhile_le)

lemma decode_groups_cases:
  "length b = 4 * k \<Longrightarrow> n_groups = gi + k \<Longrightarrow>
   (if b64_wf b then \<exists>bs. decode_groups gi n_groups (chunks 4 b) out = Ok (out @ bs)
                      \<and> length bs + length (padding b) = 3 * k
    else \<exists>e. decode_groups gi n_groups (chunks 4 b) out = Err e)"
proof (induction k arbitrary: b gi out)
  case 0
  then show ?case by (simp add: b64_wf_def padding_def)
next
  case (Suc k)
  define g where "g = take 4 b"
  define rest where "rest = drop 4 b"
  have b: "b = g @ rest" and g: "length g = 4" and rest: "length rest = 4 * k"
    using Suc.prems by (simp_all add: g_def rest_def)
  have last: "Suc gi = n_groups \<longleftrightarrow> rest = []"
    using Suc.prems rest by auto
  note IH = Suc.IH [OF rest, of "gi + 1"]
  note G = decode_group_cases [OF g, of "rest = []"]
  show ?case
  proof (cases "group_wf (rest = []) g")
    case False
    then have "\<not> b64_wf b"
      using g rest by (cases k; cases rest) (auto simp: b padding_append b64_wf_def group_wf_def)
    then show ?thesis
      using G False by (auto simp: b chunks_append g last)
  next
    case True
    then obtain vals where
      vals: "decode_group (rest = []) 0 g [0, 0, 0, 0] 0 = Ok (vals, length (padding g))"
      using G by auto
    define out' where "out' = out @ push_group vals (length (padding g))"
    have step: "decode_groups gi n_groups (chunks 4 b) out = decode_groups (gi + 1) n_groups (chunks 4 rest) out'"
      using vals by (simp add: b chunks_append g out'_def last [symmetric])
    have len: "length (push_group vals (length (padding g))) + length (padding g) = 3"
      using True by (simp add: push_group_length group_wf_def)
    show ?thesis
    proof (cases "padding g = []")
      case True
      then have wf: "b64_wf b \<longleftrightarrow> b64_wf rest" and pad: "padding b = padding rest"
        using g rest by (simp_all add: b b64_wf_def padding_append)
      show ?thesis
        using IH [of out'] Suc.prems len True unfolding step wf pad
        by (auto simp: out'_def split: if_splits)
    next
      case False
      then have "rest = []" using True by (auto simp: group_wf_def)
      then show ?thesis
        using True g rest len unfolding step
        by (auto simp: b b64_wf_def group_wf_def out'_def)
    qed
  qed
qed

lemma decode_cases:
  "if b64_wf (utf8 s)
   then \<exists>bs. decode s = Ok bs \<and> length bs = 3 * (length (utf8 s) div 4) - length (padding (utf8 s))
   else \<exists>e. decode s = Err e"
proof (cases "length (utf8 s) mod 4 = 0")
  case True
  then have "length (utf8 s) = 4 * (length (utf8 s) div 4)" by presburger
  from decode_groups_cases [OF this, of _ 0 "[]"] True show ?thesis
    by (auto simp: decode_def Let_def split: if_splits)
qed (simp add: b64_wf_def decode_def Let_def)


section \<open>Properties\<close>

text \<open>C37: Decoding undoes encoding, for every byte sequence.\<close>
theorem base64_decode_encode: "decode (encode data) = Ok data"
  by (rule base64.dec_enc) simp

text \<open>
  C38: The decoder accepts exactly the padded texts over the alphabet: the length is a multiple of four,
  and the letters are followed by at most two padding characters; the result then has three
  bytes per group less the padding. Everything else is an error, and nothing panics.
\<close>
theorem base64_accepts:
  "if b64_wf (utf8 s)
   then \<exists>bs. decode s = Ok bs \<and> length bs = 3 * (length (utf8 s) div 4) - length (padding (utf8 s))
   else \<exists>e. decode s = Err e"
  by (rule decode_cases)

text \<open>The encoded text has four bytes per started group of three, and it is well-formed.\<close>
lemma base64_encode_shape:
  "length (utf8 (encode data)) = 4 * ((length data + 2) div 3) \<and> b64_wf (utf8 (encode data))"
  using decode_cases [of "encode data"] by (auto simp: encode_length decode_encode split: if_splits)

text \<open>The unused bits of a last group are not looked at: two texts stand for the same two bytes.\<close>

lemma trailing_bits_ignored:
  "decode (str ''aGl='') = Ok [104, 105] \<and> decode (str ''aGk='') = Ok [104, 105]"
  by code_simp

end
