(* ===== verification/Errors.thy ===== *)
theory Errors
  imports StdText
begin

text \<open>\<open>rust/src/error.rs\<close>: the one error type of the crate, and what callers may ask of it.\<close>

section \<open>I/O errors of the standard library\<close>

text \<open>
  \<open>std::io::Error\<close>: the crate looks at \<open>kind()\<close>, and shows the text. Only the kinds the crate
  distinguishes or constructs are named; the others are one constructor.
\<close>

datatype io_kind = WouldBlock | TimedOut | Interrupted | InvalidInput | OtherKind nat

record io_error =
  kind :: io_kind
  io_text :: rstring

section \<open>The error type\<close>

datatype error =
    Response (code_of: rstring) (message_of: rstring)
  | Protocol rstring
  | Timeout rstring
  | Io io_error
  | Closed

definition CODE_SQLITE_ERROR :: rstring where
  "CODE_SQLITE_ERROR = str ''sqlite_error''"

definition CODE_BAD_REQUEST :: rstring where
  "CODE_BAD_REQUEST = str ''bad_request''"

definition CODE_IO_ERROR :: rstring where
  "CODE_IO_ERROR = str ''io_error''"

definition CODE_UNSUPPORTED_OP :: rstring where
  "CODE_UNSUPPORTED_OP = str ''unsupported_op''"

definition CODE_READ_ONLY :: rstring where
  "CODE_READ_ONLY = str ''read_only''"

fun code :: "error \<Rightarrow> rstring option" where
  "code (Response c m) = Some c"
| "code _ = None"

definition is_code :: "error \<Rightarrow> rstring \<Rightarrow> bool" where
  "is_code e c \<longleftrightarrow> code e = Some c"

text \<open>\<open>Display\<close> and \<open>source()\<close>.\<close>

fun display_error :: "error \<Rightarrow> rstring" where
  "display_error (Response c m) = c @ str '': '' @ m"
| "display_error (Protocol m) = str ''protocol error: '' @ m"
| "display_error (Timeout m) = m"
| "display_error (Io e) = io_text e"
| "display_error Closed = str ''connection is closed''"

fun error_source :: "error \<Rightarrow> io_error option" where
  "error_source (Io e) = Some e"
| "error_source _ = None"

definition from_io :: "io_error \<Rightarrow> error" where
  "from_io e = Io e"

lemma is_code_iff: "is_code e c \<longleftrightarrow> (\<exists>m. e = Response c m)"
  by (cases e) (auto simp: is_code_def)

text \<open>The five codes are pairwise different, so a response is at most one of the five kinds.\<close>

definition stable_codes :: "rstring list" where
  "stable_codes = [CODE_SQLITE_ERROR, CODE_BAD_REQUEST, CODE_IO_ERROR, CODE_UNSUPPORTED_OP, CODE_READ_ONLY]"

lemma distinct_codes: "distinct stable_codes"
  by (simp add: stable_codes_def CODE_SQLITE_ERROR_def CODE_BAD_REQUEST_def CODE_IO_ERROR_def
      CODE_UNSUPPORTED_OP_def CODE_READ_ONLY_def)

end
