(* ===== verification/Encode.thy ===== *)
theory Encode
  imports JsonRoundtrip Base64 Errors
begin

text \<open>
  \<open>rust/src/value.rs\<close> and \<open>rust/src/codec/encode.rs\<close>: the values of the database and how values,
  parameter lists and requests become JSON text.
\<close>

section \<open>Values\<close>

datatype val =
    Null
  | Integer i64
  | Real f64
  | Text rstring
  | Blob bytes

type_synonym row = "val list"

definition INT64_MIN :: i64 where
  "INT64_MIN = word_of_int (- (2 ^ 63))"

definition INT64_MAX :: i64 where
  "INT64_MAX = word_of_int (2 ^ 63 - 1)"

definition from_i64 :: "i64 \<Rightarrow> val" where
  "from_i64 v = Integer v"

definition from_i32 :: "32 word \<Rightarrow> val" where
  "from_i32 v = Integer (scast v)"

definition from_u32 :: "u32 \<Rightarrow> val" where
  "from_u32 v = Integer (ucast v)"

definition from_f64 :: "f64 \<Rightarrow> val" where
  "from_f64 v = Real v"

text \<open>Widening an \<open>f32\<close> is exact: its smallest positive number is \<open>2^-149\<close>. A NaN stays a (quiet) NaN.\<close>

definition widen_f32 :: "32 word \<Rightarrow> f64" where
  "widen_f32 w =
     (let k = unat w mod 2 ^ 31; e = k div 2 ^ 23; m = k mod 2 ^ 23 in
      make_f64 (2 ^ 31 \<le> unat w)
        (if e = 255 then inf_mag + (if m = 0 then 0 else m * 2 ^ 29 mod 2 ^ 51 + 2 ^ 51)
         else round_frac (if e = 0 then m else (2 ^ 23 + m) * 2 ^ (e - 1)) (2 ^ 149)))"

definition from_f32 :: "32 word \<Rightarrow> val" where
  "from_f32 v = Real (widen_f32 v)"

definition from_string :: "rstring \<Rightarrow> val" where
  "from_string v = Text v"

definition from_bytes :: "bytes \<Rightarrow> val" where
  "from_bytes v = Blob v"

fun from_option :: "('a \<Rightarrow> val) \<Rightarrow> 'a option \<Rightarrow> val" where
  "from_option into (Some v) = into v"
| "from_option into None = Null"

section \<open>Encoding\<close>

definition real_token :: "f64 \<Rightarrow> rstring" where
  "real_token v =
     (let s = debug_f64 v in
      if \<not> list_ex (\<lambda>c. c = 46 \<or> c = 101 \<or> c = 69) s then s @ str ''.0'' else s)"

fun encode_value :: "val \<Rightarrow> (json, error) result" where
  "encode_value Null = Ok JNull"
| "encode_value (Integer i) = Ok (JNumber (NumberToken (show_i64 i)))"
| "encode_value (Real f) =
     (if \<not> is_finite f then
        Err (Protocol (str ''REAL param must be finite (san-db-ox rejects NaN/Inf in params): ''
                       @ debug_f64 f))
      else Ok (JNumber (NumberToken (real_token f))))"
| "encode_value (Text s) = Ok (JString s)"
| "encode_value (Blob b) = Ok (JArray [json_str (encode b)])"

definition param_error :: "nat \<Rightarrow> error \<Rightarrow> error" where
  "param_error i e =
     (case e of
        Protocol m \<Rightarrow> Protocol (str ''params['' @ show_nat i @ str '']: '' @ m)
      | other \<Rightarrow> other)"

fun encode_items :: "nat \<Rightarrow> val list \<Rightarrow> json list \<Rightarrow> (json list, error) result" where
  "encode_items i [] items = Ok items"
| "encode_items i (v # vs) items =
     and_then (map_err (param_error i) (encode_value v))
       (\<lambda>encoded. encode_items (i + 1) vs (items @ [encoded]))"

definition encode_params :: "val list \<Rightarrow> (json option, error) result" where
  "encode_params params =
     (if params = [] then Ok None
      else and_then (encode_items 0 params []) (\<lambda>items. Ok (Some (JArray items))))"

definition encode_request_line :: "(string \<times> json) list \<Rightarrow> bytes" where
  "encode_request_line kvs =
     (let obj = JObject (map (\<lambda>(k, v). (str k, v)) kvs)
      in utf8 (write_json obj @ [10]))"

section \<open>The tokens are JSON numbers\<close>

text \<open>ASCII digits as bytes.\<close>

lemma digit_byte: "is_digit c \<Longrightarrow> is_digit_byte (byte c)"
  by (simp add: is_digit_def is_digit_byte_def word_le_nat_alt unat_byte)

lemma digits_bytes: "list_all is_digit ds \<Longrightarrow> utf8 ds = map byte ds \<and> list_all is_digit_byte (map byte ds)"
  by (subst utf8_ascii) (auto simp: list_all_iff is_digit_def intro!: digit_byte [unfolded is_digit_def])

lemma json_intI: "digits1 ds \<Longrightarrow> hd ds \<noteq> 48 \<Longrightarrow> json_int ds \<and> json_int (45 # ds)"
  unfolding json_int_def by blast

lemma json_int_show_nat: "json_int (utf8 (show_nat n)) \<and> json_int (45 # utf8 (show_nat n))"
proof -
  note d = digits_bytes [OF show_nat_digits [of n]]
  obtain c t where c: "show_nat n = c # t" "is_digit c"
    using show_nat_hd_digit [of n] by (cases "show_nat n") auto
  have "show_nat n = [48] \<or> c \<noteq> 48" using show_nat_hd_nonzero [of n] c(1) by (cases "n = 0") auto
  then have "utf8 (show_nat n) = [48] \<or> digits1 (utf8 (show_nat n)) \<and> hd (utf8 (show_nat n)) \<noteq> 48"
    using d c byte_eq_byte [of c 48] by (auto simp: digits1_iff is_digit_def encode_ascii)
  then show ?thesis unfolding json_int_def by blast
qed

lemma json_number_int: "json_int i \<Longrightarrow> json_number i"
  unfolding json_number_def
  by (rule exI [of _ i], rule exI [of _ "[]"], rule exI [of _ "[]"]) (simp add: json_frac_def json_exp_def)

lemma json_number_i64: "json_number (utf8 (show_i64 w))"
  using json_int_show_nat by (auto simp: show_i64_def show_int_def encode_ascii intro: json_number_int)

lemma digits1_ascii: "list_all is_digit ds \<Longrightarrow> ds \<noteq> [] \<Longrightarrow> digits1 (utf8 ds)"
  using digits_bytes [of ds] by (simp add: digits1_iff)

lemma json_expI: "digits1 ds \<Longrightarrow> sg = [] \<or> sg = [43] \<or> sg = [45] \<Longrightarrow> json_exp (101 # sg @ ds)"
  unfolding json_exp_def by blast

lemma json_number_parts:
  assumes "json_int i" "list_all is_digit f"
    "e = [] \<or> (\<exists>x. e = 101 # show_int x)"
  shows "json_number (i @ utf8 ((if f = [] then [] else 46 # f) @ e))"
proof -
  have "json_frac (utf8 (if f = [] then [] else 46 # f))"
    using assms(2) digits1_ascii by (auto simp: json_frac_def encode_ascii)
  moreover have "json_exp (utf8 e)"
  proof (cases "e = []")
    case False
    then obtain x where x: "e = 101 # show_int x" using assms(3) by blast
    have d: "digits1 (utf8 (show_nat n))" for n by (intro digits1_ascii) (simp_all add: show_nat_digits)
    have "utf8 e = (if x < 0 then 101 # [45] @ utf8 (show_nat (nat (- x))) else 101 # [] @ utf8 (show_nat (nat x)))"
      by (simp add: x show_int_def encode_ascii)
    with json_expI [OF d, of "[45]"] json_expI [OF d, of "[]"] show ?thesis by auto
  qed (simp add: json_exp_def)
  ultimately show ?thesis
    using assms(1) unfolding json_number_def by (metis append_assoc utf8_append)
qed

lemma json_number_point:
  "json_int i \<Longrightarrow> list_all is_digit f \<Longrightarrow> f \<noteq> [] \<Longrightarrow> json_number (i @ utf8 (46 # f))"
  using json_number_parts [of i f "[]"] by simp

lemma strip_zeros_pos: "strip_zeros d p = (d', p') \<Longrightarrow> 0 < d \<Longrightarrow> 0 < d'"
proof (induction d p rule: strip_zeros.induct)
  case (1 d p)
  then show ?case by (cases "0 < d \<and> d mod 10 = 0") (auto simp: strip_zeros.simps [of d])
qed

lemma shortest_pos: "k < inf_mag \<Longrightarrow> k \<noteq> 0 \<Longrightarrow> shortest k = (d, p) \<Longrightarrow> 0 < d"
  using round_shortest [of k d p] by (cases "d = 0") auto

lemma json_number_debug_mag:
  assumes "k < inf_mag" "s = [] \<or> s = [45]"
  shows "json_number (utf8 (s @ debug_mag k))"
proof -
  obtain d p where d: "shortest k = (d, p)" by (cases "shortest k")
  obtain c t where ds: "show_nat d = c # t" "is_digit c" "list_all is_digit t"
    using show_nat_digits [of d] by (cases "show_nat d") auto
  have sg: "json_int (utf8 s @ utf8 (show_nat n))" for n
    using assms(2) json_int_show_nat [of n] by (auto simp: encode_ascii)
  have zero: "json_int (utf8 s @ [48])" using sg [of 0] by (simp add: encode_ascii)
  show ?thesis
  proof (cases "k = 0")
    case True
    have "json_number ((utf8 s @ [48]) @ utf8 [46, 48])"
      by (rule json_number_point [OF zero]) simp_all
    then show ?thesis by (simp add: True debug_mag_def encode_ascii split: prod.splits)
  next
    case False
    have c: "c \<noteq> 48"
      using shortest_pos [OF assms(1) False d] show_nat_hd_nonzero [of d] ds(1) by simp
    have ints: "json_int (utf8 s @ utf8 (c # a))" if "list_all is_digit a" for a
    proof -
      have "digits1 (utf8 (c # a))" using that ds(2) by (intro digits1_ascii) auto
      moreover have "hd (utf8 (c # a)) \<noteq> 48"
        using ds(2) c byte_eq_byte [of c 48] by (simp add: encode_ascii is_digit_def)
      ultimately show ?thesis using assms(2) json_intI by (auto simp: encode_ascii)
    qed
    have "json_number (utf8 (s @ exp_form (c # t) x))" for x
    proof -
      have "json_number ((utf8 s @ utf8 [c]) @ utf8 ((if t = [] then [] else 46 # t) @ 101 # show_int (x - 1)))"
        using ints [of "[]"] ds(3) by (intro json_number_parts) auto
      then show ?thesis by (auto simp: exp_form_def)
    qed
    moreover have "json_number (utf8 (s @ point_form (c # t) x))" for x
    proof -
      consider (small) "x \<le> 0" | (mid) "0 < x" "x < int (length (c # t))"
        | (large) "0 < x" "int (length (c # t)) \<le> x" by linarith
      then show ?thesis
      proof cases
        case small
        have "json_number ((utf8 s @ [48]) @ utf8 (46 # replicate (nat (- x)) 48 @ c # t))"
          using ds by (intro json_number_point [OF zero]) (auto simp: list_all_iff)
        with small show ?thesis by (simp add: point_form_def encode_ascii)
      next
        case mid
        then obtain j where j: "nat x = Suc j" by (cases "nat x") auto
        then have jt: "j < length t" using mid by simp
        have "json_number ((utf8 s @ utf8 (c # take j t)) @ utf8 (46 # drop j t))"
          using ds(3) jt by (intro json_number_point ints) (auto simp: list_all_iff dest: in_set_takeD in_set_dropD)
        then show ?thesis using mid j by (simp add: point_form_def Let_def)
      next
        case large
        have "json_number ((utf8 s @ utf8 (c # t @ replicate (nat (x - int (length (c # t)))) 48)) @ utf8 [46, 48])"
          using ds(3) by (intro json_number_point ints) (auto simp: list_all_iff)
        with large show ?thesis by (simp add: point_form_def Let_def)
      qed
    qed
    ultimately show ?thesis
      using False by (simp add: debug_mag_def d Let_def ds(1))
  qed
qed

lemma real_token_debug: "is_finite v \<Longrightarrow> real_token v = debug_f64 v"
  using debug_f64_real [of v] by (auto simp: real_token_def list_ex_iff Let_def)

lemma json_number_real: "is_finite v \<Longrightarrow> json_number (utf8 (real_token v))"
  using json_number_debug_mag [of "mag v" "[45]"] json_number_debug_mag [of "mag v" "[]"]
  by (auto simp: real_token_debug debug_f64_def is_finite_def)


section \<open>What encoding gives\<close>

text \<open>A text value holds Unicode scalar values, as every \<open>String\<close> does.\<close>

fun wf_val :: "val \<Rightarrow> bool" where
  "wf_val (Text s) = valid_string s"
| "wf_val _ = True"

fun encodable :: "val \<Rightarrow> bool" where
  "encodable (Real f) = is_finite f"
| "encodable _ = True"

text \<open>The tree an encodable value becomes.\<close>

fun json_of :: "val \<Rightarrow> json" where
  "json_of Null = JNull"
| "json_of (Integer i) = JNumber (NumberToken (show_i64 i))"
| "json_of (Real f) = JNumber (NumberToken (real_token f))"
| "json_of (Text s) = JString s"
| "json_of (Blob b) = JArray [JString (encode b)]"

lemma encode_value_Ok: "encode_value v = Ok j \<longleftrightarrow> encodable v \<and> j = json_of v"
  by (cases v) (auto simp: json_str_def)

lemma encode_value_bad:
  "\<not> encodable v \<Longrightarrow> \<exists>f. v = Real f \<and> encode_value v = Err (Protocol
     (str ''REAL param must be finite (san-db-ox rejects NaN/Inf in params): '' @ debug_f64 f))"
  by (cases v) auto

lemma encode_value_not_Panic [simp]: "encode_value v \<noteq> Panic"
  by (cases v) auto

lemma utf8_length_valid: "\<forall>c\<in>set s. c < 128 \<Longrightarrow> valid_string s"
  by (rule valid_string_ascii)

lemma encode_ascii_chars: "c \<in> set (encode data) \<Longrightarrow> c < 128"
proof -
  have "b64_wf (utf8 (encode data))"
    using decode_cases [of "encode data"] by (auto simp: decode_encode split: if_splits)
  then have pad: "\<forall>b\<in>set (dropWhile is_b64 (utf8 (encode data))). b = 61"
    by (simp add: b64_wf_def padding_def list_all_iff)
  have abc: "unat b < 128" if "is_b64 b" for b
    using that by (auto simp: is_b64_def word_le_nat_alt)
  have "\<forall>b\<in>set (takeWhile is_b64 (utf8 (encode data)) @ dropWhile is_b64 (utf8 (encode data))). unat b < 128"
    using pad abc by (auto dest: set_takeWhileD simp del: takeWhile_dropWhile_id)
  then have "\<forall>b\<in>set (utf8 (encode data)). unat b < 128"
    unfolding takeWhile_dropWhile_id .
  then show "c \<in> set (encode data) \<Longrightarrow> c < 128" using ascii_bytes_inv by blast
qed

lemma wf_json_of: "encodable v \<Longrightarrow> wf_val v \<Longrightarrow> wf_json (json_of v)"
  by (cases v) (auto simp: json_number_i64 json_number_real intro!: valid_string_ascii dest: encode_ascii_chars)

lemma encode_items_spec:
  "if list_all encodable vs then encode_items i vs items = Ok (items @ map json_of vs)
   else \<exists>k f. k < length vs \<and> vs ! k = Real f \<and> \<not> is_finite f \<and> list_all encodable (take k vs) \<and>
     encode_items i vs items = Err (Protocol (str ''params['' @ show_nat (i + k) @ str '']: '' @
       str ''REAL param must be finite (san-db-ox rejects NaN/Inf in params): '' @ debug_f64 f))"
proof (induction vs arbitrary: i items)
  case (Cons v vs)
  show ?case
  proof (cases "encodable v")
    case True
    then have v: "encode_value v = Ok (json_of v)" by (simp add: encode_value_Ok)
    show ?thesis
    proof (cases "list_all encodable vs")
      case all: True
      with Cons.IH [of "i + 1" "items @ [json_of v]"] True v show ?thesis by simp
    next
      case False
      with Cons.IH [of "i + 1" "items @ [json_of v]"] obtain k f where
        "k < length vs" "vs ! k = Real f" "\<not> is_finite f" "list_all encodable (take k vs)"
        "encode_items (i + 1) vs (items @ [json_of v]) = Err (Protocol (str ''params['' @ show_nat (i + 1 + k)
           @ str '']: '' @ str ''REAL param must be finite (san-db-ox rejects NaN/Inf in params): '' @ debug_f64 f))"
        by auto
      with True v False show ?thesis by (auto intro!: exI [of _ "Suc k"] exI [of _ f])
    qed
  next
    case False
    then obtain f where "v = Real f" "\<not> is_finite f" by (cases v) auto
    then have "(v # vs) ! 0 = Real f \<and> list_all encodable (take 0 (v # vs)) \<and> encode_items i (v # vs) items =
      Err (Protocol (str ''params['' @ show_nat (i + 0) @ str '']: '' @
       str ''REAL param must be finite (san-db-ox rejects NaN/Inf in params): '' @ debug_f64 f))"
      by (simp add: param_error_def)
    with False \<open>\<not> is_finite f\<close> show ?thesis by fastforce
  qed
qed simp


lemma encode_request_line_spec:
  assumes "\<And>k v. (k, v) \<in> set kvs \<Longrightarrow> wf_json v \<and> list_all (\<lambda>c. of_char c < (128 :: nat)) k"
  shows "\<exists>text. encode_request_line kvs = text @ [10] \<and> 10 \<notin> set text
    \<and> parse text = Ok (JObject (map (\<lambda>(k, v). (str k, v)) kvs))"
proof -
  let ?obj = "JObject (map (\<lambda>(k, v). (str k, v)) kvs)"
  have "wf_json ?obj"
    using assms by (auto simp: list_all_iff str_def intro!: valid_string_ascii)
  then have "parse (utf8 (write_json ?obj)) = Ok ?obj" "\<forall>b\<in>set (utf8 (write_json ?obj)). 32 \<le> unat b"
    using parse_write write_json_bytes_ge by blast+
  moreover have "encode_request_line kvs = utf8 (write_json ?obj) @ [10]"
    by (simp add: encode_request_line_def encode_ascii)
  ultimately show ?thesis by fastforce
qed

end
