(* ===== verification/Decode.thy ===== *)
theory Decode
  imports Encode
begin

text \<open>
  \<open>rust/src/codec/decode.rs\<close>: parsed JSON becomes values and results. Every failure is a
  \<open>Protocol\<close> error; what the encoder makes of a value decodes to that value.
\<close>

section \<open>Results\<close>

record hello =
  protocol :: i64
  hello_version :: rstring
  product :: rstring

record query_result =
  columns :: "rstring list"
  rows :: "row list"

record exec_result =
  rows_affected :: i64
  last_insert_id :: i64

record snapshot_result =
  path :: rstring

record inspect_result =
  has_data :: bool
  data_version :: "i64 option"
  data_length :: "i64 option"
  data_source :: rstring
  is_read_only :: bool

record tables_result =
  tables_of :: "rstring list"

record schema_result =
  schema_of :: "rstring list"

record dump_result =
  sql :: rstring

record decoded_response =
  resp_ok :: bool
  resp_fields :: json

definition display_json_error :: "json_error \<Rightarrow> rstring" where
  "display_json_error e = (case e of JsonError m \<Rightarrow> m)"

definition display_base64_error :: "base64_error \<Rightarrow> rstring" where
  "display_base64_error e = (case e of Base64Error m \<Rightarrow> m)"

section \<open>Fields\<close>

definition required :: "json \<Rightarrow> string \<Rightarrow> (json, error) result" where
  "required v key =
     ok_or (get v (str key)) (Protocol (str ''response missing field '' @ debug_lit key))"

definition field_error :: "string \<Rightarrow> string \<Rightarrow> error" where
  "field_error key what = Protocol (str ''response field '' @ debug_lit key @ str what)"

definition required_str :: "json \<Rightarrow> string \<Rightarrow> (rstring, error) result" where
  "required_str v key =
     and_then (required v key) (\<lambda>f. ok_or (as_str f) (field_error key '' is not a string''))"

definition required_bool :: "json \<Rightarrow> string \<Rightarrow> (bool, error) result" where
  "required_bool v key =
     and_then (required v key) (\<lambda>f. ok_or (as_bool f) (field_error key '' is not a bool''))"

definition int_field_error :: "string \<Rightarrow> number_token \<Rightarrow> error" where
  "int_field_error key n =
     Protocol (str ''response field '' @ debug_lit key @ str '' is not a valid int64: '' @ raw n)"

definition required_int :: "json \<Rightarrow> string \<Rightarrow> (i64, error) result" where
  "required_int v key =
     and_then (required v key) (\<lambda>f.
     and_then (ok_or (as_number f) (field_error key '' is not an integer'')) (\<lambda>n.
       ok_or (as_i64 n) (int_field_error key n)))"

definition required_optional_int :: "json \<Rightarrow> string \<Rightarrow> (i64 option, error) result" where
  "required_optional_int v key =
     and_then (required v key) (\<lambda>f.
       if is_null f then Ok None
       else
         and_then (ok_or (as_number f) (field_error key '' is not an integer or null'')) (\<lambda>n.
         and_then (ok_or (as_i64 n) (int_field_error key n)) (\<lambda>i. Ok (Some i))))"

fun string_items :: "string \<Rightarrow> json list \<Rightarrow> rstring list \<Rightarrow> (rstring list, error) result" where
  "string_items key [] out = Ok out"
| "string_items key (item # items) out =
     and_then (ok_or (as_str item) (field_error key '' is not a string array''))
       (\<lambda>s. string_items key items (out @ [s]))"

definition required_str_list :: "json \<Rightarrow> string \<Rightarrow> (rstring list, error) result" where
  "required_str_list v key =
     and_then (required v key) (\<lambda>f.
     and_then (ok_or (as_array f) (field_error key '' is not an array'')) (\<lambda>arr.
       string_items key arr []))"

section \<open>Values\<close>

fun decode_value :: "json \<Rightarrow> (val, error) result" where
  "decode_value JNull = Ok Null"
| "decode_value (JBool b) =
     Err (Protocol (str ''unexpected boolean value in response: ''
                    @ (if b then str ''true'' else str ''false'')))"
| "decode_value (JNumber n) =
     (if is_real n then
        and_then (ok_or (as_f64 n) (Protocol (str ''invalid REAL token in response: '' @ raw n)))
          (\<lambda>f. Ok (Real f))
      else
        and_then (ok_or (as_i64 n)
            (Protocol (str ''integer value out of int64 range in response: '' @ raw n)))
          (\<lambda>i. Ok (Integer i)))"
| "decode_value (JString s) = Ok (Text s)"
| "decode_value (JArray items) =
     (if length items \<noteq> 1 then
        Err (Protocol (str ''protocol violation: BLOB array must have exactly 1 element, got ''
                       @ show_nat (length items)))
      else
        and_then (ok_or (as_str (items ! 0))
            (Protocol (str ''protocol violation: BLOB array element is not a string'')))
          (\<lambda>s. and_then (map_err (\<lambda>e. Protocol (str ''invalid BLOB base64: '' @ display_base64_error e))
                        (decode s))
            (\<lambda>bytes. Ok (Blob bytes))))"
| "decode_value (JObject ps) = Err (Protocol (str ''unexpected object value in response''))"

definition row_error :: "nat \<Rightarrow> error \<Rightarrow> error" where
  "row_error i e =
     (case e of
        Protocol m \<Rightarrow> Protocol (str ''rows['' @ show_nat i @ str '']: '' @ m)
      | other \<Rightarrow> other)"

fun decode_cells :: "nat \<Rightarrow> json list \<Rightarrow> row \<Rightarrow> (row, error) result" where
  "decode_cells i [] decoded = Ok decoded"
| "decode_cells i (v # vs) decoded =
     and_then (map_err (row_error i) (decode_value v)) (\<lambda>x. decode_cells i vs (decoded @ [x]))"

fun decode_row_loop :: "nat \<Rightarrow> json list \<Rightarrow> row list \<Rightarrow> (row list, error) result" where
  "decode_row_loop i [] rs = Ok rs"
| "decode_row_loop i (r # arr) rs =
     and_then (ok_or (as_array r)
         (Protocol (str ''rows['' @ show_nat i @ str ''] is not an array''))) (\<lambda>row_arr.
     and_then (decode_cells i row_arr []) (\<lambda>decoded. decode_row_loop (i + 1) arr (rs @ [decoded])))"

definition decode_rows :: "json \<Rightarrow> (row list, error) result" where
  "decode_rows r =
     and_then (ok_or (as_array r) (Protocol (str ''rows field is not an array'')))
       (\<lambda>arr. decode_row_loop 0 arr [])"

section \<open>Lines\<close>

definition decode_hello :: "bytes \<Rightarrow> (hello, error) result" where
  "decode_hello line =
     and_then (map_err (\<lambda>e. Protocol (str ''invalid hello line: '' @ display_json_error e)) (parse line))
       (\<lambda>v. if as_object v = None then Err (Protocol (str ''hello line is not a JSON object''))
            else
              and_then (required_int v ''protocol'') (\<lambda>p.
              and_then (required_str v ''version'') (\<lambda>ver.
              and_then (required_str v ''product'') (\<lambda>prod.
                Ok \<lparr>protocol = p, hello_version = ver, product = prod\<rparr>))))"

definition decode_response_line :: "bytes \<Rightarrow> (decoded_response, error) result" where
  "decode_response_line line =
     and_then (map_err (\<lambda>e. Protocol (str ''invalid response line: '' @ display_json_error e)) (parse line))
       (\<lambda>v. if as_object v = None then Err (Protocol (str ''response line is not a JSON object''))
            else
              let ok = (case Option.bind (get v (str ''ok'')) as_bool of Some b \<Rightarrow> b | None \<Rightarrow> False)
              in Ok \<lparr>resp_ok = ok, resp_fields = v\<rparr>)"

definition response_error :: "json \<Rightarrow> error option" where
  "response_error v =
     do {
       e \<leftarrow> get v (str ''error'');
       c0 \<leftarrow> get e (str ''code'');
       c \<leftarrow> as_str c0;
       m0 \<leftarrow> get e (str ''message'');
       m \<leftarrow> as_str m0;
       Some (Response c m)
     }"

section \<open>Results of the operations\<close>

definition decode_query_response :: "json \<Rightarrow> (query_result, error) result" where
  "decode_query_response v =
     and_then (required_str_list v ''columns'') (\<lambda>cs.
     and_then (required v ''rows'') (\<lambda>r.
     and_then (decode_rows r) (\<lambda>rs. Ok \<lparr>columns = cs, rows = rs\<rparr>)))"

definition decode_exec_response :: "json \<Rightarrow> (exec_result, error) result" where
  "decode_exec_response v =
     and_then (required_int v ''rows_affected'') (\<lambda>a.
     and_then (required_int v ''last_insert_id'') (\<lambda>i.
       Ok \<lparr>rows_affected = a, last_insert_id = i\<rparr>))"

definition decode_snapshot_response :: "json \<Rightarrow> (snapshot_result, error) result" where
  "decode_snapshot_response v = and_then (required_str v ''path'') (\<lambda>p. Ok \<lparr>path = p\<rparr>)"

definition decode_inspect_response :: "json \<Rightarrow> (inspect_result, error) result" where
  "decode_inspect_response v =
     and_then (required_bool v ''has_data'') (\<lambda>h.
     and_then (required_optional_int v ''version'') (\<lambda>ver.
     and_then (required_optional_int v ''data_length'') (\<lambda>len.
     and_then (required_str v ''source'') (\<lambda>s.
     and_then (required_bool v ''read_only'') (\<lambda>ro.
       Ok \<lparr>has_data = h, data_version = ver, data_length = len, data_source = s,
           is_read_only = ro\<rparr>)))))"

definition decode_tables_response :: "json \<Rightarrow> (tables_result, error) result" where
  "decode_tables_response v =
     and_then (required_str_list v ''tables'') (\<lambda>ts. Ok \<lparr>tables_of = ts\<rparr>)"

definition decode_schema_response :: "json \<Rightarrow> (schema_result, error) result" where
  "decode_schema_response v =
     and_then (required_str_list v ''schema'') (\<lambda>ss. Ok \<lparr>schema_of = ss\<rparr>)"

definition decode_dump_response :: "json \<Rightarrow> (dump_result, error) result" where
  "decode_dump_response v = and_then (required_str v ''sql'') (\<lambda>s. Ok \<lparr>sql = s\<rparr>)"

section \<open>Every failure is a protocol error\<close>

text \<open>\<open>codec_result r\<close>: a value, or a \<open>Protocol\<close> error; never a panic or another error.\<close>

definition codec_result :: "('a, error) result \<Rightarrow> bool" where
  "codec_result r \<longleftrightarrow> (\<exists>x. r = Ok x) \<or> (\<exists>m. r = Err (Protocol m))"

named_theorems codec_intros

lemma codec_Ok [simp, codec_intros]: "codec_result (Ok x)"
  and codec_Protocol [simp, codec_intros]: "codec_result (Err (Protocol m))"
  by (auto simp: codec_result_def)

lemma codec_and_then [codec_intros]:
  "codec_result r \<Longrightarrow> (\<And>x. r = Ok x \<Longrightarrow> codec_result (f x)) \<Longrightarrow> codec_result (and_then r f)"
  by (auto simp: codec_result_def)

lemma codec_ok_or [codec_intros]: "codec_result (ok_or x (Protocol m))"
  by (cases x) auto

lemma codec_ok_or_field [codec_intros]:
  "codec_result (ok_or x (field_error k w))" "codec_result (ok_or x (int_field_error k n))"
  by (cases x; simp add: field_error_def int_field_error_def)+

lemma codec_map_err [codec_intros]:
  "codec_result r \<Longrightarrow> codec_result (map_err (row_error i) r)"
  by (auto simp: codec_result_def row_error_def)

lemma codec_parse [codec_intros]: "codec_result (map_err (\<lambda>e. Protocol (g e)) (parse line))"
  using parse_not_Panic [of line] by (cases "parse line") auto

lemma codec_base64 [codec_intros]: "codec_result (map_err (\<lambda>e. Protocol (g e)) (decode s))"
  using decode_cases [of s] by (auto split: if_splits)

lemma codec_if [codec_intros]:
  "(b \<Longrightarrow> codec_result r) \<Longrightarrow> (\<not> b \<Longrightarrow> codec_result s) \<Longrightarrow> codec_result (if b then r else s)"
  by simp

lemma codec_required [codec_intros]:
  "codec_result (required v k)" "codec_result (required_str v k)" "codec_result (required_bool v k)"
  "codec_result (required_int v k)" "codec_result (required_optional_int v k)"
  by (auto simp: required_def required_str_def required_bool_def required_int_def
      required_optional_int_def intro!: codec_intros)

lemma codec_string_items [codec_intros]: "codec_result (string_items k items out)"
  by (induction items arbitrary: out) (auto intro!: codec_intros)

lemma codec_required_str_list [codec_intros]: "codec_result (required_str_list v k)"
  by (auto simp: required_str_list_def intro!: codec_intros)

lemma codec_decode_value [codec_intros]: "codec_result (decode_value j)"
  by (cases j) (auto intro!: codec_intros)

lemma codec_decode_cells [codec_intros]: "codec_result (decode_cells i vs out)"
  by (induction vs arbitrary: out) (auto intro!: codec_intros)

lemma codec_decode_row_loop [codec_intros]: "codec_result (decode_row_loop i arr rs)"
  by (induction arr arbitrary: i rs) (auto intro!: codec_intros)

lemma codec_decode_rows [codec_intros]: "codec_result (decode_rows r)"
  by (auto simp: decode_rows_def intro!: codec_intros)

lemma codec_responses:
  "codec_result (decode_query_response v)" "codec_result (decode_exec_response v)"
  "codec_result (decode_snapshot_response v)" "codec_result (decode_inspect_response v)"
  "codec_result (decode_tables_response v)" "codec_result (decode_schema_response v)"
  "codec_result (decode_dump_response v)"
  by (auto simp: decode_query_response_def decode_exec_response_def decode_snapshot_response_def
      decode_inspect_response_def decode_tables_response_def decode_schema_response_def
      decode_dump_response_def intro!: codec_intros)

lemma codec_lines: "codec_result (decode_hello line)" "codec_result (decode_response_line line)"
  by (auto simp: decode_hello_def decode_response_line_def Let_def intro!: codec_intros)

section \<open>Fields, exactly\<close>

lemma required_Ok [simp]: "required v k = Ok f \<longleftrightarrow> get v (str k) = Some f"
  by (simp add: required_def)

lemma required_str_Ok [simp]: "required_str v k = Ok s \<longleftrightarrow> get v (str k) = Some (JString s)"
  by (auto simp: required_str_def)

lemma required_bool_Ok [simp]: "required_bool v k = Ok b \<longleftrightarrow> get v (str k) = Some (JBool b)"
  by (auto simp: required_bool_def)

lemma required_int_Ok [simp]:
  "required_int v k = Ok i \<longleftrightarrow> (\<exists>n. get v (str k) = Some (JNumber n) \<and> as_i64 n = Some i)"
  by (auto simp: required_int_def)

lemma required_optional_int_Ok [simp]:
  "required_optional_int v k = Ok x \<longleftrightarrow>
     (case x of None \<Rightarrow> get v (str k) = Some JNull
      | Some i \<Rightarrow> \<exists>n. get v (str k) = Some (JNumber n) \<and> as_i64 n = Some i)"
  by (auto simp: required_optional_int_def split: option.splits)

lemma string_items_Ok [simp]:
  "string_items k items out = Ok ss \<longleftrightarrow> (\<exists>ts. items = map JString ts \<and> ss = out @ ts)"
proof (induction items arbitrary: out)
  case (Cons i items)
  show ?case
  proof
    assume "string_items k (i # items) out = Ok ss"
    then obtain t ts where "i = JString t" "items = map JString ts" "ss = out @ t # ts"
      using Cons by auto
    then show "\<exists>ts. i # items = map JString ts \<and> ss = out @ ts"
      by (intro exI [of _ "t # ts"]) simp
  next
    assume "\<exists>ts. i # items = map JString ts \<and> ss = out @ ts"
    then obtain t ts where "i = JString t" "items = map JString ts" "ss = out @ t # ts" by auto
    with Cons [of "out @ [t]"] show "string_items k (i # items) out = Ok ss" by auto
  qed
qed auto

lemma required_str_list_Ok [simp]:
  "required_str_list v k = Ok ss \<longleftrightarrow> get v (str k) = Some (JArray (map JString ss))"
  by (auto simp: required_str_list_def)

section \<open>Values, exactly\<close>

lemma decode_value_Ok:
  "decode_value j = Ok v \<longleftrightarrow>
     (case v of
        Null \<Rightarrow> j = JNull
      | Integer i \<Rightarrow> \<exists>n. j = JNumber n \<and> \<not> is_real n \<and> as_i64 n = Some i
      | Real f \<Rightarrow> \<exists>n. j = JNumber n \<and> is_real n \<and> as_f64 n = Some f
      | Text s \<Rightarrow> j = JString s
      | Blob b \<Rightarrow> \<exists>s. j = JArray [JString s] \<and> decode s = Ok b)"
proof (cases j)
  case (JArray items)
  show ?thesis
  proof (cases "\<exists>x. items = [x]")
    case True
    then show ?thesis using JArray by (auto split: val.splits)
  next
    case False
    then have "length items \<noteq> 1" by (auto simp: length_Suc_conv)
    with False JArray show ?thesis by (auto split: val.splits)
  qed
qed (auto split: val.splits)

lemma show_int_ascii: "c \<in> set (show_int i) \<Longrightarrow> c = 45 \<or> is_digit c"
  using show_nat_digits by (auto simp: show_int_def list_all_iff split: if_splits)

lemma not_real_i64: "\<not> is_real (NumberToken (show_i64 i))"
proof -
  have a: "c < 128 \<and> c \<noteq> 46 \<and> c \<noteq> 101 \<and> c \<noteq> 69" if "c \<in> set (show_i64 i)" for c
    using show_int_ascii [of c "sint i"] that by (auto simp: show_i64_def is_digit_def)
  then have u: "utf8 (show_i64 i) = map byte (show_i64 i)" by (intro utf8_ascii) blast
  have "byte c \<noteq> 46 \<and> byte c \<noteq> 101 \<and> byte c \<noteq> 69" if "c \<in> set (show_i64 i)" for c
    using a [OF that] byte_eq_byte [of c 46] byte_eq_byte [of c 101] byte_eq_byte [of c 69] by auto
  then show ?thesis
    unfolding is_real_def number_token.sel u list_ex_iff by auto
qed

lemma is_real_token: "is_finite f \<Longrightarrow> is_real (NumberToken (real_token f))"
proof -
  assume f: "is_finite f"
  then obtain c where c: "c \<in> set (real_token f)" "c = 46 \<or> c = 101"
    using debug_f64_real by (auto simp: real_token_debug)
  then have "set (encode_char c) \<subseteq> set (utf8 (real_token f))"
    by (auto simp: utf8_def)
  with c(2) show ?thesis by (auto simp: is_real_def list_ex_iff encode_ascii)
qed

lemma as_f64_real_token: "is_finite f \<Longrightarrow> as_f64 (NumberToken (real_token f)) = Some f"
  by (simp add: as_f64_def real_token_debug parse_debug_f64)

lemma decode_value_json_of: "encodable v \<Longrightarrow> decode_value (json_of v) = Ok v"
  by (cases v)
     (auto simp: decode_value_Ok not_real_i64 is_real_token as_i64_def parse_show_i64
       as_f64_real_token decode_encode)

interpretation valuec: codec json_of decode_value encodable
  by unfold_locales (rule decode_value_json_of)

section \<open>Rows, exactly\<close>

lemma decode_cells_Ok:
  "decode_cells i vs out = Ok r \<longleftrightarrow> (\<exists>xs. list_all2 (\<lambda>j v. decode_value j = Ok v) vs xs \<and> r = out @ xs)"
  by (induction vs arbitrary: out) (auto simp: list_all2_Cons1)

lemma decode_row_loop_Ok:
  "decode_row_loop i arr out = Ok rs \<longleftrightarrow>
     (\<exists>xs. list_all2 (\<lambda>r x. \<exists>js. r = JArray js \<and> list_all2 (\<lambda>j v. decode_value j = Ok v) js x) arr xs
           \<and> rs = out @ xs)"
  by (induction arr arbitrary: i out) (auto simp: list_all2_Cons1 decode_cells_Ok)

definition row_of :: "row \<Rightarrow> json" where
  "row_of r = JArray (map json_of r)"

lemma decode_rows_row_of:
  assumes "\<forall>r\<in>set rs. list_all encodable r"
  shows "decode_rows (JArray (map row_of rs)) = Ok rs"
proof -
  have "list_all2 (\<lambda>j v. decode_value j = Ok v) (map json_of r) r" if "r \<in> set rs" for r
    using assms that by (auto simp: list_all2_conv_all_nth list_all_length decode_value_json_of)
  then have "list_all2 (\<lambda>r x. \<exists>js. r = JArray js \<and> list_all2 (\<lambda>j v. decode_value j = Ok v) js x) (map row_of rs) rs"
    by (auto simp: list_all2_conv_all_nth row_of_def)
  then show ?thesis by (simp add: decode_rows_def decode_row_loop_Ok)
qed

section \<open>Properties\<close>

text \<open>
  C25: Every value but a non-finite REAL is encoded, and what it is encoded to decodes to the value:
  integers at their full 64 bits, reals to the bit (the sign of zero included), text and BLOBs
  unchanged. A non-finite REAL is refused with a \<open>Protocol\<close> error.
\<close>
theorem value_encode_decode:
  "if encodable v then \<exists>j. encode_value v = Ok j \<and> decode_value j = Ok v
   else \<exists>m. encode_value v = Err (Protocol m)"
  using encode_value_bad [of v] valuec.dec_enc [of v] by (auto simp: encode_value_Ok)

text \<open>
  C32: A parameter list is refused exactly when it has a non-finite REAL, and the error names the first
  one; otherwise the params field is left out exactly for the empty list, and holds the
  values in order.
\<close>
theorem params_encoding:
  "if list_all encodable params
   then encode_params params = Ok (if params = [] then None else Some (JArray (map json_of params)))
   else \<exists>k f. k < length params \<and> params ! k = Real f \<and> \<not> is_finite f
      \<and> list_all encodable (take k params)
      \<and> encode_params params = Err (Protocol (str ''params['' @ show_nat k @ str '']: '' @
          str ''REAL param must be finite (san-db-ox rejects NaN/Inf in params): '' @ debug_f64 f))"
proof (cases "list_all encodable params")
  case True
  then show ?thesis using encode_items_spec [of params 0 "[]"] by (simp add: encode_params_def)
next
  case False
  let ?e = "\<lambda>k f. Protocol (str ''params['' @ show_nat k @ str '']: '' @
          str ''REAL param must be finite (san-db-ox rejects NaN/Inf in params): '' @ debug_f64 f)"
  obtain k f where k: "k < length params" "params ! k = Real f" "\<not> is_finite f"
      "list_all encodable (take k params)" "encode_items 0 params [] = Err (?e (0 + k) f)"
    using encode_items_spec [of params 0 "[]"] False by metis
  then have "encode_params params = Err (?e k f)" by (auto simp: encode_params_def)
  with k(1-4) False show ?thesis by metis
qed

text \<open>
  C33: A request is one line: its text parses back to exactly the fields in their order, and its only
  line break is the last byte.
\<close>
theorem request_is_one_line:
  "\<forall>(k, v)\<in>set kvs. wf_json v \<and> (\<forall>c\<in>set k. of_char c < (128 :: nat)) \<Longrightarrow>
   \<exists>text. encode_request_line kvs = text @ [10] \<and> 10 \<notin> set text
     \<and> parse text = Ok (JObject (map (\<lambda>(k, v). (str k, v)) kvs))"
  by (rule encode_request_line_spec) (fastforce simp: list_all_iff)

lemma request_is_one_line_witness:
  "\<exists>text. encode_request_line [(''op'', JString (str ''query'')), (''sql'', JString [10])] = text @ [10]
     \<and> 10 \<notin> set text
     \<and> parse text = Ok (JObject [(str ''op'', JString (str ''query'')), (str ''sql'', JString [10])])"
  using request_is_one_line [of "[(''op'', JString (str ''query'')), (''sql'', JString [10])]"]
  by (simp add: is_scalar_def)

text \<open>
  Rows written to the wire as JSON text come back unchanged.
\<close>
lemma rows_over_the_wire:
  assumes "\<forall>r\<in>set rs. \<forall>v\<in>set r. encodable v \<and> wf_val v"
  shows "and_then (map_err (\<lambda>_. Protocol []) (parse (utf8 (write_json (JArray (map row_of rs))))))
      decode_rows = Ok rs"
proof -
  have "wf_json (JArray (map row_of rs))"
    using assms wf_json_of by (auto simp: list_all_iff row_of_def)
  then show ?thesis
    using assms decode_rows_row_of [of rs] by (simp add: parse_write list_all_iff)
qed

lemma rows_over_the_wire_witness:
  "and_then (map_err (\<lambda>_. Protocol [])
     (parse (utf8 (write_json (JArray (map row_of [[Integer 7, Null], [Real 0x8000000000000000, Text [233], Blob [255]]]))))))
      decode_rows = Ok [[Integer 7, Null], [Real 0x8000000000000000, Text [233], Blob [255]]]"
  by (rule rows_over_the_wire) (simp add: is_scalar_def is_finite_def mag_def inf_mag_def)

text \<open>
  C34: Whatever a peer sends, decoding a line or a result gives a value or a \<open>Protocol\<close> error: no panic
  and no other error.
\<close>
theorem decoding_fails_only_with_protocol:
  "codec_result (decode_hello line) \<and> codec_result (decode_response_line line)
   \<and> codec_result (decode_query_response v) \<and> codec_result (decode_exec_response v)
   \<and> codec_result (decode_snapshot_response v) \<and> codec_result (decode_inspect_response v)
   \<and> codec_result (decode_tables_response v) \<and> codec_result (decode_schema_response v)
   \<and> codec_result (decode_dump_response v)"
  by (simp add: codec_lines codec_responses)

text \<open>
  C30: A query result is read exactly from an object whose first \<open>columns\<close> field is an array of strings and
  whose first \<open>rows\<close> field is an array of arrays of readable cells, in order.
\<close>
theorem query_response_exact:
  "decode_query_response v = Ok q \<longleftrightarrow>
     get v (str ''columns'') = Some (JArray (map JString (columns q)))
     \<and> (\<exists>arr. get v (str ''rows'') = Some (JArray arr)
          \<and> list_all2 (\<lambda>r x. \<exists>js. r = JArray js \<and> list_all2 (\<lambda>j v. decode_value j = Ok v) js x) arr (rows q))"
  by (cases q) (auto simp: decode_query_response_def decode_rows_def decode_row_loop_Ok)

text \<open>
  A response line is read exactly when it is one JSON object; it counts as successful only when its
  first \<open>ok\<close> field is the literal true.
\<close>
lemma response_line_exact:
  "decode_response_line line = Ok r \<longleftrightarrow>
     (\<exists>ps. parse line = Ok (JObject ps) \<and> resp_fields r = JObject ps
        \<and> (resp_ok r \<longleftrightarrow> map_of ps (str ''ok'') = Some (JBool True)))"
proof -
  have "(case Option.bind (get (JObject ps) (str ''ok'')) as_bool of Some b \<Rightarrow> b | None \<Rightarrow> False)
      \<longleftrightarrow> map_of ps (str ''ok'') = Some (JBool True)" for ps
    by (cases "map_of ps (str ''ok'')") (auto split: option.splits)
  then show ?thesis
    by (cases r) (auto simp: decode_response_line_def Let_def split: if_splits)
qed

text \<open>
  A greeting is read exactly from an object whose protocol is an integer token within 64 bits and whose
  version and product are strings.
\<close>
lemma hello_exact:
  "decode_hello line = Ok h \<longleftrightarrow>
     (\<exists>ps n. parse line = Ok (JObject ps)
        \<and> map_of ps (str ''protocol'') = Some (JNumber n) \<and> as_i64 n = Some (protocol h)
        \<and> map_of ps (str ''version'') = Some (JString (hello_version h))
        \<and> map_of ps (str ''product'') = Some (JString (product h)))"
  by (cases h) (auto simp: decode_hello_def split: if_splits)

end
