(* ===== verification/Nearest.thy ===== *)
theory Nearest
  imports F64 Complex_Main
begin

text \<open>
  What "correctly rounded" means for the number tokens of the protocol, over the reals: among the doubles,
  infinity standing for \<open>2^1024\<close>, the one nearest to the number, and of two as near the one
  with an even significand. The rounding of the model is that function.
\<close>

section \<open>The specification\<close>

text \<open>The value of a magnitude, from its exponent field and its fraction.\<close>

definition mag_value :: "nat \<Rightarrow> real" where
  "mag_value k =
     (let e = k div 2 ^ 52; f = real (k mod 2 ^ 52) / 2 ^ 52 in
      if e = 0 then f * 2 powi (- 1022) else (1 + f) * 2 powi (int e - 1023))"

definition nearest :: "real \<Rightarrow> nat \<Rightarrow> bool" where
  "nearest y k \<longleftrightarrow> k \<le> inf_mag \<and>
     (\<forall>j\<le>inf_mag. \<bar>y - mag_value k\<bar> \<le> \<bar>y - mag_value j\<bar>
        \<and> (\<bar>y - mag_value k\<bar> = \<bar>y - mag_value j\<bar> \<and> j \<noteq> k \<longrightarrow> even k))"

section \<open>Magnitudes are ordered as their values\<close>

lemma mag_value_scaled: "mag_value k = real (scaled k) / 2 ^ 1074"
proof (cases "k div 2 ^ 52")
  case 0
  then have "k < 2 ^ 52" by (simp add: div_eq_0_iff)
  moreover have "(2 :: real) powi (- 1022) / 2 ^ 52 = 1 / 2 ^ 1074"
    by (simp add: power_int_minus field_simps flip: power_add)
  ultimately show ?thesis
    using 0 by (simp add: mag_value_def scaled_def)
next
  case (Suc e)
  then have "\<not> k < 2 ^ 52" by auto
  have "(2 :: real) powi (int (Suc e) - 1023) * 2 powi 1074 = 2 powi (int (Suc e) - 1023 + 1074)"
    by (rule power_int_add [symmetric]) simp
  also have "\<dots> = 2 powi (int e + 52)" by (simp add: algebra_simps)
  also have "\<dots> = 2 ^ e * 2 ^ 52" by (simp add: power_int_add)
  finally have "(2 :: real) powi (int (Suc e) - 1023) = 2 ^ e * 2 ^ 52 / 2 ^ 1074"
    unfolding power_int_numeral by (simp add: eq_divide_eq)
  then have "mag_value k = (1 + real (k mod 2 ^ 52) / 2 ^ 52) * (2 ^ e * 2 ^ 52 / 2 ^ 1074)"
    using Suc by (simp only: mag_value_def Let_def nat.distinct if_False)
  also have "\<dots> = (2 ^ 52 + real (k mod 2 ^ 52)) * 2 ^ e / 2 ^ 1074"
    by (simp only: distrib_right times_divide_eq_right times_divide_eq_left add_divide_distrib) simp
  also have "\<dots> = real (scaled k) / 2 ^ 1074"
    using Suc \<open>\<not> k < 2 ^ 52\<close> by (simp add: scaled_def)
  finally show ?thesis .
qed

lemma scaled_at:
  assumes "s = 0 \<or> 2 ^ 52 \<le> m" "m \<le> 2 ^ 53"
  shows "scaled (s * 2 ^ 52 + m) = m * 2 ^ s"
proof -
  consider (sub) "s = 0" "m < 2 ^ 52" | (normal) "2 ^ 52 \<le> m" "m < 2 ^ 53" | (carry) "m = 2 ^ 53"
    using assms by linarith
  then show ?thesis
  proof cases
    case sub
    then show ?thesis by (simp add: scaled_def)
  next
    case normal
    define r where "r = m - 2 ^ 52"
    have r: "m = 2 ^ 52 + r" "r < 2 ^ 52" using normal by (simp_all add: r_def)
    have k: "s * 2 ^ 52 + m = (s + 1) * 2 ^ 52 + r" by (simp add: r)
    have "(s * 2 ^ 52 + m) div 2 ^ 52 = s + 1" "(s * 2 ^ 52 + m) mod 2 ^ 52 = r"
      unfolding k using r(2) by (simp_all del: mult_Suc)
    then show ?thesis using r by (simp add: scaled_def)
  next
    case carry
    have k: "s * 2 ^ 52 + m = (s + 2) * 2 ^ 52" by (simp add: carry)
    have "(s * 2 ^ 52 + m) div 2 ^ 52 = s + 2" "(s * 2 ^ 52 + m) mod 2 ^ 52 = 0"
      unfolding k by (simp_all only: nonzero_mult_div_cancel_right mod_mult_self2_is_0) simp_all
    then show ?thesis by (simp add: scaled_def carry)
  qed
qed

text \<open>Every magnitude has this form with \<open>m < 2^53\<close>; the next one adds one to \<open>m\<close>.\<close>

lemma scaled_form:
  obtains s m where "k = s * 2 ^ 52 + m" "s = 0 \<or> 2 ^ 52 \<le> m" "m < 2 ^ 53" "scaled k = m * 2 ^ s"
proof (cases "k < 2 ^ 52")
  case True
  then show ?thesis by (intro that [of 0 k]) (simp_all add: scaled_def)
next
  case False
  define e where "e = k div 2 ^ 52 - 1"
  define m where "m = 2 ^ 52 + k mod 2 ^ 52"
  have "k div 2 ^ 52 = Suc e" using False by (simp add: e_def)
  then have "Suc e * 2 ^ 52 + k mod 2 ^ 52 = k" using div_mult_mod_eq [of k "2 ^ 52"] by simp
  then have k: "k = e * 2 ^ 52 + m" by (simp add: m_def)
  have m: "2 ^ 52 \<le> m" "m < 2 ^ 53" by (simp_all add: m_def)
  then show ?thesis using k scaled_at [of e m] by (intro that [of e m]) simp_all
qed

lemma scaled_Suc: "scaled k < scaled (Suc k)"
proof (rule scaled_form [of k])
  fix s m
  assume k: "k = s * 2 ^ 52 + m" "s = 0 \<or> 2 ^ 52 \<le> m" "m < 2 ^ 53" "scaled k = m * 2 ^ s"
  then have "scaled (Suc k) = Suc m * 2 ^ s" using scaled_at [of s "Suc m"] by auto
  with k show ?thesis by simp
qed

lemma scaled_strict_mono: "strict_mono scaled"
  by (simp add: strict_mono_Suc_iff scaled_Suc)

lemma mag_value_less [simp]: "mag_value j < mag_value k \<longleftrightarrow> j < k"
  using scaled_strict_mono by (simp add: mag_value_scaled divide_less_cancel strict_mono_less)

lemma mag_value_le [simp]: "mag_value j \<le> mag_value k \<longleftrightarrow> j \<le> k"
  by (simp flip: not_less)

section \<open>The nearest magnitude\<close>

lemma nearest_unique:
  assumes "nearest y k" "nearest y l"
  shows "k = l"
proof -
  have "\<not> a < b" if "nearest y a" "nearest y b" for a b
  proof
    assume "a < b"
    have d: "\<bar>y - mag_value a\<bar> = \<bar>y - mag_value b\<bar>"
      using that unfolding nearest_def by (meson order_antisym)
    then have "even a" "even b" using that \<open>a < b\<close> unfolding nearest_def by (metis less_irrefl)+
    then have "Suc a < b" using \<open>a < b\<close> by (metis Suc_lessI even_Suc)
    then have "mag_value a < mag_value (Suc a)" "mag_value (Suc a) < mag_value b" by simp_all
    moreover have "\<bar>y - mag_value a\<bar> \<le> \<bar>y - mag_value (Suc a)\<bar>"
      using that \<open>Suc a < b\<close> unfolding nearest_def by simp
    ultimately show False using d by linarith
  qed
  from this [OF assms] this [OF assms(2,1)] show ?thesis by simp
qed

text \<open>It is enough to look at the neighbours.\<close>

lemma nearestI:
  assumes "k \<le> inf_mag"
    and up: "2 * y \<le> mag_value k + mag_value (Suc k) \<and> (2 * y = mag_value k + mag_value (Suc k) \<longrightarrow> even k)
      \<or> k = inf_mag"
    and down: "\<And>i. k = Suc i \<Longrightarrow> mag_value i + mag_value k \<le> 2 * y
      \<and> (mag_value i + mag_value k = 2 * y \<longrightarrow> even k)"
  shows "nearest y k"
  unfolding nearest_def
proof (intro conjI allI impI assms(1))
  fix j
  assume j: "j \<le> inf_mag"
  have *: "\<bar>y - mag_value k\<bar> \<le> \<bar>y - mag_value j\<bar>
      \<and> (\<bar>y - mag_value k\<bar> = \<bar>y - mag_value j\<bar> \<and> j \<noteq> k \<longrightarrow> even k)"
  proof (cases j k rule: linorder_cases)
    case less
    then obtain i where i: "k = Suc i" "j \<le> i" by (metis Suc_le_eq gr0_implies_Suc less_Suc_eq_le not_less_zero neq0_conv)
    then have "mag_value j \<le> mag_value i" "mag_value i < mag_value k" by simp_all
    then show ?thesis using down [OF i(1)] by linarith
  next
    case greater
    then have "mag_value (Suc k) \<le> mag_value j" "mag_value k < mag_value (Suc k)" by simp_all
    then show ?thesis using up greater j by linarith
  qed simp
  from * show "\<bar>y - mag_value k\<bar> \<le> \<bar>y - mag_value j\<bar>" ..
  from * show "\<bar>y - mag_value k\<bar> = \<bar>y - mag_value j\<bar> \<and> j \<noteq> k \<Longrightarrow> even k" by blast
qed

section \<open>The rounding of the model\<close>

lemma round_half_even_near:
  assumes "0 < b"
  shows "2 * real a \<le> (2 * real (round_half_even a b) + 1) * real b"
    "2 * real a = (2 * real (round_half_even a b) + 1) * real b \<Longrightarrow> even (round_half_even a b)"
    "(2 * real (round_half_even a b) - 1) * real b \<le> 2 * real a"
    "(2 * real (round_half_even a b) - 1) * real b = 2 * real a \<Longrightarrow> even (round_half_even a b)"
proof -
  define q where "q = a div b"
  define r where "r = a mod b"
  have a: "real a = real q * real b + real r"
    by (simp add: q_def r_def flip: of_nat_mult of_nat_add)
  have r: "real r < real b" using assms by (simp add: r_def)
  consider (down) "round_half_even a b = q" "2 * r \<le> b" "2 * r = b \<longrightarrow> even q"
    | (up) "round_half_even a b = q + 1" "b \<le> 2 * r" "b = 2 * r \<longrightarrow> odd q"
  proof (cases "b < 2 * r \<or> b = 2 * r \<and> odd q")
    case True
    then show ?thesis by (intro up) (auto simp: round_half_even_def Let_def simp flip: q_def r_def)
  next
    case False
    then show ?thesis by (intro down) (auto simp: round_half_even_def Let_def simp flip: q_def r_def)
  qed
  then have "2 * real a \<le> (2 * real (round_half_even a b) + 1) * real b
      \<and> (2 * real a = (2 * real (round_half_even a b) + 1) * real b \<longrightarrow> even (round_half_even a b))
      \<and> (2 * real (round_half_even a b) - 1) * real b \<le> 2 * real a
      \<and> ((2 * real (round_half_even a b) - 1) * real b = 2 * real a \<longrightarrow> even (round_half_even a b))"
  proof cases
    case down
    then have "2 * real r \<le> real b" "2 * real r = real b \<longrightarrow> even q" by linarith+
    then show ?thesis unfolding down(1) a using assms r by (simp add: algebra_simps)
  next
    case up
    then have "real b \<le> 2 * real r" "real b = 2 * real r \<longrightarrow> odd q" by linarith+
    then show ?thesis unfolding up(1) a using assms r by (simp add: algebra_simps)
  qed
  then show "2 * real a \<le> (2 * real (round_half_even a b) + 1) * real b"
    "2 * real a = (2 * real (round_half_even a b) + 1) * real b \<Longrightarrow> even (round_half_even a b)"
    "(2 * real (round_half_even a b) - 1) * real b \<le> 2 * real a"
    "(2 * real (round_half_even a b) - 1) * real b = 2 * real a \<Longrightarrow> even (round_half_even a b)"
    by blast+
qed

text \<open>The binade of a fraction: \<open>s\<close> is the exponent at which its significand has 53 bits.\<close>

lemma binade:
  assumes "s = log2n (x div b) - 52" "0 < b"
  shows "x < 2 ^ 53 * 2 ^ s * b" "0 < s \<Longrightarrow> 2 ^ 52 * 2 ^ s * b \<le> x"
proof -
  have q: "x < (x div b + 1) * b" using assms(2) dividend_less_div_times [of b x] by simp
  have "x div b < 2 ^ 53 * 2 ^ s"
  proof (cases "x div b = 0")
    case False
    then have "x div b < 2 ^ Suc (log2n (x div b))" using log2n_bounds by blast
    also have "\<dots> \<le> 2 ^ (53 + s)" unfolding assms(1) by (rule power_increasing) auto
    finally show ?thesis by (simp add: power_add)
  qed simp
  then have "x div b + 1 \<le> 2 ^ 53 * 2 ^ s" by simp
  with q show "x < 2 ^ 53 * 2 ^ s * b" by (meson less_le_trans mult_le_mono1)
  assume "0 < s"
  then have "log2n (x div b) = 52 + s" using assms(1) by simp
  moreover from this have "x div b \<noteq> 0" using \<open>0 < s\<close> by (metis add_is_0 log2n.simps neq0_conv zero_less_numeral)
  ultimately have "2 ^ 52 * 2 ^ s \<le> x div b" using log2n_bounds [of "x div b"] by (simp add: power_add)
  then have "2 ^ 52 * 2 ^ s * b \<le> x div b * b" by (rule mult_le_mono1)
  then show "2 ^ 52 * 2 ^ s * b \<le> x" using div_times_less_eq_dividend [of x b] by linarith
qed

lemma round_frac_nearest:
  assumes b: "0 < b"
  shows "nearest (real a / real b) (round_frac a b)"
proof -
  define x where "x = a * denom"
  define s where "s = log2n (x div b) - 52"
  define m where "m = round_half_even x (b * 2 ^ s)"
  define k where "k = s * 2 ^ 52 + m"
  let ?y = "real a / real b"
  have B: "0 < b * 2 ^ s" using b by simp
  note near = round_half_even_near [OF B, of x, folded m_def]
  note bin = binade [OF s_def b]
  have y: "2 * ?y = 2 * real x / (real b * 2 ^ 1074)"
    by (simp add: x_def denom_def)
  have at: "real p / 2 ^ 1074 = real p * real b / (real b * 2 ^ 1074)" for p
    using b by simp
  have le: "2 * ?y \<le> real p / 2 ^ 1074 \<longleftrightarrow> 2 * real x \<le> real p * real b"
    "real p / 2 ^ 1074 \<le> 2 * ?y \<longleftrightarrow> real p * real b \<le> 2 * real x"
    "2 * ?y = real p / 2 ^ 1074 \<longleftrightarrow> 2 * real x = real p * real b" for p
    unfolding y at using b by (simp_all add: divide_le_eq le_divide_eq divide_eq_eq ac_simps)
  have sum: "mag_value i + mag_value j = real (scaled i + scaled j) / 2 ^ 1074" for i j
    by (simp add: mag_value_scaled add_divide_distrib)
  have m_le: "m \<le> 2 ^ 53"
  proof (cases "m = 0")
    case False
    have "real ((2 * m - 1) * (b * 2 ^ s)) \<le> real (2 * x)"
      using near(3) False by (simp add: of_nat_diff)
    then have "(2 * m - 1) * (b * 2 ^ s) \<le> 2 * x" by (simp only: of_nat_le_iff)
    also have "\<dots> < 2 ^ 54 * (b * 2 ^ s)" using bin(1) by (simp add: ac_simps)
    finally have "2 * m - 1 < 2 ^ 54" using B by (simp only: mult_less_cancel2)
    then show ?thesis by simp
  qed simp
  have m_ge: "2 ^ 52 \<le> m" if "0 < s"
  proof -
    have "2 ^ 53 * (b * 2 ^ s) \<le> 2 * x" using bin(2) [OF that] by (simp add: ac_simps)
    moreover have "real (2 * x) \<le> real ((2 * m + 1) * (b * 2 ^ s))" using near(1) by (simp add: algebra_simps)
    then have "2 * x \<le> (2 * m + 1) * (b * 2 ^ s)" by (simp only: of_nat_le_iff)
    ultimately have "2 ^ 53 * (b * 2 ^ s) \<le> (2 * m + 1) * (b * 2 ^ s)" by linarith
    then have "2 ^ 53 \<le> 2 * m + 1" using B by (simp only: mult_le_cancel2)
    then show ?thesis by simp
  qed
  have sm: "s = 0 \<or> 2 ^ 52 \<le> m" using m_ge by blast
  have sk: "scaled k = m * 2 ^ s" unfolding k_def using sm m_le by (rule scaled_at)
  have even_k: "even k \<longleftrightarrow> even m" by (simp add: k_def)
  have up: "2 * ?y \<le> mag_value k + mag_value (Suc k) \<and> (2 * ?y = mag_value k + mag_value (Suc k) \<longrightarrow> even k)"
  proof (cases "m = 2 ^ 53")
    case True
    have "2 * x < (scaled k + scaled k) * b" using bin(1) by (simp add: sk True ac_simps)
    then have "real (2 * x) < real ((scaled k + scaled k) * b)" by (simp only: of_nat_less_iff)
    then have "2 * real x < real (scaled k + scaled k) * real b" by simp
    also have "\<dots> \<le> real (scaled k + scaled (Suc k)) * real b"
      using scaled_Suc [of k] by (intro mult_right_mono) simp_all
    finally show ?thesis unfolding sum le by simp
  next
    case False
    then have "scaled (Suc k) = (m + 1) * 2 ^ s"
      using scaled_at [of s "m + 1"] sm m_le by (auto simp: k_def)
    then have "real (scaled k + scaled (Suc k)) * real b = (2 * real m + 1) * real (b * 2 ^ s)"
      by (simp add: sk algebra_simps)
    then show ?thesis unfolding sum le even_k using near(1,2) by metis
  qed
  have down: "mag_value i + mag_value k \<le> 2 * ?y \<and> (mag_value i + mag_value k = 2 * ?y \<longrightarrow> even k)"
    if i: "k = Suc i" for i
  proof (cases "0 < s \<and> m = 2 ^ 52")
    case True
    have "(scaled k + scaled k) * b \<le> 2 * x" using bin(2) True by (simp add: sk ac_simps)
    then have "real ((scaled k + scaled k) * b) \<le> real (2 * x)" by (simp only: of_nat_le_iff)
    then have "real (scaled k + scaled k) * real b \<le> 2 * real x" by simp
    moreover have "real (scaled i + scaled k) * real b < real (scaled k + scaled k) * real b"
      using scaled_Suc [of i] b i by (intro mult_strict_right_mono) simp_all
    ultimately have "real (scaled i + scaled k) * real b < 2 * real x" by (rule order.strict_trans2 [rotated])
    then show ?thesis unfolding sum le eq_commute [of _ "2 * ?y"] by simp
  next
    case False
    have m0: "0 < m"
    proof (cases "s = 0")
      case True
      with i show ?thesis by (simp add: k_def)
    next
      case False
      with m_ge have "2 ^ 52 \<le> m" by simp
      then show ?thesis by (rule less_le_trans [rotated]) simp
    qed
    have "scaled i = (m - 1) * 2 ^ s"
    proof -
      have "i = s * 2 ^ 52 + (m - 1)" using i m0 by (simp add: k_def)
      moreover have "s = 0 \<or> 2 ^ 52 \<le> m - 1" using sm False by linarith
      moreover have "m - 1 \<le> 2 ^ 53" using m_le by linarith
      ultimately show ?thesis by (simp only: scaled_at)
    qed
    moreover obtain n where "m = Suc n" using m0 gr0_implies_Suc by blast
    ultimately have "real (scaled i + scaled k) * real b = (2 * real m - 1) * real (b * 2 ^ s)"
      by (simp add: sk algebra_simps)
    then show ?thesis unfolding sum le eq_commute [of _ "2 * ?y"] even_k using near(3,4) by metis
  qed
  have r: "round_frac a b = min inf_mag k"
    unfolding round_frac_def Let_def k_def m_def s_def x_def ..
  show ?thesis
  proof (cases "k \<le> inf_mag")
    case True
    then show ?thesis unfolding r using up down by (intro nearestI) (simp_all add: min_absorb2)
  next
    case False
    then obtain i where i: "k = Suc i" "inf_mag \<le> i" by (metis less_imp_Suc_add le_add1 not_le)
    then have v: "mag_value inf_mag < mag_value k" "mag_value inf_mag \<le> mag_value i" by simp_all
    have "min inf_mag k = inf_mag" using False by simp
    moreover have "nearest ?y inf_mag"
    proof (rule nearestI)
      fix j assume j: "inf_mag = Suc j"
      then have "mag_value j < mag_value inf_mag" by simp
      then show "mag_value j + mag_value inf_mag \<le> 2 * ?y \<and> (mag_value j + mag_value inf_mag = 2 * ?y \<longrightarrow> even inf_mag)"
        using down [OF i(1)] v by linarith
    qed simp_all
    ultimately show ?thesis unfolding r by simp
  qed
qed

text \<open>A decimal with an exponent: the model rounds it as the number it stands for.\<close>

theorem round_dec_nearest: "nearest (real d * 10 powi e) (round_dec d e)"
proof (cases "0 \<le> e")
  case True
  then have "real d * 10 powi e = real (d * 10 ^ nat e) / real 1" by (simp add: power_int_def)
  moreover have "nearest (real (d * 10 ^ nat e) / real 1) (round_frac (d * 10 ^ nat e) 1)"
    by (rule round_frac_nearest) simp
  ultimately show ?thesis using True by (simp only: round_dec_def if_True)
next
  case False
  then have "(10 :: real) powi e = inverse (10 ^ nat (- e))"
    unfolding power_int_def by (simp only: if_False power_inverse)
  then have "real d * 10 powi e = real d / real (10 ^ nat (- e))"
    by (simp only: divide_inverse of_nat_power of_nat_numeral)
  moreover have "nearest (real d / real (10 ^ nat (- e))) (round_frac d (10 ^ nat (- e)))"
    by (rule round_frac_nearest) simp
  ultimately show ?thesis using False by (simp only: round_dec_def if_False)
qed

section \<open>Sign and magnitude of a float\<close>

lemma round_dec_bound: "round_dec d e \<le> inf_mag"
  by (simp add: round_dec_def round_frac_def Let_def)

lemma unat_make_f64:
  assumes "k \<le> inf_mag"
  shows "unat (make_f64 neg k) = (if neg then 2 ^ 63 else 0) + k"
proof -
  have "(if neg then 2 ^ 63 else 0) + k < 2 ^ 64" using assms by (simp add: inf_mag_def)
  then show ?thesis unfolding make_f64_def unat_of_nat by (intro mod_less) simp
qed

lemma mag_make_f64: "k \<le> inf_mag \<Longrightarrow> mag (make_f64 neg k) = k"
  by (simp add: unat_make_f64 mag_def inf_mag_def)

lemma is_negative_make_f64: "k \<le> inf_mag \<Longrightarrow> is_negative (make_f64 neg k) \<longleftrightarrow> neg"
  by (simp add: unat_make_f64 is_negative_def inf_mag_def)

lemma nearest_make_f64:
  assumes "nearest y k"
  shows "v = make_f64 neg k \<longleftrightarrow> is_negative v = neg \<and> nearest y (mag v)"
proof
  have k: "k \<le> inf_mag" using assms by (simp add: nearest_def)
  show "v = make_f64 neg k \<Longrightarrow> is_negative v = neg \<and> nearest y (mag v)"
    using assms by (simp add: mag_make_f64 [OF k] is_negative_make_f64 [OF k])
  assume v: "is_negative v = neg \<and> nearest y (mag v)"
  then have "k = mag v" using nearest_unique [OF assms] by blast
  then show "v = make_f64 neg k" using v make_f64_mag [of v] by simp
qed

end
