(* ===== verification/Cells.thy ===== *)
theory Cells
  imports Decode Nearest
begin

text \<open>
  The cells of an answer as the protocol spells them: which bytes stand for which value. The
  specification is a relation of its own, from the digits, the binary fractions, the string grammar and
  the Base64 alphabet of the RFCs; parser, token accessors, number reading and Base64 decoder together
  read exactly that relation.
\<close>

section \<open>The specification\<close>

text \<open>Decimal digits, most significant first.\<close>

definition decimal :: "bytes \<Rightarrow> nat" where
  "decimal ds = horner_sum (\<lambda>b. unat b - 48) 10 (rev ds)"

definition sign_text :: "bool \<Rightarrow> bytes" where
  "sign_text neg = (if neg then [45] else [])"

definition signed :: "bool \<Rightarrow> nat \<Rightarrow> int" where
  "signed neg n = (if neg then - int n else int n)"

definition int_digits :: "bytes \<Rightarrow> bool" where
  "int_digits ds \<longleftrightarrow> ds = [48] \<or> digits1 ds \<and> hd ds \<noteq> 48"

definition fraction_text :: "bytes \<Rightarrow> bytes \<Rightarrow> bool" where
  "fraction_text f fs \<longleftrightarrow> f = [] \<and> fs = [] \<or> digits1 fs \<and> f = 46 # fs"

definition exponent_text :: "bytes \<Rightarrow> int \<Rightarrow> bool" where
  "exponent_text e x \<longleftrightarrow>
     e = [] \<and> x = 0 \<or>
     (\<exists>c sg es. (c = 101 \<or> c = 69) \<and> (sg = [] \<or> sg = [43] \<or> sg = [45]) \<and> digits1 es
        \<and> e = c # sg @ es \<and> x = signed (sg = [45]) (decimal es))"

definition decimal_value :: "bytes \<Rightarrow> bytes \<Rightarrow> int \<Rightarrow> real" where
  "decimal_value ds fs x = (real (decimal ds) + real (decimal fs) / 10 ^ length fs) * 10 powi x"

text \<open>
  Base64 (RFC 4648, section 4): sextets as letters, padded to a multiple of four; the bytes are the
  same number in base 256, less one byte per padding character.
\<close>

definition b64_letters :: rstring where
  "b64_letters = str ''ABCDEFGHIJKLMNOPQRSTUVWXYZabcdefghijklmnopqrstuvwxyz0123456789+/''"

definition base64_text :: "rstring \<Rightarrow> bytes \<Rightarrow> bool" where
  "base64_text s bs \<longleftrightarrow>
     (\<exists>sextets p n. (\<forall>x\<in>set sextets. x < 64) \<and> p \<le> 2 \<and> length sextets + p = 4 * n
        \<and> s = map ((!) b64_letters) sextets @ replicate p 61
        \<and> length bs + p = 3 * n
        \<and> horner_sum unat 256 (rev bs)
          = horner_sum (\<lambda>x. x) 64 (rev (sextets @ replicate p 0)) div 256 ^ p)"

inductive cell :: "val \<Rightarrow> bytes \<Rightarrow> bool" where
  cell_null: "cell Null (utf8 (str ''null''))"
| cell_integer: "int_digits ds \<Longrightarrow> sint i = signed neg (decimal ds) \<Longrightarrow>
     cell (Integer i) (sign_text neg @ ds)"
| cell_real: "int_digits ds \<Longrightarrow> fraction_text f fs \<Longrightarrow> exponent_text e x \<Longrightarrow> f \<noteq> [] \<or> e \<noteq> [] \<Longrightarrow>
     is_negative v = neg \<Longrightarrow> nearest (decimal_value ds fs x) (mag v) \<Longrightarrow>
     cell (Real v) (sign_text neg @ ds @ f @ e)"
| cell_text: "string_body s t \<Longrightarrow> cell (Text s) (34 # t @ [34])"
| cell_blob: "ws w \<Longrightarrow> ws w' \<Longrightarrow> string_body s t \<Longrightarrow> base64_text s bs \<Longrightarrow>
     cell (Blob bs) (91 # w @ 34 # t @ 34 # w' @ [93])"

inductive_simps cell_iff: "cell Null b" "cell (Text s) b" "cell (Blob bs) b"

section \<open>Number tokens\<close>

lemma decimal_simps [simp]:
  "decimal [] = 0" "decimal (ds @ [d]) = 10 * decimal ds + (unat d - 48)"
  by (simp_all add: decimal_def)

lemma decimal_digits: "digits_value (map unat ds) = decimal ds"
  by (induction ds rule: rev_induct) simp_all

lemma decimal_append: "decimal (as @ bs) = decimal as * 10 ^ length bs + decimal bs"
  using digits_value_append [of "map unat as" "map unat bs"] by (simp add: decimal_digits flip: map_append)

lemma digits1_chars: "digits1 ds \<Longrightarrow> list_all is_digit (map unat ds) \<and> ds \<noteq> []"
  by (auto simp: digits1_iff is_digit_byte_def is_digit_def list_all_iff word_le_nat_alt)

lemma int_digits_chars: "int_digits ds \<Longrightarrow> list_all is_digit (map unat ds) \<and> ds \<noteq> []"
  using digits1_chars by (auto simp: int_digits_def is_digit_def)

lemma fraction_chars: "fraction_text f fs \<Longrightarrow> list_all is_digit (map unat fs)"
  using digits1_chars by (auto simp: fraction_text_def)

lemma json_number_parts_iff:
  "json_number b \<longleftrightarrow> (\<exists>neg ds f fs e x. int_digits ds \<and> fraction_text f fs \<and> exponent_text e x
     \<and> b = sign_text neg @ ds @ f @ e)"
proof -
  have i: "json_int i \<longleftrightarrow> (\<exists>neg ds. int_digits ds \<and> i = sign_text neg @ ds)" for i
    unfolding json_int_def int_digits_def sign_text_def ex_bool_eq by auto
  have f: "json_frac f \<longleftrightarrow> (\<exists>fs. fraction_text f fs)" for f
    by (auto simp: json_frac_def fraction_text_def)
  have e: "json_exp e \<longleftrightarrow> (\<exists>x. exponent_text e x)" for e
    unfolding json_exp_def exponent_text_def by blast
  show ?thesis unfolding json_number_def i f e by fastforce
qed

lemma int_opt_digits:
  assumes "list_all is_digit (map unat ds)" "ds \<noteq> []"
  shows "int_opt (map unat ds) = Some (int (decimal ds))"
    "int_opt (43 # map unat ds) = Some (int (decimal ds))"
    "int_opt (45 # map unat ds) = Some (- int (decimal ds))"
proof -
  obtain d r where d: "ds = d # r" "is_digit (unat d)" using assms by (cases ds) auto
  then have "unat d \<noteq> 45" "unat d \<noteq> 43" by (auto simp: is_digit_def)
  with d assms decimal_digits [of ds] show "int_opt (map unat ds) = Some (int (decimal ds))"
    "int_opt (43 # map unat ds) = Some (int (decimal ds))"
    "int_opt (45 # map unat ds) = Some (- int (decimal ds))"
    by (auto simp: int_opt_def digits_opt_def)
qed

lemma decimal_opt_parts:
  assumes "int_digits ds" "fraction_text f fs" "exponent_text e x"
  shows "decimal_opt (map unat (ds @ f @ e)) = Some (decimal (ds @ fs), x - int (length fs))"
proof -
  note ds = int_digits_chars [OF assms(1)] and fs = fraction_chars [OF assms(2)]
  have e_hd: "e = [] \<or> hd e = 101 \<or> hd e = 69"
    using assms(3) by (auto simp: exponent_text_def)
  have e_digit: "map unat e = [] \<or> \<not> is_digit (hd (map unat e))"
    using e_hd by (cases e) (auto simp: is_digit_def)
  have e_int: "(case map unat e of c # t \<Rightarrow> if c = 101 \<or> c = 69 then int_opt t else None | [] \<Rightarrow> Some 0) = Some x"
    using assms(3) int_opt_digits digits1_chars by (auto simp: exponent_text_def signed_def)
  have ip: "takeWhile is_digit (map unat (ds @ f @ e)) = map unat ds"
    "dropWhile is_digit (map unat (ds @ f @ e)) = map unat (f @ e)"
    using take_drop_digits [of "map unat ds" "map unat (f @ e)"] ds assms(2) e_digit
    by (auto simp: fraction_text_def)
  have fp: "(case map unat (f @ e) of
      c # t \<Rightarrow> if c = 46 then (takeWhile is_digit t, dropWhile is_digit t) else ([], map unat (f @ e))
    | [] \<Rightarrow> ([], map unat (f @ e))) = (map unat fs, map unat e)"
    using assms(2) take_drop_digits [OF fs e_digit] e_hd
    by (cases e) (auto simp: fraction_text_def)
  show ?thesis
    unfolding decimal_opt_def Let_def ip fp prod.case e_int
    using ds by (simp add: decimal_digits flip: map_append)
qed

lemma nearest_parts: "nearest (decimal_value ds fs x) (round_dec (decimal (ds @ fs)) (x - int (length fs)))"
proof -
  have "decimal_value ds fs x = real (decimal (ds @ fs)) * 10 powi (x - int (length fs))"
    by (simp add: decimal_value_def decimal_append power_int_diff field_simps)
  then show ?thesis using round_dec_nearest by simp
qed

text \<open>A number of the grammar as a token: what the accessors make of its parts.\<close>

lemma ascii_token: "(\<And>b. b \<in> set bs \<Longrightarrow> unat b < 128) \<Longrightarrow> utf8 (map unat bs) = bs"
  by (subst utf8_ascii) (auto simp: o_def)

lemma json_value_number:
  "json_value (JNumber n) b \<longleftrightarrow> json_number b \<and> n = NumberToken (map unat b)"
proof
  assume "json_value (JNumber n) b"
  then obtain s where s: "n = NumberToken s" "b = utf8 s" "json_number (utf8 s)"
    by (cases rule: json_value.cases) auto
  have c: "\<forall>c\<in>set s. c < 128" using json_number_string [OF s(3)] by blast
  then have "map unat (map byte s) = s" by (auto simp: unat_byte intro!: map_idI)
  with s utf8_ascii [OF c] show "json_number b \<and> n = NumberToken (map unat b)" by simp
next
  assume b: "json_number b \<and> n = NumberToken (map unat b)"
  then have "utf8 (map unat b) = b" using json_number_ascii by (intro ascii_token) blast
  with b jv_number [of "map unat b"] show "json_value (JNumber n) b" by simp
qed

lemma is_real_parts:
  assumes "int_digits ds" "fraction_text f fs" "exponent_text e x" "b = sign_text neg @ ds @ f @ e"
  shows "is_real (NumberToken (map unat b)) \<longleftrightarrow> f \<noteq> [] \<or> e \<noteq> []"
proof -
  have "json_number b" unfolding json_number_parts_iff using assms by blast
  then have u: "utf8 (map unat b) = b" using json_number_ascii by (intro ascii_token) blast
  have no: "\<not> list_ex (\<lambda>b. b = 46 \<or> b = 101 \<or> b = 69) (sign_text neg @ ds)"
    using assms(1) by (auto simp: sign_text_def int_digits_def digits1_iff list_ex_iff list_all_iff
        is_digit_byte_def word_le_nat_alt)
  show ?thesis
    unfolding is_real_def number_token.sel u unfolding assms(4) using no assms(2,3)
    by (auto simp: fraction_text_def exponent_text_def)
qed

lemma as_f64_parts:
  assumes "int_digits ds" "fraction_text f fs" "exponent_text e x" "b = sign_text neg @ ds @ f @ e"
  shows "as_f64 (NumberToken (map unat b)) = Some v \<longleftrightarrow>
    is_negative v = neg \<and> nearest (decimal_value ds fs x) (mag v)"
proof -
  let ?k = "round_dec (decimal (ds @ fs)) (x - int (length fs))"
  obtain d r where d: "ds = d # r" "is_digit (unat d)"
    using int_digits_chars [OF assms(1)] by (cases ds) auto
  then have "unat d \<noteq> 45" "unat d \<noteq> 43" by (auto simp: is_digit_def)
  then have "as_f64 (NumberToken (map unat b)) = Some (make_f64 neg ?k)"
    using decimal_opt_parts [OF assms(1-3)] d
    by (auto simp: assms(4) as_f64_def parse_f64_def magnitude_opt_def sign_text_def)
  then show ?thesis using nearest_make_f64 [OF nearest_parts [of ds fs x], of v neg] by auto
qed

lemma as_i64_parts:
  assumes "int_digits ds"
  shows "as_i64 (NumberToken (map unat (sign_text neg @ ds))) = Some i \<longleftrightarrow> sint i = signed neg (decimal ds)"
  using int_opt_digits [of ds] int_digits_chars [OF assms]
  by (auto simp: as_i64_def parse_i64_Some_iff sign_text_def signed_def)

lemma integer_cell:
  "(\<exists>n. json_value (JNumber n) b \<and> \<not> is_real n \<and> as_i64 n = Some i) \<longleftrightarrow> cell (Integer i) b" (is "?L \<longleftrightarrow> ?R")
proof
  assume ?L
  then obtain neg ds f fs e x where p: "int_digits ds" "fraction_text f fs" "exponent_text e x"
      "b = sign_text neg @ ds @ f @ e"
      and a: "\<not> is_real (NumberToken (map unat b))" "as_i64 (NumberToken (map unat b)) = Some i"
    by (auto simp: json_value_number json_number_parts_iff)
  have z: "f = []" "e = []" using is_real_parts [OF p] a(1) by auto
  then have "sint i = signed neg (decimal ds)" using as_i64_parts [OF p(1), of neg i] a(2) p(4) by simp
  then show ?R using cell_integer [OF p(1)] p(4) z by simp
next
  assume ?R
  then obtain ds neg where c: "int_digits ds" "sint i = signed neg (decimal ds)" "b = sign_text neg @ ds"
    by (cases rule: cell.cases) auto
  then have p: "fraction_text [] []" "exponent_text [] 0" "b = sign_text neg @ ds @ [] @ []"
    by (simp_all add: fraction_text_def exponent_text_def)
  have "json_number b" unfolding json_number_parts_iff using c(1) p by blast
  then show ?L
    using is_real_parts [OF c(1) p] as_i64_parts [OF c(1), of neg i] c(2,3)
    by (auto simp: json_value_number)
qed

lemma real_cell:
  "(\<exists>n. json_value (JNumber n) b \<and> is_real n \<and> as_f64 n = Some v) \<longleftrightarrow> cell (Real v) b" (is "?L \<longleftrightarrow> ?R")
proof
  assume ?L
  then obtain neg ds f fs e x where p: "int_digits ds" "fraction_text f fs" "exponent_text e x"
      "b = sign_text neg @ ds @ f @ e"
      and a: "is_real (NumberToken (map unat b))" "as_f64 (NumberToken (map unat b)) = Some v"
    by (auto simp: json_value_number json_number_parts_iff)
  from a have "f \<noteq> [] \<or> e \<noteq> []" "is_negative v = neg \<and> nearest (decimal_value ds fs x) (mag v)"
    using is_real_parts [OF p] as_f64_parts [OF p] by blast+
  then show ?R unfolding p(4) using p(1-3) by (intro cell_real) auto
next
  assume ?R
  then obtain neg ds f fs e x where p: "int_digits ds" "fraction_text f fs" "exponent_text e x"
      "b = sign_text neg @ ds @ f @ e"
      and a: "f \<noteq> [] \<or> e \<noteq> []" "is_negative v = neg" "nearest (decimal_value ds fs x) (mag v)"
    by (cases rule: cell.cases) auto
  have "json_number b" unfolding json_number_parts_iff using p by blast
  then show ?L
    using is_real_parts [OF p] as_f64_parts [OF p, of v] a by (auto simp: json_value_number)
qed

section \<open>Base64 as a change of base\<close>

abbreviation bytes_value :: "bytes \<Rightarrow> nat" where
  "bytes_value bs \<equiv> horner_sum unat 256 (rev bs)"

abbreviation sextets_value :: "nat list \<Rightarrow> nat" where
  "sextets_value xs \<equiv> horner_sum (\<lambda>x. x) 64 (rev xs)"

lemma bytes_value_append: "bytes_value (as @ bs) = bytes_value as * 256 ^ length bs + bytes_value bs"
  by (simp add: horner_sum_append)

lemma sextets_value_append: "sextets_value (as @ bs) = sextets_value as * 64 ^ length bs + sextets_value bs"
  by (simp add: horner_sum_append)

lemma bytes_value_inj: "length as = length bs \<Longrightarrow> bytes_value as = bytes_value bs \<Longrightarrow> as = bs"
proof (induction as arbitrary: bs rule: rev_induct)
  case (snoc a as)
  then obtain cs c where bs: "bs = cs @ [c]" "length as = length cs" by (cases bs rule: rev_cases) auto
  with snoc.prems(2) have e: "unat a + 256 * bytes_value as = unat c + 256 * bytes_value cs" by simp
  have "unat a = unat c" using arg_cong [OF e, of "\<lambda>n. n mod 256"] u8_less_256 by simp
  moreover from this e have "bytes_value as = bytes_value cs" by simp
  ultimately show ?case using snoc.IH bs by (simp add: byte_eq_iff)
qed simp

lemma or_shifted: "b < 2 ^ n \<Longrightarrow> push_bit n a OR b = a * 2 ^ n + (b :: nat)"
proof -
  assume b: "b < 2 ^ n"
  have "push_bit n a OR b = push_bit n a + b"
  proof (rule disjunctive_add [symmetric])
    fix k
    show "\<not> bit (push_bit n a) k \<or> \<not> bit b k"
    proof (cases "n \<le> k")
      case True
      then have "b < 2 ^ k" using b by (meson less_le_trans one_le_numeral power_increasing)
      then show ?thesis by (simp add: bit_iff_odd)
    qed (simp add: bit_push_bit_iff)
  qed
  then show ?thesis by (simp add: push_bit_eq_mult)
qed

lemma byte_of_drop_bit: "(ucast (drop_bit k (w :: u32)) :: u8) = byte (unat w div 2 ^ k)"
proof -
  have "(ucast (drop_bit k w) :: u8) = of_nat (unat (drop_bit k w))" by (rule of_nat_unat [symmetric])
  also have "unat (drop_bit k w) = unat w div 2 ^ k"
    unfolding unat_drop_bit_eq by (rule drop_bit_eq_div)
  finally show ?thesis by (simp only: byte_def)
qed

lemma push_group_value:
  assumes "a < 64" "b < 64" "c < 64" "d < 64" "p \<le> 2"
  defines "n \<equiv> ((a * 64 + b) * 64 + c) * 64 + d"
  shows "push_group (map byte [a, b, c, d]) p =
    take (3 - p) [byte (n div 65536), byte (n div 256), byte n]"
proof -
  let ?w = "push_bit 18 (ucast (byte a) :: u32) OR push_bit 12 (ucast (byte b)) OR push_bit 6 (ucast (byte c)) OR ucast (byte d)"
  have u: "(ucast (byte x) :: u32) = of_nat x" if "x < 64" for x
    using that by (simp add: byte_def unsigned_of_nat take_bit_nat_eq_self)
  have n: "n < 2 ^ 24" using assms by simp
  have "?w = of_nat (push_bit 18 a OR push_bit 12 b OR push_bit 6 c OR d)"
    using assms u by (simp add: of_nat_or_eq push_bit_of_nat)
  also have "push_bit 18 a OR push_bit 12 b OR push_bit 6 c OR d = n"
    using assms by (simp add: or_shifted n_def)
  finally have w: "?w = of_nat n" .
  then have wn: "unat ?w = n" using n by (simp add: unat_of_nat)
  have ub: "(ucast (drop_bit k ?w) :: u8) = byte (n div 2 ^ k)" for k unfolding byte_of_drop_bit wn ..
  show ?thesis
    using ub [of 16] ub [of 8] ub [of 0] unfolding push_group_def Let_def
    using assms(5) by (auto simp: take_Cons')
qed

lemma group_bytes_value:
  "n < 2 ^ 24 \<Longrightarrow> bytes_value [byte (n div 65536), byte (n div 256), byte n] = n"
proof -
  assume "n < 2 ^ 24"
  then have n: "n div 65536 < 256" by simp
  have u: "unat (byte m) = m mod 256" for m by (simp add: byte_def unat_of_nat)
  define m where "m = n div 256"
  have m: "n div 65536 = m div 256" using div_mult2_eq [of n 256 256] by (simp add: m_def)
  have "m div 256 * 256 + m mod 256 = m" "m * 256 + n mod 256 = n" by (simp_all add: m_def)
  then have "(m div 256 * 256 + m mod 256) * 256 + n mod 256 = n" by (simp only:)
  with n show ?thesis by (simp add: u m flip: m_def)
qed

lemma bytes_value_take:
  assumes "length bs = m + p"
  shows "bytes_value (take m bs) = bytes_value bs div 256 ^ p"
proof -
  have less: "bytes_value cs < 256 ^ length cs" for cs
  proof (induction cs rule: rev_induct)
    case (snoc c cs)
    then have "256 * Suc (bytes_value cs) \<le> 256 * 256 ^ length cs" by (intro mult_le_mono2) simp
    then show ?case using u8_less_256 [of c] by (simp del: u8_less_256)
  qed simp
  have "bytes_value bs = bytes_value (take m bs) * 256 ^ p + bytes_value (drop m bs)"
    using assms bytes_value_append [of "take m bs" "drop m bs"] by simp
  moreover have "bytes_value (drop m bs) < 256 ^ p" using less [of "drop m bs"] assms by simp
  ultimately show ?thesis by simp
qed

text \<open>One group, padded or not.\<close>

abbreviation letter_bytes :: "nat list \<Rightarrow> bytes" where
  "letter_bytes xs \<equiv> map (\<lambda>i. byte (ALPHABET ! i)) xs"

lemma letter_not_pad: "i < 64 \<Longrightarrow> byte (ALPHABET ! i) \<noteq> 61"
  using alphabet_index(1,2) [of i] byte_eq_byte [of "ALPHABET ! i" 61] by auto

lemma decode_group_value:
  assumes "length xs + p = 4" "p \<le> 2" "\<forall>x\<in>set xs. x < 64" "p = 0 \<or> is_last"
  shows "decode_group is_last 0 (letter_bytes xs @ replicate p 61) [0, 0, 0, 0] 0
      = Ok (map byte (xs @ replicate p 0), p)"
    "length (push_group (map byte (xs @ replicate p 0)) p) = 3 - p"
    "bytes_value (push_group (map byte (xs @ replicate p 0)) p) = sextets_value (xs @ replicate p 0) div 256 ^ p"
proof -
  obtain a b c d where ys: "xs @ replicate p 0 = [a, b, c, d]" "a < 64" "b < 64" "c < 64" "d < 64"
  proof -
    obtain ys where y: "ys = xs @ replicate p 0" by simp
    then have "length ys = 4" using assms(1) by simp
    then obtain a b c d where "xs @ replicate p 0 = [a, b, c, d]"
      unfolding y [symmetric] by (auto simp: length_Suc_conv eval_nat_numeral)
    moreover have "\<forall>x\<in>set (xs @ replicate p 0). x < 64" using assms(3) by auto
    ultimately show ?thesis using that by simp
  qed
  consider "p = 0" "xs = [a, b, c, d]" | "p = 1" "xs = [a, b, c]" "d = 0" | "p = 2" "xs = [a, b]" "c = 0" "d = 0"
    using assms(2) ys(1) by (cases p; cases "p - 1"; cases "p - 2") (auto simp: append_eq_Cons_conv Cons_eq_append_conv)
  then show "decode_group is_last 0 (letter_bytes xs @ replicate p 61) [0, 0, 0, 0] 0
      = Ok (map byte (xs @ replicate p 0), p)"
    using ys(2-5) assms(4)
    by cases (simp_all add: letter_not_pad alphabet_index(3) numeral_2_eq_2 numeral_3_eq_3 byte_def [of 0])
  define n where "n = ((a * 64 + b) * 64 + c) * 64 + d"
  have "n < 2 ^ 24" using ys(2-5) by (simp add: n_def)
  note v = group_bytes_value [OF this]
  have sv: "sextets_value [a, b, c, d] = n" by (simp add: n_def)
  note pg = push_group_value [OF ys(2-5) assms(2), folded n_def]
  show "length (push_group (map byte (xs @ replicate p 0)) p) = 3 - p"
    unfolding ys(1) pg by simp
  show "bytes_value (push_group (map byte (xs @ replicate p 0)) p) = sextets_value (xs @ replicate p 0) div 256 ^ p"
    unfolding ys(1) pg sv using bytes_value_take [of _ "3 - p" p] v assms(2) by simp
qed

lemma decode_groups_value:
  "length xs + p = 4 * k \<Longrightarrow> p \<le> 2 \<Longrightarrow> \<forall>x\<in>set xs. x < 64 \<Longrightarrow> n = gi + k \<Longrightarrow>
   \<exists>bs. decode_groups gi n (chunks 4 (letter_bytes xs @ replicate p 61)) out = Ok (out @ bs)
     \<and> length bs + p = 3 * k \<and> bytes_value bs = sextets_value (xs @ replicate p 0) div 256 ^ p"
proof (induction k arbitrary: xs gi out)
  case (Suc k)
  show ?case
  proof (cases "k = 0")
    case True
    then have len: "length xs + p = 4" "gi + 1 = n" using Suc.prems by simp_all
    note g = decode_group_value [OF len(1) Suc.prems(2,3), of True, simplified]
    have "chunks 4 (letter_bytes xs @ replicate p 61) = [letter_bytes xs @ replicate p 61]"
      using chunks_append [of "letter_bytes xs @ replicate p 61" 4 "[]"] len(1) by simp
    with g Suc.prems(2) len(2) True show ?thesis by simp
  next
    case False
    define ys where "ys = take 4 xs"
    define zs where "zs = drop 4 xs"
    have xs: "xs = ys @ zs" and ys: "length ys + 0 = 4" "\<forall>x\<in>set ys. x < 64"
      and zs: "length zs + p = 4 * k" "\<forall>x\<in>set zs. x < 64"
      using Suc.prems False by (auto simp: ys_def zs_def dest: in_set_takeD in_set_dropD)
    let ?G = "push_group (map byte ys) 0"
    obtain bs where bs: "decode_groups (gi + 1) n (chunks 4 (letter_bytes zs @ replicate p 61)) (out @ ?G) = Ok ((out @ ?G) @ bs)"
        "length bs + p = 3 * k" "bytes_value bs = sextets_value (zs @ replicate p 0) div 256 ^ p"
      using Suc.IH [OF zs(1) Suc.prems(2) zs(2), of "gi + 1" "out @ ?G"] Suc.prems(4) by auto
    note g = decode_group_value [OF ys(1) _ ys(2), of "gi + 1 = n", simplified]
    have four: "length (letter_bytes ys) = 4" "letter_bytes ys \<noteq> []" using ys(1) by auto
    have step: "decode_groups gi n (chunks 4 (letter_bytes xs @ replicate p 61)) out = Ok (out @ ?G @ bs)"
      using bs(1) g(1) four by (simp add: xs chunks_append)
    have "(64 :: nat) ^ (4 * k) = 256 ^ (3 * k)" by (simp add: power_mult)
    also have "\<dots> = 256 ^ length bs * 256 ^ p" using bs(2) by (metis power_add)
    finally have "sextets_value (xs @ replicate p 0)
        = sextets_value ys * 256 ^ length bs * 256 ^ p + sextets_value (zs @ replicate p 0)"
      using sextets_value_append [of ys "zs @ replicate p 0"] zs(1) by (simp add: xs)
    then have "sextets_value (xs @ replicate p 0) div 256 ^ p
        = sextets_value ys * 256 ^ length bs + sextets_value (zs @ replicate p 0) div 256 ^ p"
      by simp
    then have "bytes_value (?G @ bs) = sextets_value (xs @ replicate p 0) div 256 ^ p"
      unfolding bytes_value_append bs(3) g(3) by simp
    then show ?thesis using step bs(2) g(2) by (intro exI [of _ "?G @ bs"]) simp
  qed
qed simp

lemma b64_letters_alphabet: "b64_letters = ALPHABET"
  by (simp add: b64_letters_def ALPHABET_def)

lemma decode_shape:
  assumes "length xs + p = 4 * n" "p \<le> 2" "\<forall>x\<in>set xs. x < 64"
  shows "\<exists>bs. decode (map ((!) ALPHABET) xs @ replicate p 61) = Ok bs
    \<and> length bs + p = 3 * n \<and> bytes_value bs = sextets_value (xs @ replicate p 0) div 256 ^ p"
proof -
  have "utf8 (map ((!) ALPHABET) xs @ replicate p 61) = letter_bytes xs @ replicate p 61"
  proof -
    have "utf8 (map ((!) ALPHABET) xs) = letter_bytes xs"
      using assms(3) alphabet_index(1) by (subst utf8_ascii) auto
    moreover have "utf8 (replicate p 61) = map byte (replicate p 61)" by (rule utf8_ascii) simp
    ultimately show ?thesis by (simp add: byte_def)
  qed
  then show ?thesis
    using decode_groups_value [OF assms, of n 0 "[]"] assms(1) by (auto simp: decode_def Let_def)
qed

lemma is_b64_letter: "is_b64 c \<Longrightarrow> \<exists>i<64. unat c = ALPHABET ! i"
proof -
  assume "is_b64 c"
  then have "unat c \<in> set ([65..<91] @ [97..<123] @ [48..<58] @ [43, 47])"
    unfolding set_append set_upt Un_iff atLeastLessThan_iff is_b64_def word_le_nat_alt byte_eq_iff by auto
  also have "set ([65..<91] @ [97..<123] @ [48..<58] @ [43, 47]) = set ALPHABET"
    unfolding ALPHABET_def by code_simp
  finally show ?thesis by (auto simp: in_set_conv_nth)
qed

lemma decode_iff: "decode s = Ok bs \<longleftrightarrow> base64_text s bs"
proof
  assume "base64_text s bs"
  then obtain xs p n where x: "\<forall>x\<in>set xs. x < 64" "p \<le> 2" "length xs + p = 4 * n"
      "s = map ((!) ALPHABET) xs @ replicate p 61" "length bs + p = 3 * n"
      "bytes_value bs = sextets_value (xs @ replicate p 0) div 256 ^ p"
    unfolding base64_text_def b64_letters_alphabet by blast
  with decode_shape [OF x(3,2,1)] obtain cs where "decode s = Ok cs" "length cs + p = 3 * n"
      "bytes_value cs = bytes_value bs" by auto
  with x(5) bytes_value_inj [of cs bs] show "decode s = Ok bs" by simp
next
  assume d: "decode s = Ok bs"
  let ?u = "utf8 s"
  define p where "p = length (padding ?u)"
  have wf: "length ?u mod 4 = 0" "p \<le> 2" "list_all (\<lambda>c. c = 61) (padding ?u)"
    using decode_cases [of s] d by (auto simp: b64_wf_def p_def split: if_splits)
  have pad: "padding ?u = replicate p 61"
    using wf(3) unfolding p_def by (auto simp: list_all_iff intro: replicate_eqI [OF refl])
  let ?l = "takeWhile is_b64 ?u"
  have "\<forall>c\<in>set ?l. \<exists>i<64. unat c = ALPHABET ! i"
    using is_b64_letter by (auto dest: set_takeWhileD)
  then obtain index where index: "\<And>c. c \<in> set ?l \<Longrightarrow> index c < 64 \<and> unat c = ALPHABET ! index c"
    by metis
  define xs where "xs = map index ?l"
  have xs: "\<forall>x\<in>set xs. x < 64" using index by (auto simp: xs_def)
  have l: "map unat ?l = map ((!) ALPHABET) xs" using index by (simp add: xs_def)
  have u: "?u = ?l @ replicate p 61" using pad unfolding padding_def by (metis takeWhile_dropWhile_id)
  have "unat b < 128" if b: "b \<in> set ?u" for b
  proof -
    from b consider "b \<in> set ?l" | "b = 61" using u by (metis UnE in_set_replicate set_append)
    then show ?thesis
    proof cases
      case 1
      with index alphabet_index(1) show ?thesis by metis
    qed simp
  qed
  then have ascii: "\<forall>c\<in>set s. c < 128" using ascii_bytes_inv by blast
  then have "s = map unat (map byte s)" by (auto simp: unat_byte intro!: map_idI [symmetric])
  also have "\<dots> = map unat ?u" by (simp add: utf8_ascii [OF ascii])
  also have "\<dots> = map ((!) ALPHABET) xs @ replicate p 61" by (subst u) (simp add: l)
  finally have s: "s = map ((!) ALPHABET) xs @ replicate p 61" .
  have "length ?u = length xs + p" using arg_cong [OF u, of length] by (simp add: xs_def)
  with wf(1) have len: "length xs + p = 4 * (length ?u div 4)" by presburger
  from decode_shape [OF len wf(2) xs] d s show "base64_text s bs"
    unfolding base64_text_def b64_letters_alphabet using len wf(2) xs by auto
qed

section \<open>Cells\<close>

lemma array_of_string:
  "json_value (JArray [JString s]) b \<longleftrightarrow>
     (\<exists>w t w'. ws w \<and> ws w' \<and> string_body s t \<and> b = 91 # w @ 34 # t @ 34 # w' @ [93])"
proof
  have ne: "json_elements [] c \<Longrightarrow> False" for c by (erule json_elements.cases) auto
  assume "json_value (JArray [JString s]) b"
  then obtain c where c: "json_elements [JString s] c" "b = 91 # c @ [93]"
    by (cases rule: json_value.cases) auto
  from c(1) obtain w d w' where d: "ws w" "json_value (JString s) d" "ws w'" "c = w @ d @ w'"
    using ne by (cases rule: json_elements.cases) auto
  from d(2) obtain t where "string_body s t" "d = 34 # t @ [34]"
    by (cases rule: json_value.cases) auto
  with c(2) d show "\<exists>w t w'. ws w \<and> ws w' \<and> string_body s t \<and> b = 91 # w @ 34 # t @ 34 # w' @ [93]" by auto
next
  assume "\<exists>w t w'. ws w \<and> ws w' \<and> string_body s t \<and> b = 91 # w @ 34 # t @ 34 # w' @ [93]"
  then obtain w t w' where t: "ws w" "ws w'" "string_body s t" "b = 91 # w @ 34 # t @ 34 # w' @ [93]" by blast
  then show "json_value (JArray [JString s]) b"
    using jv_array [OF je_last [OF t(1) jv_string [OF t(3)] t(2)]] by simp
qed

lemma decoded_cell: "(\<exists>j. json_value j b \<and> decode_value j = Ok v) \<longleftrightarrow> cell v b"
proof (cases v)
  case Null
  then show ?thesis
    by (auto simp: decode_value_Ok elim: cell.cases json_value.cases intro: jv_null cell_null)
next
  case (Integer i)
  then show ?thesis using integer_cell [of b i] by (auto simp: decode_value_Ok)
next
  case (Real f)
  then show ?thesis using real_cell [of b f] by (auto simp: decode_value_Ok)
next
  case (Text s)
  then show ?thesis
    by (auto simp: decode_value_Ok elim: cell.cases json_value.cases intro: jv_string cell_text)
next
  case (Blob bs)
  then have "(\<exists>j. json_value j b \<and> decode_value j = Ok v)
      \<longleftrightarrow> (\<exists>s. json_value (JArray [JString s]) b \<and> base64_text s bs)"
    by (auto simp: decode_value_Ok decode_iff)
  then show ?thesis unfolding array_of_string Blob cell_iff by blast
qed

section \<open>Properties\<close>

text \<open>
  C31: The cells of an answer are read exactly as the protocol assigns them: a line is read as a value if
  and only if, white space around it aside, it is a spelling of that value. \<open>null\<close> is NULL; a number
  without point and exponent is the INTEGER with that decimal value, when 64 bits hold it; a number with
  a point or an exponent (\<open>e\<close> or \<open>E\<close>) is the REAL nearest to the number written, ties to even; a
  string is TEXT; an array with one string in Base64 is the BLOB whose bytes are those sextets in base 256.
\<close>
theorem cell_decoding_exact:
  "(\<exists>j. parse line = Ok j \<and> decode_value j = Ok v)
   \<longleftrightarrow> (\<exists>w b w'. ws w \<and> ws w' \<and> cell v b \<and> line = w @ b @ w')"
  unfolding parse_iff json_text_def decoded_cell [symmetric] by blast

text \<open>\<open>0E0\<close> is the REAL zero, \<open>-0\<close> the INTEGER zero.\<close>

lemma cell_decoding_exact_witness:
  "(\<exists>w b w'. ws w \<and> ws w' \<and> cell (Real 0) b \<and> [48, 69, 48] = w @ b @ w')
   \<and> (\<exists>w b w'. ws w \<and> ws w' \<and> cell (Integer 0) b \<and> [32, 45, 48] = w @ b @ w')"
proof
  have "parse [48, 69, 48] = Ok (JNumber (NumberToken [48, 69, 48]))" by code_simp
  moreover have "decode_value (JNumber (NumberToken [48, 69, 48])) = Ok (Real 0)"
    by (simp add: is_real_def encode_ascii as_f64_def parse_f64_def magnitude_opt_def decimal_opt_def
        int_opt_def digits_opt_def is_digit_def make_f64_def)
  ultimately show "\<exists>w b w'. ws w \<and> ws w' \<and> cell (Real 0) b \<and> [48, 69, 48] = w @ b @ w'"
    using cell_decoding_exact [of "[48, 69, 48]" "Real 0"] by blast
  have "parse [32, 45, 48] = Ok (JNumber (NumberToken [45, 48]))
      \<and> decode_value (JNumber (NumberToken [45, 48])) = Ok (Integer 0)"
    by code_simp
  then show "\<exists>w b w'. ws w \<and> ws w' \<and> cell (Integer 0) b \<and> [32, 45, 48] = w @ b @ w'"
    using cell_decoding_exact [of "[32, 45, 48]" "Integer 0"] by blast
qed

end
