(* ===== verification/Session.thy ===== *)
theory Session
  imports Decode
begin

text \<open>
  The \<open>Transport\<close> trait of \<open>rust/src/transport/mod.rs\<close> and \<open>rust/src/session.rs\<close> on top of it:
  greeting, the call/response cycle, the operations, and closing. A session is generic in its
  transport, as in the code; what it relies on is the locale \<open>transport\<close>.
\<close>

section \<open>The trait\<close>

text \<open>
  Every method works on the transport's state. \<open>None\<close>: the call never returns (a write or a
  wait without deadline may block forever).
\<close>

record 't transport_ops =
  write_line :: "'t \<Rightarrow> bytes \<Rightarrow> ((unit, error) result \<times> 't) option"
  read_line :: "'t \<Rightarrow> duration option \<Rightarrow> ((bytes, error) result \<times> 't) option"
  close_transport :: "'t \<Rightarrow> duration \<Rightarrow> ((unit, error) result \<times> 't) option"

definition PROTOCOL :: i64 where
  "PROTOCOL = 1"

definition DEFAULT_TIMEOUT :: duration where
  "DEFAULT_TIMEOUT = 30 * 10 ^ 9"

definition CLOSE_TIMEOUT :: duration where
  "CLOSE_TIMEOUT = 5 * 10 ^ 9"

section \<open>The session\<close>

record 't session =
  session_hello :: hello
  conn :: 't
  default_timeout :: "duration option"
  is_closed :: bool

text \<open>A panic inside \<open>close\<close> goes on as a panic.\<close>

fun after_close :: "(unit, error) result \<Rightarrow> ('a, error) result \<Rightarrow> ('a, error) result" where
  "after_close Panic r = Panic"
| "after_close _ r = r"

text \<open>
  \<open>Session::new\<close>: the session or the error, and the transport as it is left (it is dropped after an
  error).
\<close>

definition session_new ::
  "'t transport_ops \<Rightarrow> 't \<Rightarrow> duration option \<Rightarrow> (('t session, error) result \<times> 't) option" where
  "session_new T t timeout =
     do {
       (r, t1) \<leftarrow> read_line T t timeout;
       (case and_then r decode_hello of
          Ok h \<Rightarrow>
            if protocol h \<noteq> PROTOCOL then
              do {
                (c, t2) \<leftarrow> close_transport T t1 CLOSE_TIMEOUT;
                Some (after_close c (Err (Protocol (str ''unsupported protocol '' @ show_i64 (protocol h)
                        @ str '' (this driver speaks '' @ show_i64 PROTOCOL @ str '')''))), t2)
              }
            else
              Some (Ok \<lparr>session_hello = h, conn = t1, default_timeout = timeout, is_closed = False\<rparr>, t1)
        | Err e \<Rightarrow>
            do {
              (c, t2) \<leftarrow> close_transport T t1 CLOSE_TIMEOUT;
              Some (after_close c (Err e), t2)
            }
        | Panic \<Rightarrow> Some (Panic, t1))
     }"

definition set_timeout :: "'t session \<Rightarrow> duration option \<Rightarrow> 't session" where
  "set_timeout s t = s\<lparr>default_timeout := t\<rparr>"

definition timeout :: "'t session \<Rightarrow> duration option" where
  "timeout s = default_timeout s"

definition response_of :: "bytes \<Rightarrow> (json, error) result" where
  "response_of line =
     and_then (decode_response_line line) (\<lambda>resp.
       if resp_ok resp then Ok (resp_fields resp)
       else
         case response_error (resp_fields resp) of
           Some e \<Rightarrow> Err e
         | None \<Rightarrow> Err (Protocol (str ''response has ok=false with no error field'')))"

definition call ::
  "'t transport_ops \<Rightarrow> 't session \<Rightarrow> (string \<times> json) list \<Rightarrow> ((json, error) result \<times> 't session) option" where
  "call T s kvs =
     (if is_closed s then Some (Err Closed, s)
      else
        do {
          (w, t1) \<leftarrow> write_line T (conn s) (encode_request_line kvs);
          (case w of
             Ok _ \<Rightarrow>
               do {
                 (r, t2) \<leftarrow> read_line T t1 (default_timeout s);
                 (case r of
                    Ok line \<Rightarrow> Some (response_of line, s\<lparr>conn := t2\<rparr>)
                  | Err (Timeout m) \<Rightarrow>
                      do {
                        (c, t3) \<leftarrow> close_transport T t2 CLOSE_TIMEOUT;
                        Some (after_close c (Err (Timeout m)), s\<lparr>conn := t3, is_closed := True\<rparr>)
                      }
                  | Err e \<Rightarrow> Some (Err e, s\<lparr>conn := t2\<rparr>)
                  | Panic \<Rightarrow> Some (Panic, s\<lparr>conn := t2\<rparr>))
               }
           | Err e \<Rightarrow> Some (Err e, s\<lparr>conn := t1\<rparr>)
           | Panic \<Rightarrow> Some (Panic, s\<lparr>conn := t1\<rparr>))
        })"

text \<open>Closing: best effort, idempotent. The result of the close request is not looked at.\<close>

definition close_session ::
  "'t transport_ops \<Rightarrow> 't session \<Rightarrow> ((unit, error) result \<times> 't session) option" where
  "close_session T s =
     (if is_closed s then Some (Ok (), s)
      else
        do {
          (w, t1) \<leftarrow> write_line T (conn s) (encode_request_line [(''op'', json_str (str ''close''))]);
          (if w = Panic then Some (Panic, s\<lparr>conn := t1, is_closed := True\<rparr>)
           else
             do {
               (r, t2) \<leftarrow> (if is_ok w then read_line T t1 (Some CLOSE_TIMEOUT) else Some (Err Closed, t1));
               (if r = Panic then Some (Panic, s\<lparr>conn := t2, is_closed := True\<rparr>)
                else
                  do {
                    (c, t3) \<leftarrow> close_transport T t2 CLOSE_TIMEOUT;
                    Some (after_close c (Ok ()), s\<lparr>conn := t3, is_closed := True\<rparr>)
                  })
             })
        })"

definition drop_session :: "'t transport_ops \<Rightarrow> 't session \<Rightarrow> ((unit, error) result \<times> 't session) option" where
  "drop_session T s = close_session T s"

section \<open>The operations\<close>

record snapshot_options =
  filename :: "rstring option"
  sqlite :: bool
  timestamp :: bool

definition default_snapshot_options :: snapshot_options where
  "default_snapshot_options = \<lparr>filename = None, sqlite = False, timestamp = False\<rparr>"

text \<open>\<open>f(&self.call(fields)?)\<close>\<close>

definition call_and ::
  "'t transport_ops \<Rightarrow> 't session \<Rightarrow> (json \<Rightarrow> ('a, error) result) \<Rightarrow> (string \<times> json) list
     \<Rightarrow> (('a, error) result \<times> 't session) option" where
  "call_and T s f kvs = map_option (\<lambda>(r, s'). (and_then r f, s')) (call T s kvs)"

definition op_field :: "string \<Rightarrow> string \<times> json" where
  "op_field name = (''op'', json_str (str name))"

definition statement_fields :: "string \<Rightarrow> rstring \<Rightarrow> json option \<Rightarrow> (string \<times> json) list" where
  "statement_fields name sql_text p =
     [op_field name, (''sql'', json_str sql_text)] @ (case p of Some j \<Rightarrow> [(''params'', j)] | None \<Rightarrow> [])"

definition query ::
  "'t transport_ops \<Rightarrow> 't session \<Rightarrow> rstring \<Rightarrow> val list \<Rightarrow> ((query_result, error) result \<times> 't session) option" where
  "query T s sql_text params =
     (case encode_params params of
        Ok p \<Rightarrow> call_and T s decode_query_response (statement_fields ''query'' sql_text p)
      | Err e \<Rightarrow> Some (Err e, s)
      | Panic \<Rightarrow> Some (Panic, s))"

definition exec ::
  "'t transport_ops \<Rightarrow> 't session \<Rightarrow> rstring \<Rightarrow> val list \<Rightarrow> ((exec_result, error) result \<times> 't session) option" where
  "exec T s sql_text params =
     (case encode_params params of
        Ok p \<Rightarrow> call_and T s decode_exec_response (statement_fields ''exec'' sql_text p)
      | Err e \<Rightarrow> Some (Err e, s)
      | Panic \<Rightarrow> Some (Panic, s))"

definition snapshot_fields :: "snapshot_options \<Rightarrow> (string \<times> json) list" where
  "snapshot_fields opts =
     [op_field ''snapshot'']
     @ (case filename opts of Some f \<Rightarrow> [(''filename'', json_str f)] | None \<Rightarrow> [])
     @ (if sqlite opts then [(''sqlite'', JBool True)] else [])
     @ (if timestamp opts then [(''timestamp'', JBool True)] else [])"

definition snapshot ::
  "'t transport_ops \<Rightarrow> 't session \<Rightarrow> snapshot_options \<Rightarrow> ((snapshot_result, error) result \<times> 't session) option" where
  "snapshot T s opts = call_and T s decode_snapshot_response (snapshot_fields opts)"

definition load ::
  "'t transport_ops \<Rightarrow> 't session \<Rightarrow> rstring \<Rightarrow> ((unit, error) result \<times> 't session) option" where
  "load T s p = call_and T s (\<lambda>_. Ok ()) [op_field ''load'', (''path'', json_str p)]"

definition inspect ::
  "'t transport_ops \<Rightarrow> 't session \<Rightarrow> ((inspect_result, error) result \<times> 't session) option" where
  "inspect T s = call_and T s decode_inspect_response [op_field ''inspect'']"

definition tables ::
  "'t transport_ops \<Rightarrow> 't session \<Rightarrow> ((tables_result, error) result \<times> 't session) option" where
  "tables T s = call_and T s decode_tables_response [op_field ''tables'']"

definition schema ::
  "'t transport_ops \<Rightarrow> 't session \<Rightarrow> rstring option \<Rightarrow> ((schema_result, error) result \<times> 't session) option" where
  "schema T s tbl =
     call_and T s decode_schema_response
       ([op_field ''schema''] @ (case tbl of Some t \<Rightarrow> [(''table'', json_str t)] | None \<Rightarrow> []))"

definition dump ::
  "'t transport_ops \<Rightarrow> 't session \<Rightarrow> rstring option \<Rightarrow> ((dump_result, error) result \<times> 't session) option" where
  "dump T s pattern =
     call_and T s decode_dump_response
       ([op_field ''dump''] @ (case pattern of Some p \<Rightarrow> [(''pattern'', json_str p)] | None \<Rightarrow> []))"

text \<open>\<open>overwrite\<close> of a direct connection: the call, and only when it succeeds the close.\<close>

definition overwrite ::
  "'t transport_ops \<Rightarrow> 't session \<Rightarrow> ((unit, error) result \<times> 't session) option" where
  "overwrite T s =
     do {
       (r, s1) \<leftarrow> call T s [op_field ''overwrite''];
       (case r of
          Ok _ \<Rightarrow> close_session T s1
        | Err e \<Rightarrow> Some (Err e, s1)
        | Panic \<Rightarrow> Some (Panic, s1))
     }"

end
