(* ===== verification/SessionProps.thy ===== *)
theory SessionProps
  imports Session
begin

text \<open>
  What a session does to its transport: the order of writes, reads and closes in any run, the
  outcome of a call as a function of what the transport did, and, under the contract of a
  transport, that a connection once ended stays ended.
\<close>

section \<open>Observing a transport\<close>

datatype event =
    Wrote bytes "(unit, error) result"
  | Received "(bytes, error) result"
  | Shut

text \<open>The transport that also writes down what is done to it; a session cannot tell the difference.\<close>

definition logged :: "'t transport_ops \<Rightarrow> ('t \<times> event list) transport_ops" where
  "logged T =
     \<lparr>write_line = (\<lambda>(t, log) line.
        map_option (\<lambda>(r, t'). (r, (t', log @ [Wrote line r]))) (write_line T t line)),
      read_line = (\<lambda>(t, log) tmo.
        map_option (\<lambda>(r, t'). (r, (t', log @ [Received r]))) (read_line T t tmo)),
      close_transport = (\<lambda>(t, log) tmo.
        map_option (\<lambda>(r, t'). (r, (t', log @ [Shut]))) (close_transport T t tmo))\<rparr>"

abbreviation log_of :: "('t \<times> event list) session \<Rightarrow> event list" where
  "log_of s \<equiv> snd (conn s)"

lemma logged_write:
  "write_line (logged T) c line = Some (r, c') \<longleftrightarrow>
     write_line T (fst c) line = Some (r, fst c') \<and> snd c' = snd c @ [Wrote line r]"
  by (cases c; cases c') (auto simp: logged_def)

lemma logged_read:
  "read_line (logged T) c tmo = Some (r, c') \<longleftrightarrow>
     read_line T (fst c) tmo = Some (r, fst c') \<and> snd c' = snd c @ [Received r]"
  by (cases c; cases c') (auto simp: logged_def)

lemma logged_close:
  "close_transport (logged T) c tmo = Some (r, c') \<longleftrightarrow>
     close_transport T (fst c) tmo = Some (r, fst c') \<and> snd c' = snd c @ [Shut]"
  by (cases c; cases c') (auto simp: logged_def)

lemmas logged_ops = logged_write logged_read logged_close

section \<open>A call\<close>

text \<open>
  The specification of a call: \<open>exchange line r evs shut\<close> says that writing \<open>line\<close> as the request,
  the events \<open>evs\<close> on the transport and the outcome \<open>r\<close> belong together, and whether the
  connection was given up.
\<close>

inductive exchange :: "bytes \<Rightarrow> (json, error) result \<Rightarrow> event list \<Rightarrow> bool \<Rightarrow> bool" for line where
  ex_not_sent: "exchange line (Err e) [Wrote line (Err e)] False"
| ex_answer: "exchange line (response_of resp) [Wrote line (Ok ()), Received (Ok resp)] False"
| ex_failed: "(\<And>m. e \<noteq> Timeout m) \<Longrightarrow>
    exchange line (Err e) [Wrote line (Ok ()), Received (Err e)] False"
| ex_timeout: "r = Err (Timeout m) \<or> r = Panic \<Longrightarrow>
    exchange line r [Wrote line (Ok ()), Received (Err (Timeout m)), Shut] True"
| ex_panic_write: "exchange line Panic [Wrote line Panic] False"
| ex_panic_read: "exchange line Panic [Wrote line (Ok ()), Received Panic] False"

inductive_cases exchange_cases: "exchange line r evs shut"

lemma after_close_cases: "after_close c r = r \<or> after_close c r = Panic"
  by (cases c) auto

lemma call_exchange:
  assumes "call (logged T) s kvs = Some (r, s')" "\<not> is_closed s"
  shows "\<exists>evs. log_of s' = log_of s @ evs \<and> exchange (encode_request_line kvs) r evs (is_closed s')
    \<and> default_timeout s' = default_timeout s"
proof -
  let ?line = "encode_request_line kvs"
  from assms obtain w c1 where w: "write_line (logged T) (conn s) ?line = Some (w, c1)"
    by (auto simp: call_def split: bind_splits)
  have l1: "snd c1 = log_of s @ [Wrote ?line w]" using w by (simp add: logged_ops)
  note eq = assms(1) [unfolded call_def w bind.bind_lunit prod.case if_not_P [OF assms(2)]]
  show ?thesis
  proof (cases w)
    case (Ok u)
    then obtain rr c2 where rd: "read_line (logged T) c1 (default_timeout s) = Some (rr, c2)"
      using eq by (auto split: bind_splits)
    have l2: "snd c2 = log_of s @ [Wrote ?line (Ok ()), Received rr]"
      using rd l1 Ok by (simp add: logged_ops)
    show ?thesis
    proof (cases rr)
      case (Ok resp)
      with eq \<open>w = Ok u\<close> rd l2 assms(2) show ?thesis by (auto intro: ex_answer)
    next
      case (Err e)
      show ?thesis
      proof (cases "\<exists>m. e = Timeout m")
        case True
        then obtain m where m: "e = Timeout m" by blast
        then obtain c c3 where cl: "close_transport (logged T) c2 CLOSE_TIMEOUT = Some (c, c3)"
            "r = after_close c (Err (Timeout m))" "s' = s\<lparr>conn := c3, is_closed := True\<rparr>"
          using eq \<open>w = Ok u\<close> rd Err by (auto split: bind_splits)
        then have "snd c3 = log_of s @ [Wrote ?line (Ok ()), Received (Err (Timeout m)), Shut]"
          using l2 Err m by (simp add: logged_ops)
        with cl show ?thesis
          using ex_timeout [of r m ?line] after_close_cases [of c "Err (Timeout m)"] by auto
      next
        case False
        then have "r = Err e" "s' = s\<lparr>conn := c2\<rparr>"
          using eq \<open>w = Ok u\<close> rd Err by (auto split: error.splits)
        with l2 Err False assms(2) show ?thesis by (auto intro: ex_failed)
      qed
    next
      case Panic
      with eq \<open>w = Ok u\<close> rd l2 assms(2) show ?thesis by (auto intro: ex_panic_read)
    qed
  next
    case (Err e)
    with eq l1 assms(2) show ?thesis by (auto intro: ex_not_sent)
  next
    case Panic
    with eq l1 assms(2) show ?thesis by (auto intro: ex_panic_write)
  qed
qed

text \<open>A call that succeeds is one write, one read and one good answer.\<close>

lemma call_Ok:
  assumes "call T s kvs = Some (Ok j, s')"
  obtains t1 line t2 where "\<not> is_closed s" "write_line T (conn s) (encode_request_line kvs) = Some (Ok (), t1)"
    "read_line T t1 (default_timeout s) = Some (Ok line, t2)" "response_of line = Ok j" "s' = s\<lparr>conn := t2\<rparr>"
proof -
  have "\<not> is_closed s" using assms by (auto simp: call_def)
  moreover have "after_close c (Err e) \<noteq> Ok j" for c and e :: error by (cases c) auto
  ultimately show ?thesis
    using assms that by (auto simp: call_def split: bind_splits result.splits error.splits)
qed

lemma call_closed [simp]: "is_closed s \<Longrightarrow> call T s kvs = Some (Err Closed, s)"
  by (simp add: call_def)

lemma close_closed [simp]: "is_closed s \<Longrightarrow> close_session T s = Some (Ok (), s)"
  by (simp add: close_session_def)

section \<open>Any run\<close>

text \<open>The operations a caller can ask for; a run drops their results.\<close>

datatype request =
    Query rstring "val list"
  | Exec rstring "val list"
  | Snapshot snapshot_options
  | Load rstring
  | Inspect
  | Tables
  | Schema "rstring option"
  | Dump "rstring option"
  | Overwrite
  | SetTimeout "duration option"
  | CloseIt

fun step :: "'t transport_ops \<Rightarrow> request \<Rightarrow> 't session \<Rightarrow> 't session option" where
  "step T (Query q ps) s = map_option snd (query T s q ps)"
| "step T (Exec q ps) s = map_option snd (exec T s q ps)"
| "step T (Snapshot opts) s = map_option snd (snapshot T s opts)"
| "step T (Load p) s = map_option snd (load T s p)"
| "step T Inspect s = map_option snd (inspect T s)"
| "step T Tables s = map_option snd (tables T s)"
| "step T (Schema t) s = map_option snd (schema T s t)"
| "step T (Dump p) s = map_option snd (dump T s p)"
| "step T Overwrite s = map_option snd (overwrite T s)"
| "step T (SetTimeout t) s = Some (set_timeout s t)"
| "step T CloseIt s = map_option snd (close_session T s)"

fun run :: "'t transport_ops \<Rightarrow> request list \<Rightarrow> 't session \<Rightarrow> 't session option" where
  "run T [] s = Some s"
| "run T (q # qs) s = do { s' \<leftarrow> step T q s; run T qs s' }"

text \<open>An invariant of calls, closing and the timeout setting is one of every run.\<close>

lemma call_and_Some:
  "call_and T s f kvs = Some (r, s') \<longleftrightarrow> (\<exists>r0. call T s kvs = Some (r0, s') \<and> r = and_then r0 f)"
  by (auto simp: call_and_def)

lemma step_cases:
  assumes "step T q s = Some s'"
  obtains "s' = s"
  | kvs r where "call T s kvs = Some (r, s')"
  | r where "close_session T s = Some (r, s')"
  | kvs r s1 r' where "call T s kvs = Some (r, s1)" "close_session T s1 = Some (r', s')"
  | t where "s' = set_timeout s t"
proof (cases q)
  case (Query x ps)
  with assms that(1,2) show ?thesis by (auto simp: query_def call_and_Some split: result.splits)
next
  case (Exec x ps)
  with assms that(1,2) show ?thesis by (auto simp: exec_def call_and_Some split: result.splits)
next
  case Overwrite
  with assms that(2,4) show ?thesis by (auto simp: overwrite_def split: result.splits bind_splits)
qed (use assms that(2,3,5) in \<open>auto simp: snapshot_def load_def inspect_def tables_def schema_def dump_def call_and_Some\<close>)

lemma step_invariant:
  assumes "step T q s = Some s'" "P s"
    "\<And>s kvs r s'. P s \<Longrightarrow> call T s kvs = Some (r, s') \<Longrightarrow> P s'"
    "\<And>s r s'. P s \<Longrightarrow> close_session T s = Some (r, s') \<Longrightarrow> P s'"
    "\<And>s t. P s \<Longrightarrow> P (set_timeout s t)"
  shows "P s'"
  using assms(1) by (rule step_cases) (use assms(2-5) in blast)+

lemma run_invariant:
  assumes "\<And>q s s'. P s \<Longrightarrow> step T q s = Some s' \<Longrightarrow> P s'"
  shows "run T qs s = Some s' \<Longrightarrow> P s \<Longrightarrow> P s'"
  by (induction qs arbitrary: s) (auto split: bind_splits intro: assms)

section \<open>Strict alternation\<close>

text \<open>
  A sent request is followed by exactly one read before anything else is written; nothing is read
  without a request; nothing follows a shutdown.
\<close>

fun balanced :: "event list \<Rightarrow> bool" where
  "balanced [] = True"
| "balanced [Shut] = True"
| "balanced (Wrote l (Ok u) # Received r # evs) = balanced evs"
| "balanced (Wrote l (Err e) # evs) = balanced evs"
| "balanced (Wrote l Panic # evs) = balanced evs"
| "balanced _ = False"

lemma balanced_append: "balanced evs \<Longrightarrow> Shut \<notin> set evs \<Longrightarrow> balanced (evs @ new) = balanced new"
  by (induction evs rule: balanced.induct) auto

lemma exchange_balanced: "exchange line r evs shut \<Longrightarrow> balanced evs \<and> (Shut \<in> set evs \<longleftrightarrow> shut)"
  by (induction rule: exchange.induct) auto

definition log_inv :: "('t \<times> event list) session \<Rightarrow> bool" where
  "log_inv s \<longleftrightarrow>
     (\<exists>h evs. log_of s = Received h # evs \<and> balanced evs \<and> (Shut \<in> set evs \<longrightarrow> is_closed s))"

lemma log_inv_extend:
  assumes "log_inv s" "\<not> is_closed s" "log_of s' = log_of s @ new" "balanced new"
    "Shut \<in> set new \<longrightarrow> is_closed s'"
  shows "log_inv s'"
  using assms balanced_append unfolding log_inv_def by fastforce

lemma log_inv_call:
  assumes "log_inv s" "call (logged T) s kvs = Some (r, s')"
  shows "log_inv s'"
proof (cases "is_closed s")
  case False
  with call_exchange [OF assms(2) False] exchange_balanced log_inv_extend [OF assms(1) False]
  show ?thesis by blast
qed (use assms in simp)

lemma close_log:
  assumes "close_session (logged T) s = Some (r, s')" "\<not> is_closed s"
  shows "\<exists>evs. log_of s' = log_of s @ evs \<and> balanced evs \<and> is_closed s'
    \<and> (r \<noteq> Panic \<longrightarrow> last evs = Shut \<and> evs \<noteq> [])"
proof -
  let ?line = "encode_request_line [(''op'', json_str (str ''close''))]"
  from assms obtain w c1 where w: "write_line (logged T) (conn s) ?line = Some (w, c1)"
    by (auto simp: close_session_def split: bind_splits)
  have l1: "snd c1 = log_of s @ [Wrote ?line w]" using w by (simp add: logged_ops)
  note eq = assms(1) [unfolded close_session_def w bind.bind_lunit prod.case if_not_P [OF assms(2)]]
  show ?thesis
  proof (cases w)
    case (Ok u)
    then obtain rr c2 where rd: "read_line (logged T) c1 (Some CLOSE_TIMEOUT) = Some (rr, c2)"
      using eq by (auto split: bind_splits)
    have l2: "snd c2 = log_of s @ [Wrote ?line (Ok ()), Received rr]"
      using rd l1 Ok by (simp add: logged_ops)
    show ?thesis
    proof (cases "rr = Panic")
      case True
      with eq Ok rd l2 show ?thesis by auto
    next
      case False
      then obtain c c3 where cl: "close_transport (logged T) c2 CLOSE_TIMEOUT = Some (c, c3)"
          "s' = s\<lparr>conn := c3, is_closed := True\<rparr>"
        using eq Ok rd by (auto split: bind_splits)
      then have "snd c3 = log_of s @ [Wrote ?line (Ok ()), Received rr, Shut]"
        using l2 by (simp add: logged_ops)
      with cl show ?thesis by auto
    qed
  next
    case (Err e)
    then obtain c c3 where cl: "close_transport (logged T) c1 CLOSE_TIMEOUT = Some (c, c3)"
        "s' = s\<lparr>conn := c3, is_closed := True\<rparr>"
      using eq by (auto split: bind_splits)
    then have "snd c3 = log_of s @ [Wrote ?line (Err e), Shut]"
      using l1 Err by (simp add: logged_ops)
    with cl show ?thesis by auto
  next
    case Panic
    with eq l1 show ?thesis by auto
  qed
qed

lemma log_inv_close:
  assumes "log_inv s" "close_session (logged T) s = Some (r, s')"
  shows "log_inv s'"
proof (cases "is_closed s")
  case False
  with close_log [OF assms(2) False] log_inv_extend [OF assms(1) False] show ?thesis by blast
qed (use assms in simp)

lemma set_timeout_simps [simp]:
  "conn (set_timeout s t) = conn s" "is_closed (set_timeout s t) = is_closed s"
  "default_timeout (set_timeout s t) = t"
  by (simp_all add: set_timeout_def)

lemma log_inv_set_timeout: "log_inv (set_timeout s t) = log_inv s"
  by (simp add: log_inv_def)

lemma log_inv_step: "log_inv s \<Longrightarrow> step (logged T) q s = Some s' \<Longrightarrow> log_inv s'"
  by (erule step_invariant [where P = log_inv])
     (auto intro: log_inv_call log_inv_close simp: log_inv_set_timeout)

lemma log_inv_new:
  assumes "session_new (logged T) (t, []) tmo = Some (Ok s, c)"
  shows "log_inv s"
proof -
  from assms obtain r c1 where rd: "read_line (logged T) (t, []) tmo = Some (r, c1)"
    by (auto simp: session_new_def split: bind_splits)
  then have "snd c1 = [Received r]" by (simp add: logged_ops)
  moreover have "conn s = c1"
    using assms after_close_cases unfolding session_new_def rd
    by (auto split: result.splits bind_splits if_splits elim: after_close.elims)
  ultimately show ?thesis by (simp add: log_inv_def)
qed

section \<open>The log changes nothing\<close>

definition unlog :: "('t \<times> event list) session \<Rightarrow> 't session" where
  "unlog s = \<lparr>session_hello = session_hello s, conn = fst (conn s), default_timeout = default_timeout s,
     is_closed = is_closed s\<rparr>"

abbreviation unlogged :: "('a \<times> ('t \<times> event list) session) option \<Rightarrow> ('a \<times> 't session) option" where
  "unlogged \<equiv> map_option (map_prod id unlog)"

lemma unlog_simps [simp]:
  "is_closed (unlog s) = is_closed s" "default_timeout (unlog s) = default_timeout s"
  "conn (unlog s) = fst (conn s)" "session_hello (unlog s) = session_hello s"
  by (simp_all add: unlog_def)

lemma unlog_update:
  "unlog (s\<lparr>conn := c\<rparr>) = (unlog s)\<lparr>conn := fst c\<rparr>"
  "unlog (s\<lparr>conn := c, is_closed := b\<rparr>) = (unlog s)\<lparr>conn := fst c, is_closed := b\<rparr>"
  "unlog (set_timeout s t) = set_timeout (unlog s) t"
  by (simp_all add: unlog_def set_timeout_def)

lemma logged_maps:
  "write_line (logged T) c line = map_option (\<lambda>(r, t'). (r, (t', snd c @ [Wrote line r]))) (write_line T (fst c) line)"
  "read_line (logged T) c tmo = map_option (\<lambda>(r, t'). (r, (t', snd c @ [Received r]))) (read_line T (fst c) tmo)"
  "close_transport (logged T) c d = map_option (\<lambda>(r, t'). (r, (t', snd c @ [Shut]))) (close_transport T (fst c) d)"
  by (simp_all add: logged_def split: prod.splits)

lemma call_unlog: "call T (unlog s) kvs = unlogged (call (logged T) s kvs)"
  by (auto simp: call_def logged_maps unlog_update split: option.splits bind_splits result.splits error.splits)

lemma close_unlog: "close_session T (unlog s) = unlogged (close_session (logged T) s)"
  by (auto simp: close_session_def logged_maps unlog_update split: option.splits bind_splits)

lemma call_and_unlog: "call_and T (unlog s) f kvs = unlogged (call_and (logged T) s f kvs)"
  by (simp add: call_and_def call_unlog option.map_comp o_def case_prod_beta)

lemma overwrite_unlog: "overwrite T (unlog s) = unlogged (overwrite (logged T) s)"
  by (cases "call (logged T) s [op_field ''overwrite'']")
     (auto simp: overwrite_def call_unlog close_unlog split: result.splits)

lemma step_unlog: "step T q (unlog s) = map_option unlog (step (logged T) q s)"
  by (cases q)
     (simp_all add: query_def exec_def snapshot_def load_def inspect_def tables_def schema_def dump_def
       call_and_unlog overwrite_unlog close_unlog unlog_update option.map_comp o_def split: result.splits)

lemma run_unlog: "run T qs (unlog s) = map_option unlog (run (logged T) qs s)"
proof (induction qs arbitrary: s)
  case (Cons q qs)
  then show ?case by (cases "step (logged T) q s") (simp_all add: step_unlog)
qed simp

section \<open>Ended is ended\<close>

text \<open>
  What a session needs of its transport. \<open>stuck t e\<close>: reading from \<open>t\<close> can only give the error \<open>e\<close>
  from now on. Reads memoize every failure except a timeout; a closed transport is stuck.
\<close>

locale transport =
  fixes T :: "'t transport_ops" and stuck :: "'t \<Rightarrow> error \<Rightarrow> bool"
  assumes stuck_read: "stuck t e \<Longrightarrow> read_line T t tmo = Some (Err e, t)"
    and stuck_write: "stuck t e \<Longrightarrow> write_line T t line = Some (w, t') \<Longrightarrow> stuck t' e"
    and failed_read: "read_line T t tmo = Some (Err e, t') \<Longrightarrow> (\<And>m. e \<noteq> Timeout m) \<Longrightarrow> stuck t' e"
    and close_stuck: "close_transport T t d = Some (Ok (), t') \<Longrightarrow> stuck t' Closed"
    and stuck_close: "stuck t e \<Longrightarrow> close_transport T t d = Some (c, t') \<Longrightarrow> \<exists>e'. stuck t' e'"
begin

text \<open>A session whose connection is over.\<close>

definition dead :: "'t session \<Rightarrow> bool" where
  "dead s \<longleftrightarrow> is_closed s \<or> (\<exists>e. stuck (conn s) e)"

lemma dead_call:
  assumes "dead s" "call T s kvs = Some (r, s')"
  shows "dead s' \<and> \<not> is_ok r"
proof (cases "is_closed s")
  case True
  then show ?thesis using assms by auto
next
  case False
  with assms(1) obtain e where e: "stuck (conn s) e" by (auto simp: dead_def)
  from assms(2) False obtain w t1 where w: "write_line T (conn s) (encode_request_line kvs) = Some (w, t1)"
    by (auto simp: call_def split: bind_splits)
  have e1: "stuck t1 e" by (rule stuck_write [OF e w])
  note eq = assms(2) [unfolded call_def w bind.bind_lunit prod.case if_not_P [OF False]
      stuck_read [OF e1]]
  show ?thesis
  proof (cases w)
    case (Ok u)
    have "\<not> is_ok (after_close c (Err x))" for c :: "(unit, error) result" and x :: error
      by (cases c) auto
    with eq Ok e1 show ?thesis by (cases e; auto simp: dead_def split: bind_splits)
  qed (use eq e1 in \<open>auto simp: dead_def\<close>)
qed

lemma dead_close:
  assumes "dead s" "close_session T s = Some (r, s')"
  shows "dead s'"
  using assms by (auto simp: close_session_def dead_def split: if_splits bind_splits)

lemma dead_set_timeout: "dead (set_timeout s t) = dead s"
  by (simp add: dead_def)

lemma dead_step: "dead s \<Longrightarrow> step T q s = Some s' \<Longrightarrow> dead s'"
  by (erule step_invariant [where P = dead]) (auto dest: dead_call dead_close simp: dead_set_timeout)

lemma dead_run: "dead s \<Longrightarrow> run T qs s = Some s' \<Longrightarrow> dead s'"
  by (rule run_invariant [OF dead_step])

lemma dead_call_and: "dead s \<Longrightarrow> call_and T s f kvs = Some (r, s') \<Longrightarrow> \<not> is_ok r"
  using dead_call by (fastforce simp: call_and_Some elim: is_ok.elims)

text \<open>Which failures end a connection: all but an error response, a malformed one, and a write.\<close>

lemma call_kills:
  assumes "call T s kvs = Some (r, s')" "\<not> is_closed s"
    "write_line T (conn s) (encode_request_line kvs) = Some (Ok (), t1)"
    "read_line T t1 (default_timeout s) = Some (Err e, t2)"
  shows "dead s'"
  using assms failed_read [OF assms(4)]
  by (cases e) (auto simp: call_def dead_def split: bind_splits)

end

section \<open>Closing returns\<close>

lemma logged_total:
  assumes "\<And>t line. write_line T t line \<noteq> None" "\<And>t tmo. read_line T t tmo \<noteq> None"
    "\<And>t d. close_transport T t d \<noteq> None"
  shows "write_line (logged T) c line \<noteq> None \<and> read_line (logged T) c tmo \<noteq> None
    \<and> close_transport (logged T) c d \<noteq> None"
  using assms by (simp add: logged_maps)

lemma close_returns:
  assumes "\<And>t line tmo d. write_line T t line \<noteq> None \<and> read_line T t tmo \<noteq> None
    \<and> close_transport T t d \<noteq> None"
  shows "close_session T s \<noteq> None"
proof -
  have ops: "\<exists>r t'. write_line T t line = Some (r, t')" "\<exists>r t'. read_line T t tmo = Some (r, t')"
    "\<exists>r t'. close_transport T t d = Some (r, t')" for t line tmo d
    using assms [of t line tmo d] by auto
  let ?line = "encode_request_line [(''op'', json_str (str ''close''))]"
  from ops(1) obtain w t1 where w: "write_line T (conn s) ?line = Some (w, t1)" by blast
  from ops(2) obtain r t2 where r: "read_line T t1 (Some CLOSE_TIMEOUT) = Some (r, t2)" by blast
  from ops(3) obtain c1 u1 where c1: "close_transport T t1 CLOSE_TIMEOUT = Some (c1, u1)" by blast
  from ops(3) obtain c2 u2 where c2: "close_transport T t2 CLOSE_TIMEOUT = Some (c2, u2)" by blast
  show ?thesis unfolding close_session_def w by (simp add: r c1 c2)
qed

section \<open>Properties\<close>

text \<open>
  C9: In every life of a session - the greeting, then any requests in any order - the transport sees
  strict alternation: first the greeting is read, then each request that was sent is followed by
  exactly one read before the next is written, nothing is read unasked, and after a shutdown nothing
  happens any more. The run without the log is the same.
\<close>
theorem session_alternates:
  assumes "session_new (logged T) (t, []) tmo = Some (Ok s, c)" "run (logged T) qs s = Some s'"
  shows "run T qs (unlog s) = Some (unlog s')
    \<and> (\<exists>h evs. log_of s' = Received h # evs \<and> balanced evs \<and> (Shut \<in> set evs \<longrightarrow> is_closed s'))"
proof -
  have "log_inv s'"
    by (rule run_invariant [where P = log_inv, OF log_inv_step assms(2) log_inv_new [OF assms(1)]])
  then show ?thesis using assms(2) by (simp add: run_unlog log_inv_def)
qed

text \<open>
  C19: A call refines its specification: what it returns and whether it gives the connection up is
  determined by what the transport did, and it changes nothing else of the session. A closed session
  does not touch the transport.
\<close>
theorem call_is_one_exchange:
  assumes "call (logged T) s kvs = Some (r, s')"
  shows "if is_closed s then r = Err Closed \<and> s' = s
    else \<exists>evs. log_of s' = log_of s @ evs \<and> exchange (encode_request_line kvs) r evs (is_closed s')
      \<and> default_timeout s' = default_timeout s"
  using assms call_exchange [OF assms] by auto

text \<open>
  C29: Closing ends with the shutdown of the transport and a closed session, whatever the transport
  does short of a panic; when the transport's operations return, so does closing; and closing again does nothing.
\<close>
theorem closing_shuts_once:
  assumes "\<And>t line. write_line T t line \<noteq> None" "\<And>t tmo. read_line T t tmo \<noteq> None"
    "\<And>t d. close_transport T t d \<noteq> None"
  shows "\<exists>r s'. close_session (logged T) s = Some (r, s') \<and> is_closed s'
    \<and> (\<not> is_closed s \<and> r \<noteq> Panic \<longrightarrow> (\<exists>evs. log_of s' = log_of s @ evs @ [Shut]))
    \<and> close_session (logged T) s' = Some (Ok (), s')"
proof (cases "is_closed s")
  case False
  have "close_session (logged T) s \<noteq> None"
    using False close_returns [OF logged_total [OF assms]] by blast
  then obtain r s' where c: "close_session (logged T) s = Some (r, s')" by fastforce
  from close_log [OF c False] obtain evs where evs: "log_of s' = log_of s @ evs" "is_closed s'"
      "r \<noteq> Panic \<longrightarrow> last evs = Shut \<and> evs \<noteq> []" by blast
  then have "r \<noteq> Panic \<longrightarrow> (\<exists>es. log_of s' = log_of s @ es @ [Shut])"
    by (metis append_butlast_last_id)
  with c evs(2) show ?thesis by simp
qed auto

text \<open>
  C20: Opening a session reads one line. It succeeds exactly on a greeting that speaks this protocol, and
  keeps the timeout; otherwise the transport is shut down, and the error is that of the read, of
  the greeting, or says that the protocol differs.
\<close>
theorem greeting_checked:
  assumes "session_new (logged T) (t, []) tmo = Some (r, c)"
  shows "case r of
      Ok s \<Rightarrow> conn s = c \<and> default_timeout s = tmo \<and> \<not> is_closed s
        \<and> (\<exists>line. snd c = [Received (Ok line)] \<and> decode_hello line = Ok (session_hello s))
        \<and> protocol (session_hello s) = PROTOCOL
    | Err e \<Rightarrow> \<exists>x. snd c = [Received x, Shut] \<and>
        (case and_then x decode_hello of
           Ok h \<Rightarrow> protocol h \<noteq> PROTOCOL \<and> (\<exists>m. e = Protocol m) | Err e' \<Rightarrow> e = e' | Panic \<Rightarrow> False)
    | Panic \<Rightarrow> True"
proof -
  from assms obtain x c1 where x: "read_line (logged T) (t, []) tmo = Some (x, c1)"
    by (auto simp: session_new_def split: bind_splits)
  then have l1: "snd c1 = [Received x]" by (simp add: logged_ops)
  note eq = assms [unfolded session_new_def x bind.bind_lunit prod.case]
  have shut: "r = Panic \<or> r = Err e \<and> snd c = [Received x, Shut]"
    if "close_transport (logged T) c1 CLOSE_TIMEOUT = Some (y, c)" "r = after_close y (Err e)" for y e
    using that l1 by (cases y) (simp_all add: logged_ops)
  show ?thesis
  proof (cases "and_then x decode_hello")
    case (Ok h)
    show ?thesis
    proof (cases "protocol h = PROTOCOL")
      case True
      with eq Ok l1 show ?thesis by auto
    next
      case False
      with eq Ok obtain y m where "close_transport (logged T) c1 CLOSE_TIMEOUT = Some (y, c)"
          "r = after_close y (Err (Protocol m))"
        by (auto split: bind_splits)
      from shut [OF this] Ok False show ?thesis by auto
    qed
  next
    case (Err e)
    with eq obtain y where "close_transport (logged T) c1 CLOSE_TIMEOUT = Some (y, c)" "r = after_close y (Err e)"
      by (auto split: bind_splits)
    from shut [OF this] Err show ?thesis by auto
  next
    case Panic
    with eq show ?thesis by auto
  qed
qed

section \<open>Examples\<close>

text \<open>A transport that delivers given lines and then the end of the connection.\<close>

definition scripted :: "bytes list transport_ops" where
  "scripted =
     \<lparr>write_line = (\<lambda>t line. Some (Ok (), t)),
      read_line = (\<lambda>t tmo. case t of [] \<Rightarrow> Some (Err Closed, []) | l # ls \<Rightarrow> Some (Ok l, ls)),
      close_transport = (\<lambda>t d. Some (Ok (), []))\<rparr>"

definition greeting :: bytes where
  "greeting = butlast (encode_request_line
     [(''protocol'', json_of (Integer 1)), (''version'', json_str (str ''2'')), (''product'', json_str (str ''box''))])"

definition greeted :: "(bytes list \<times> event list) session" where
  "greeted =
     \<lparr>session_hello = \<lparr>protocol = 1, hello_version = str ''2'', product = str ''box''\<rparr>,
      conn = ([], [Received (Ok greeting)]), default_timeout = None, is_closed = False\<rparr>"

lemma decode_greeting: "decode_hello greeting = Ok (session_hello greeted)"
  by code_simp

lemma greeting_short: "greeting \<noteq> [] \<and> 10 \<notin> set greeting \<and> length greeting < 100"
  by code_simp

lemma greeting_accepted:
  "session_new (logged scripted) ([greeting], []) None = Some (Ok greeted, conn greeted)"
proof -
  have "read_line (logged scripted) ([greeting], []) None = Some (Ok greeting, ([], [Received (Ok greeting)]))"
    by (simp add: logged_def scripted_def)
  then show ?thesis
    by (simp add: session_new_def decode_greeting PROTOCOL_def) (simp add: greeted_def)
qed

lemma greeting_checked_witness:
  "\<exists>line. log_of greeted = [Received (Ok line)] \<and> decode_hello line = Ok (session_hello greeted)"
  using greeting_checked [OF greeting_accepted] by simp

lemma session_alternates_witness:
  "\<exists>s' h evs. run (logged scripted) [Tables, CloseIt, Inspect] greeted = Some s'
     \<and> log_of s' = Received h # evs \<and> balanced evs \<and> is_closed s'"
proof -
  obtain s1 where 1: "step (logged scripted) Tables greeted = Some s1" "\<not> is_closed s1" "fst (conn s1) = []"
    by (simp add: tables_def call_and_def call_def logged_def scripted_def greeted_def)
  have "\<exists>s2. step (logged scripted) CloseIt s1 = Some s2 \<and> is_closed s2"
    using 1(2,3) by (cases "conn s1") (simp add: close_session_def logged_def scripted_def)
  then obtain s2 where 2: "step (logged scripted) CloseIt s1 = Some s2" "is_closed s2" by blast
  have 3: "step (logged scripted) Inspect s2 = Some s2"
    using 2(2) by (simp add: inspect_def call_and_def)
  have r: "run (logged scripted) [Tables, CloseIt, Inspect] greeted = Some s2"
    by (simp only: run.simps 1 2 3 bind.bind_lunit)
  from session_alternates [OF greeting_accepted r] r 2(2) show ?thesis by blast
qed

lemma call_is_one_exchange_witness:
  "\<exists>r s' evs. call (logged scripted) greeted [] = Some (r, s')
     \<and> log_of s' = log_of greeted @ evs \<and> exchange (encode_request_line []) r evs (is_closed s')"
proof -
  have c: "call (logged scripted) greeted [] = Some (Err Closed,
      greeted\<lparr>conn := ([], log_of greeted @ [Wrote (encode_request_line []) (Ok ()), Received (Err Closed)])\<rparr>)"
    by (simp add: call_def logged_def scripted_def greeted_def)
  have "\<not> is_closed greeted" by (simp add: greeted_def)
  with c call_is_one_exchange [OF c] show ?thesis by auto
qed

lemma closing_shuts_once_witness:
  "\<exists>r s'. close_session (logged scripted) greeted = Some (r, s') \<and> is_closed s'"
proof -
  have "write_line scripted t line \<noteq> None" "read_line scripted t tmo \<noteq> None"
    "close_transport scripted t d \<noteq> None" for t line tmo d
    by (simp_all add: scripted_def split: list.splits)
  from closing_shuts_once [OF this] show ?thesis by blast
qed

end
