(* ===== verification/Framer.thy ===== *)
theory Framer
  imports Errors
begin

text \<open>
  \<open>LineFramer\<close> of \<open>rust/src/transport/mod.rs\<close>: bytes go in by chunks, lines come out. Against a
  specification that splits the whole stream at once, the framer gives the same lines however
  the stream was cut into chunks, bounds what it buffers, and looks at each byte once.
\<close>

section \<open>The code\<close>

definition MAX_LINE_BYTES :: nat where
  "MAX_LINE_BYTES = 2 * 1024 * 1024"

record framer =
  buf :: bytes
  scanned :: nat

definition new_framer :: framer where
  "new_framer = \<lparr>buf = [], scanned = 0\<rparr>"

definition push :: "framer \<Rightarrow> bytes \<Rightarrow> framer" where
  "push f chunk = f\<lparr>buf := buf f @ chunk\<rparr>"

definition line_cap_error :: error where
  "line_cap_error =
     Protocol (str ''response line exceeds '' @ show_nat MAX_LINE_BYTES @ str '' bytes without a newline'')"

text \<open>
  \<open>iter().position(p)\<close> stops at the first hit; the second component counts the elements it was given.
\<close>

fun position_counted :: "('a \<Rightarrow> bool) \<Rightarrow> 'a list \<Rightarrow> nat option \<times> nat" where
  "position_counted p [] = (None, 0)"
| "position_counted p (x # xs) =
     (if p x then (Some 0, 1)
      else case position_counted p xs of (r, n) \<Rightarrow> (map_option Suc r, Suc n))"

lemma position_counted_eq:
  "position_counted p xs = (position p xs, case position p xs of Some i \<Rightarrow> i + 1 | None \<Rightarrow> length xs)"
  by (induction xs) (auto split: option.splits simp del: position_None)

text \<open>
  The whole of \<open>take_line\<close>, with the number of bytes its scan inspects beside the result. The slice
  \<open>buf[scanned..]\<close> panics when \<open>scanned\<close> is past the end.
\<close>

definition take_line_counted :: "framer \<Rightarrow> ((bytes option, error) result \<times> framer) \<times> nat" where
  "take_line_counted f =
     (if length (buf f) < scanned f then ((Panic, f), 0)
      else
        case position_counted (\<lambda>b. b = 10) (drop (scanned f) (buf f)) of
          (Some rel, n) \<Rightarrow>
            let p = scanned f + rel; line = take p (buf f) in
            ((Ok (Some line), \<lparr>buf = drop (p + 1) (buf f), scanned = 0\<rparr>), n)
        | (None, n) \<Rightarrow>
            let f' = f\<lparr>scanned := length (buf f)\<rparr> in
            ((if MAX_LINE_BYTES < length (buf f) then (Err line_cap_error, f') else (Ok None, f')), n))"

definition take_line :: "framer \<Rightarrow> (bytes option, error) result \<times> framer" where
  "take_line f = fst (take_line_counted f)"

lemma take_line_eq:
  "take_line f =
     (if length (buf f) < scanned f then (Panic, f)
      else
        case position (\<lambda>b. b = 10) (drop (scanned f) (buf f)) of
          Some rel \<Rightarrow>
            let p = scanned f + rel; line = take p (buf f) in
            (Ok (Some line), \<lparr>buf = drop (p + 1) (buf f), scanned = 0\<rparr>)
        | None \<Rightarrow>
            let f' = f\<lparr>scanned := length (buf f)\<rparr> in
            if MAX_LINE_BYTES < length (buf f) then (Err line_cap_error, f') else (Ok None, f'))"
  by (simp add: take_line_def take_line_counted_def position_counted_eq Let_def split: option.split
      del: position_None)

text \<open>The inner loop of the readers: every line the buffer holds, then \<open>None\<close> or the error.\<close>

function take_lines :: "framer \<Rightarrow> bytes list \<times> (unit, error) result \<times> framer" where
  "take_lines f =
     (case take_line f of
        (Ok (Some line), f') \<Rightarrow> (case take_lines f' of (ls, r, f'') \<Rightarrow> (line # ls, r, f''))
      | (Ok None, f') \<Rightarrow> ([], Ok (), f')
      | (Err e, f') \<Rightarrow> ([], Err e, f')
      | (Panic, f') \<Rightarrow> ([], Panic, f'))"
  by pat_completeness auto

lemma take_line_shorter: "take_line f = (Ok (Some line), f') \<Longrightarrow> length (buf f') < length (buf f)"
  by (auto simp: take_line_eq Let_def position_Some split: if_splits option.splits)

termination take_lines
  by (relation "measure (\<lambda>f. length (buf f))") (auto dest: take_line_shorter [OF sym])

declare take_lines.simps [simp del]

text \<open>A stream that arrives in chunks: push, take what is there, until the stream or the framer ends.\<close>

fun feed :: "framer \<Rightarrow> bytes list \<Rightarrow> bytes list \<times> (unit, error) result \<times> framer" where
  "feed f [] = ([], Ok (), f)"
| "feed f (c # cs) =
     (case take_lines (push f c) of
        (ls, Ok _, f') \<Rightarrow> (case feed f' cs of (ls', r, f'') \<Rightarrow> (ls @ ls', r, f''))
      | (ls, r, f') \<Rightarrow> (ls, r, f'))"

section \<open>Invariant\<close>

definition framer_ok :: "framer \<Rightarrow> bool" where
  "framer_ok f \<longleftrightarrow> scanned f \<le> length (buf f) \<and> 10 \<notin> set (take (scanned f) (buf f))"

lemma framer_ok_new [simp]: "framer_ok new_framer"
  by (simp add: framer_ok_def new_framer_def)

lemma framer_ok_push [simp]: "framer_ok f \<Longrightarrow> framer_ok (push f c)"
  by (simp add: framer_ok_def push_def)

lemma buf_push [simp]: "buf (push f c) = buf f @ c" "scanned (push f c) = scanned f"
  by (simp_all add: push_def)

text \<open>On the invariant, \<open>take_line\<close> is what its name says, whatever was scanned before.\<close>

lemma take_line_spec:
  assumes "framer_ok f"
  shows "take_line f =
    (if 10 \<in> set (buf f)
     then (Ok (Some (takeWhile (\<lambda>b. b \<noteq> 10) (buf f))),
           \<lparr>buf = tl (dropWhile (\<lambda>b. b \<noteq> 10) (buf f)), scanned = 0\<rparr>)
     else ((if MAX_LINE_BYTES < length (buf f) then Err line_cap_error else Ok None),
           f\<lparr>scanned := length (buf f)\<rparr>))"
proof -
  define a where "a = take (scanned f) (buf f)"
  define b where "b = drop (scanned f) (buf f)"
  have ab: "buf f = a @ b" "length a = scanned f" "10 \<notin> set a" "scanned f \<le> length (buf f)"
    using assms by (auto simp: a_def b_def framer_ok_def)
  show ?thesis
  proof (cases "position (\<lambda>b. b = 10) b")
    case None
    then have "10 \<notin> set b" by auto
    with None ab show ?thesis
      by (simp add: take_line_eq b_def [symmetric] Let_def del: position_None)
  next
    case (Some rel)
    then have r: "rel < length b" "b ! rel = 10" "\<forall>x\<in>set (take rel b). x \<noteq> 10"
      by (auto simp: position_Some)
    have b: "b = take rel b @ 10 # drop (Suc rel) b"
      using r(1,2) id_take_nth_drop [of rel b] by simp
    have "takeWhile (\<lambda>b. b \<noteq> 10) ((a @ take rel b) @ 10 # drop (Suc rel) b) = a @ take rel b
        \<and> dropWhile (\<lambda>b. b \<noteq> 10) ((a @ take rel b) @ 10 # drop (Suc rel) b) = 10 # drop (Suc rel) b"
      using r(3) ab(3) by (intro takeWhile_append_stop) auto
    moreover have "buf f = (a @ take rel b) @ 10 # drop (Suc rel) b" using ab(1) b by simp
    ultimately have tw: "takeWhile (\<lambda>b. b \<noteq> 10) (buf f) = a @ take rel b"
        "dropWhile (\<lambda>b. b \<noteq> 10) (buf f) = 10 # drop (Suc rel) b" "10 \<in> set (buf f)"
      by (simp_all only:) simp
    have "take (scanned f + rel) (buf f) = a @ take rel b" "drop (scanned f + rel + 1) (buf f) = drop (Suc rel) b"
      using ab(1,2) r(1) by simp_all
    with Some ab(4) tw show ?thesis
      by (simp add: take_line_eq b_def [symmetric] Let_def)
  qed
qed

lemma take_line_keeps_ok: "framer_ok f \<Longrightarrow> take_line f = (r, f') \<Longrightarrow> framer_ok f'"
  by (auto simp: take_line_spec framer_ok_def split: if_splits)

section \<open>Refinement of the specification\<close>

text \<open>The lines of a stream, each ended by a line feed, and what follows the last one.\<close>

fun split_lines :: "bytes \<Rightarrow> bytes list \<times> bytes" where
  "split_lines [] = ([], [])"
| "split_lines (b # bs) =
     (case split_lines bs of
        (ls, r) \<Rightarrow>
          if b = 10 then ([] # ls, r)
          else (case ls of [] \<Rightarrow> ([], b # r) | l # ls' \<Rightarrow> ((b # l) # ls', r)))"

lemma split_lines_no_newline: "10 \<notin> set bs \<Longrightarrow> split_lines bs = ([], bs)"
  by (induction bs) auto

lemma split_lines_line: "10 \<notin> set l \<Longrightarrow> split_lines (l @ 10 # bs) = (l # fst (split_lines bs), snd (split_lines bs))"
  by (induction l) (auto split: prod.splits)

lemma split_lines_append:
  "split_lines (as @ bs) =
     (let (ls, r) = split_lines as; (ls', r') = split_lines (r @ bs) in (ls @ ls', r'))"
proof (induction as)
  case (Cons a as)
  obtain ls r where ls: "split_lines as = (ls, r)" by (cases "split_lines as")
  obtain ls' r' where ls': "split_lines (r @ bs) = (ls', r')" by (cases "split_lines (r @ bs)")
  show ?case using Cons ls ls' by (cases ls) (auto split: list.splits prod.splits)
qed simp

lemma split_lines_at:
  assumes "10 \<in> set bs"
  shows "split_lines bs =
    (takeWhile (\<lambda>b. b \<noteq> 10) bs # fst (split_lines (tl (dropWhile (\<lambda>b. b \<noteq> 10) bs))),
     snd (split_lines (tl (dropWhile (\<lambda>b. b \<noteq> 10) bs))))"
proof -
  from assms obtain l r where "bs = l @ 10 # r" "10 \<notin> set l" by (meson split_list_first)
  moreover from \<open>10 \<notin> set l\<close> have "\<forall>b\<in>set l. b \<noteq> 10" by auto
  then have "takeWhile (\<lambda>b. b \<noteq> 10) (l @ 10 # r) = l" "dropWhile (\<lambda>b. b \<noteq> 10) (l @ 10 # r) = 10 # r"
    using takeWhile_append_stop [of l "\<lambda>b. b \<noteq> 10" "10 # r"] by simp_all
  ultimately show ?thesis using split_lines_line by simp
qed

text \<open>All that is buffered is the line still open.\<close>

lemma take_lines_spec:
  assumes "framer_ok f"
  shows "take_lines f =
    (let (ls, r) = split_lines (buf f) in
     (ls, if MAX_LINE_BYTES < length r then Err line_cap_error else Ok (), \<lparr>buf = r, scanned = length r\<rparr>))"
  using assms
proof (induction f rule: take_lines.induct)
  case (1 f)
  show ?case
  proof (cases "10 \<in> set (buf f)")
    case True
    let ?f' = "\<lparr>buf = tl (dropWhile (\<lambda>b. b \<noteq> 10) (buf f)), scanned = 0\<rparr>"
    have t: "take_line f = (Ok (Some (takeWhile (\<lambda>b. b \<noteq> 10) (buf f))), ?f')"
      using take_line_spec [OF 1(2)] True by simp
    have "framer_ok ?f'" by (simp add: framer_ok_def)
    then have "take_lines ?f' = (let (ls, r) = split_lines (buf ?f') in
     (ls, if MAX_LINE_BYTES < length r then Err line_cap_error else Ok (), \<lparr>buf = r, scanned = length r\<rparr>))"
      using "1.IH" [OF t [symmetric] refl refl] by simp
    then show ?thesis
      using t split_lines_at [OF True]
      by (subst take_lines.simps) (auto split: prod.splits simp: Let_def)
  next
    case False
    then show ?thesis
      using take_line_spec [OF 1(2)] split_lines_no_newline [OF False]
      by (subst take_lines.simps) (cases f; auto)
  qed
qed


text \<open>\<open>fits r cs\<close>: in the stream \<open>r\<close> followed by the chunks, the line left open after each chunk is
  within the cap; the framer then never refuses.\<close>

lemma split_lines_rest: "split_lines bs = (ls, r) \<Longrightarrow> 10 \<notin> set r"
  by (induction bs arbitrary: ls r) (auto split: prod.splits list.splits if_splits)

lemma split_lines_open: "split_lines bs = (ls, r) \<Longrightarrow> split_lines r = ([], r)"
  using split_lines_rest split_lines_no_newline by blast

lemma feed_step:
  assumes "framer_ok f"
  shows "feed f (c # cs) =
    (let (ls, r) = split_lines (buf f @ c) in
     if MAX_LINE_BYTES < length r then (ls, Err line_cap_error, \<lparr>buf = r, scanned = length r\<rparr>)
     else let (ls', x, f') = feed \<lparr>buf = r, scanned = length r\<rparr> cs in (ls @ ls', x, f'))"
proof -
  obtain ls r where ls: "split_lines (buf f @ c) = (ls, r)" by (cases "split_lines (buf f @ c)")
  have t: "take_lines (push f c) =
      (ls, if MAX_LINE_BYTES < length r then Err line_cap_error else Ok (), \<lparr>buf = r, scanned = length r\<rparr>)"
    using take_lines_spec [OF framer_ok_push [OF assms, of c]] ls by simp
  show ?thesis by (simp add: t ls)
qed

lemma framer_ok_open: "split_lines bs = (ls, r) \<Longrightarrow> framer_ok \<lparr>buf = r, scanned = length r\<rparr>"
  using split_lines_rest by (simp add: framer_ok_def)

text \<open>The longest line of a stream, the open one included.\<close>

definition lines_fit :: "bytes \<Rightarrow> bool" where
  "lines_fit bs \<longleftrightarrow> (case split_lines bs of (ls, r) \<Rightarrow> \<forall>l\<in>set (r # ls). length l \<le> MAX_LINE_BYTES)"

lemma split_lines_extends:
  assumes "10 \<notin> set r"
  shows "\<exists>l\<in>set (snd (split_lines (r @ bs)) # fst (split_lines (r @ bs))). length r \<le> length l"
proof (cases "10 \<in> set bs")
  case True
  then obtain l t where "bs = l @ 10 # t" "10 \<notin> set l" by (meson split_list_first)
  then have "split_lines (r @ bs) = ((r @ l) # fst (split_lines t), snd (split_lines t))"
    using split_lines_line [of "r @ l" t] assms by simp
  then show ?thesis by simp
next
  case False
  then show ?thesis using split_lines_no_newline [of "r @ bs"] assms by simp
qed

lemma feed_lines:
  assumes "framer_ok f" "lines_fit (buf f @ concat cs)" "10 \<notin> set (buf f)"
  shows "\<exists>f'. feed f cs = (fst (split_lines (buf f @ concat cs)), Ok (), f')
    \<and> framer_ok f' \<and> buf f' = snd (split_lines (buf f @ concat cs))"
  using assms
proof (induction cs arbitrary: f)
  case Nil
  then show ?case by (simp add: split_lines_no_newline)
next
  case (Cons c cs)
  obtain ls r where ls: "split_lines (buf f @ c) = (ls, r)" by (cases "split_lines (buf f @ c)")
  obtain ls' r' where ls': "split_lines (r @ concat cs) = (ls', r')" by (cases "split_lines (r @ concat cs)")
  have all: "split_lines (buf f @ concat (c # cs)) = (ls @ ls', r')"
    using split_lines_append [of "buf f @ c" "concat cs"] ls ls' by simp
  have r: "10 \<notin> set r" by (rule split_lines_rest [OF ls])
  have fit: "lines_fit (r @ concat cs)"
    using Cons.prems(2) all ls' by (auto simp: lines_fit_def)
  then have "length r \<le> MAX_LINE_BYTES"
    using split_lines_extends [OF r, of "concat cs"] by (force simp: lines_fit_def ls')
  moreover obtain f' where "feed \<lparr>buf = r, scanned = length r\<rparr> cs = (ls', Ok (), f')" "framer_ok f'" "buf f' = r'"
    using Cons.IH [OF framer_ok_open [OF ls]] fit r ls' by auto
  ultimately show ?case
    using feed_step [OF Cons.prems(1), of c cs] ls all by auto
qed

text \<open>With any chunking, no line out of the framer exceeds the cap by more than one chunk.\<close>

lemma split_lines_bound:
  "split_lines bs = (ls, r) \<Longrightarrow> l \<in> set (r # ls) \<Longrightarrow> length l \<le> length bs"
  by (induction bs arbitrary: ls r l) (fastforce split: prod.splits list.splits if_splits)+

lemma feed_bound:
  assumes "framer_ok f" "length (buf f) \<le> MAX_LINE_BYTES" "\<forall>c\<in>set cs. length c \<le> n"
    "feed f cs = (ls, x, f')"
  shows "(\<forall>l\<in>set ls. length l \<le> MAX_LINE_BYTES + n) \<and> length (buf f') \<le> MAX_LINE_BYTES + n"
  using assms
proof (induction cs arbitrary: f ls x f')
  case (Cons c cs)
  obtain ks r where ks: "split_lines (buf f @ c) = (ks, r)" by (cases "split_lines (buf f @ c)")
  have k: "length l \<le> MAX_LINE_BYTES + n" if "l \<in> set (r # ks)" for l
    using split_lines_bound [OF ks that] Cons.prems(2,3) by auto
  show ?case
  proof (cases "MAX_LINE_BYTES < length r")
    case True
    then show ?thesis using Cons.prems(4) feed_step [OF Cons.prems(1), of c cs] ks k by auto
  next
    case False
    obtain ls' x' g where g: "feed \<lparr>buf = r, scanned = length r\<rparr> cs = (ls', x', g)"
      by (cases "feed \<lparr>buf = r, scanned = length r\<rparr> cs") auto
    have "ls = ks @ ls'" "f' = g" "x = x'"
      using False Cons.prems(4) feed_step [OF Cons.prems(1), of c cs] ks g by auto
    then show ?thesis
      using Cons.IH [OF framer_ok_open [OF ks] _ _ g] False Cons.prems(3) k by auto
  qed
qed auto

section \<open>Each byte is looked at once\<close>

text \<open>
  The loops of the readers again, on the counting \<open>take_line\<close>: the same lines, and beside them how many
  bytes were inspected in all. What is counted is the search for line feeds; moving the rest of the
  buffer to its front (\<open>drain\<close>) is not.
\<close>

function take_lines_counted :: "framer \<Rightarrow> (bytes list \<times> (unit, error) result \<times> framer) \<times> nat" where
  "take_lines_counted f =
     (case take_line_counted f of
        ((Ok (Some line), f'), n) \<Rightarrow>
          (case take_lines_counted f' of ((ls, r, f''), m) \<Rightarrow> ((line # ls, r, f''), n + m))
      | ((Ok None, f'), n) \<Rightarrow> (([], Ok (), f'), n)
      | ((Err e, f'), n) \<Rightarrow> (([], Err e, f'), n)
      | ((Panic, f'), n) \<Rightarrow> (([], Panic, f'), n))"
  by pat_completeness auto
termination take_lines_counted
proof (relation "measure (\<lambda>f. length (buf f))", goal_cases)
  case (2 f p n q f' x line)
  then have "take_line f = (Ok (Some line), f')" by (simp add: take_line_def flip: 2(1))
  then show ?case by (auto dest: take_line_shorter)
qed simp

declare take_lines_counted.simps [simp del]

fun feed_counted :: "framer \<Rightarrow> bytes list \<Rightarrow> (bytes list \<times> (unit, error) result \<times> framer) \<times> nat" where
  "feed_counted f [] = (([], Ok (), f), 0)"
| "feed_counted f (c # cs) =
     (case take_lines_counted (push f c) of
        ((ls, Ok _, f'), n) \<Rightarrow>
          (case feed_counted f' cs of ((ls', r, f''), m) \<Rightarrow> ((ls @ ls', r, f''), n + m))
      | ((ls, r, f'), n) \<Rightarrow> ((ls, r, f'), n))"

lemma take_line_inspects:
  assumes "framer_ok f" "take_line_counted f = ((r, f'), n)"
  shows "take_line f = (r, f')" "n + (length (buf f') - scanned f') = length (buf f) - scanned f"
proof -
  show "take_line f = (r, f')" using assms(2) by (simp add: take_line_def)
  show "n + (length (buf f') - scanned f') = length (buf f) - scanned f"
  proof (cases "position (\<lambda>b. b = 10) (drop (scanned f) (buf f))")
    case None
    then show ?thesis
      using assms by (auto simp: take_line_counted_def position_counted_eq framer_ok_def Let_def
          simp del: position_None split: if_splits)
  next
    case (Some rel)
    then have "rel < length (buf f) - scanned f" by (simp add: position_Some)
    with Some show ?thesis
      using assms by (auto simp: take_line_counted_def position_counted_eq framer_ok_def Let_def
          split: if_splits)
  qed
qed

lemma take_lines_inspect:
  "framer_ok f \<Longrightarrow> take_lines_counted f = (take_lines f, length (buf f) - scanned f)"
proof (induction f rule: take_lines_counted.induct)
  case (1 f)
  obtain r f' n where t: "take_line_counted f = ((r, f'), n)" by (cases "take_line_counted f") auto
  note i = take_line_inspects [OF 1(2) t]
  have ok: "framer_ok f'" by (rule take_line_keeps_ok [OF 1(2) i(1)])
  show ?case
  proof (cases "\<exists>line. r = Ok (Some line)")
    case True
    then obtain line where "r = Ok (Some line)" by blast
    then have "take_lines_counted f' = (take_lines f', length (buf f') - scanned f')"
      using 1(1) [OF t [symmetric] refl _ refl] ok by auto
    with \<open>r = Ok (Some line)\<close> t i show ?thesis
      by (simp add: take_lines_counted.simps [of f] take_lines.simps [of f] split: prod.splits)
  next
    case False
    then have "length (buf f') - scanned f' = 0"
      using i(1) take_line_spec [OF 1(2)] by (auto split: if_splits)
    then show ?thesis
      using False t i
      by (cases r) (auto simp: take_lines_counted.simps [of f] take_lines.simps [of f] split: option.splits)
  qed
qed

lemma feed_inspects:
  assumes "framer_ok f" "scanned f = length (buf f)"
  shows "fst (feed_counted f cs) = feed f cs"
    "snd (feed_counted f cs) \<le> length (concat cs)"
    "fst (snd (feed f cs)) = Ok () \<Longrightarrow> snd (feed_counted f cs) = length (concat cs)"
proof -
  have "fst (feed_counted f cs) = feed f cs \<and> snd (feed_counted f cs) \<le> length (concat cs)
      \<and> (fst (snd (feed f cs)) = Ok () \<longrightarrow> snd (feed_counted f cs) = length (concat cs))"
    using assms
  proof (induction cs arbitrary: f)
    case (Cons c cs)
    obtain ls r where ls: "split_lines (buf f @ c) = (ls, r)" by (cases "split_lines (buf f @ c)")
    let ?g = "\<lparr>buf = r, scanned = length r\<rparr>"
    have t: "take_lines_counted (push f c) =
        ((ls, if MAX_LINE_BYTES < length r then Err line_cap_error else Ok (), ?g), length c)"
      using take_lines_inspect [OF framer_ok_push [OF Cons.prems(1), of c]]
        take_lines_spec [OF framer_ok_push [OF Cons.prems(1), of c]] ls Cons.prems(2) by simp
    show ?case
      using Cons.IH [OF framer_ok_open [OF ls]] t feed_step [OF Cons.prems(1), of c cs] ls
      by (auto simp del: feed.simps(2) split: prod.splits)
  qed simp
  then show "fst (feed_counted f cs) = feed f cs" "snd (feed_counted f cs) \<le> length (concat cs)"
    "fst (snd (feed f cs)) = Ok () \<Longrightarrow> snd (feed_counted f cs) = length (concat cs)" by blast+
qed

section \<open>Properties\<close>

text \<open>
  Taking a line keeps the invariant (what is marked as scanned is in the buffer and holds no
  newline) and never panics, and it does exactly what its contract says.
\<close>
lemma framer_invariant:
  assumes "framer_ok f"
  shows "fst (take_line f) \<noteq> Panic \<and> framer_ok (snd (take_line f)) \<and> framer_ok (push f chunk)
    \<and> (\<forall>line. fst (take_line f) = Ok (Some line) \<longrightarrow>
         buf f = line @ 10 # buf (snd (take_line f)) \<and> 10 \<notin> set line)"
proof -
  have keeps: "framer_ok (snd (take_line f))"
    using take_line_keeps_ok [OF assms, of "fst (take_line f)"] by simp
  have "buf f = takeWhile (\<lambda>b. b \<noteq> 10) (buf f) @ 10 # tl (dropWhile (\<lambda>b. b \<noteq> 10) (buf f))"
    if "10 \<in> set (buf f)"
    using that by (metis (mono_tags, lifting) dropWhile_eq_Nil_conv hd_Cons_tl hd_dropWhile takeWhile_dropWhile_id)
  then show ?thesis
    using assms keeps take_line_spec [OF assms] by (auto dest: set_takeWhileD split: if_splits)
qed

lemma framer_invariant_witness:
  "fst (take_line (push new_framer [97, 10, 98])) \<noteq> Panic
   \<and> framer_ok (snd (take_line (push new_framer [97, 10, 98])))"
  using framer_invariant [of "push new_framer [97, 10, 98]" "[]"] by simp

text \<open>
  C24: Refinement: as long as the lines of the stream fit the cap, the framer delivers exactly the lines of
  the whole stream, in order, and keeps exactly the open rest, however the stream is cut into chunks.
\<close>
theorem framer_chunking:
  assumes "lines_fit (concat cs)"
  shows "\<exists>f'. feed new_framer cs = (fst (split_lines (concat cs)), Ok (), f')
    \<and> buf f' = snd (split_lines (concat cs))"
  using feed_lines [OF framer_ok_new, of cs] assms by (auto simp: new_framer_def)

lemma framer_chunking_witness:
  "\<exists>f'. feed new_framer [[97], [98, 10, 10, 99], [100]] = ([[97, 98], []], Ok (), f') \<and> buf f' = [99, 100]"
  using framer_chunking [of "[[97], [98, 10, 10, 99], [100]]"]
  by (simp add: lines_fit_def MAX_LINE_BYTES_def)

text \<open>
  C39: Memory is bounded against any peer: with chunks of at most \<open>n\<close> bytes, no delivered line
  and no buffer exceeds the cap by more than \<open>n\<close>.
\<close>
theorem framer_memory_bound:
  assumes "\<forall>c\<in>set cs. length c \<le> n" "feed new_framer cs = (ls, x, f')"
  shows "(\<forall>l\<in>set ls. length l \<le> MAX_LINE_BYTES + n) \<and> length (buf f') \<le> MAX_LINE_BYTES + n"
  by (rule feed_bound [OF framer_ok_new _ assms]) (simp add: new_framer_def)

lemma framer_memory_bound_witness:
  "feed new_framer [[97, 10], [98]] = ([[97]], Ok (), \<lparr>buf = [98], scanned = 1\<rparr>)
   \<and> length (buf \<lparr>buf = [98], scanned = 1\<rparr>) \<le> MAX_LINE_BYTES + 2"
proof -
  have r: "feed new_framer [[97, 10], [98]] = ([[97]], Ok (), \<lparr>buf = [98], scanned = 1\<rparr>)"
    by (simp add: feed_step framer_ok_def new_framer_def MAX_LINE_BYTES_def del: feed.simps(2))
  with framer_memory_bound [of "[[97, 10], [98]]" 2, OF _ r] show ?thesis by simp
qed

text \<open>
  C40: However many chunks a response arrives in, reading its lines costs linear time: the scans that
  \<open>take_line\<close> makes for them inspect no more bytes in all than the stream has (each byte once when the
  stream is read to its end), and the counting run is the run of the code.
\<close>
theorem framer_linear_scan:
  "fst (feed_counted new_framer cs) = feed new_framer cs
   \<and> snd (feed_counted new_framer cs) \<le> length (concat cs)
   \<and> (fst (snd (feed new_framer cs)) = Ok () \<longrightarrow> snd (feed_counted new_framer cs) = length (concat cs))"
  using feed_inspects [OF framer_ok_new, of cs] by (simp add: new_framer_def)

lemma framer_linear_scan_witness: "snd (feed_counted new_framer [[97], [98, 10, 99], [100]]) = 5"
proof -
  have "fst (snd (feed new_framer [[97], [98, 10, 99], [100]])) = Ok ()"
    by (simp add: feed_step framer_ok_def new_framer_def MAX_LINE_BYTES_def del: feed.simps(2))
  with framer_linear_scan [of "[[97], [98, 10, 99], [100]]"] show ?thesis by simp
qed

end
