(* ===== verification/Loops.thy ===== *)
theory Loops
  imports Errors
begin

text \<open>
  What the transports share: \<open>loop { .. }\<close> over a state, where the body ends the loop with a value
  or goes round again, and the arithmetic of \<open>Instant\<close>.
\<close>

section \<open>Loops\<close>

text \<open>\<open>None\<close>: the loop, or a call in its body, never returns.\<close>

partial_function (option) repeat :: "('s \<Rightarrow> ('r option \<times> 's) option) \<Rightarrow> 's \<Rightarrow> ('r \<times> 's) option" where
  "repeat f s = do { (r, s') \<leftarrow> f s; (case r of Some x \<Rightarrow> Some (x, s') | None \<Rightarrow> repeat f s') }"

lemma repeat_invariant:
  assumes ret: "repeat f s = Some (x, s')" and init: "P s"
    and again: "\<And>s s'. P s \<Longrightarrow> f s = Some (None, s') \<Longrightarrow> P s'"
    and stop: "\<And>s s' x. P s \<Longrightarrow> f s = Some (Some x, s') \<Longrightarrow> Q x s'"
  shows "Q x s'"
proof -
  define body where "body = f"
  have "body = f \<longrightarrow> P s \<longrightarrow> Q (fst (x, s')) (snd (x, s'))"
  proof (rule repeat.raw_induct [where P = "\<lambda>g s y. g = f \<longrightarrow> P s \<longrightarrow> Q (fst y) (snd y)"])
    show "repeat body s = Some (x, s')" using ret by (simp add: body_def)
  next
    fix rec g s y
    assume IH: "\<And>g s y. rec g s = Some y \<Longrightarrow> g = f \<longrightarrow> P s \<longrightarrow> Q (fst y) (snd y)"
      and eq: "(g s \<bind> (\<lambda>(r, s'). case r of None \<Rightarrow> rec g s' | Some x \<Rightarrow> Some (x, s'))) = Some y"
    show "g = f \<longrightarrow> P s \<longrightarrow> Q (fst y) (snd y)"
    proof (intro impI)
      assume g: "g = f" and p: "P s"
      from eq g obtain r t where f: "f s = Some (r, t)" by (auto split: bind_splits)
      show "Q (fst y) (snd y)"
      proof (cases r)
        case None
        with eq g f have "rec g t = Some y" by simp
        then show ?thesis using IH g again [OF p] f None by simp
      next
        case (Some v)
        with eq g f stop [OF p] show ?thesis by auto
      qed
    qed
  qed
  with init show ?thesis by (simp add: body_def)
qed

lemma repeat_returns:
  assumes "wf R" "P s"
    and returns: "\<And>s. P s \<Longrightarrow> f s \<noteq> None"
    and again: "\<And>s s'. P s \<Longrightarrow> f s = Some (None, s') \<Longrightarrow> P s' \<and> (s', s) \<in> R"
  shows "repeat f s \<noteq> None"
  using assms(1,2)
proof (induction s rule: wf_induct_rule)
  case (less s)
  then obtain r t where f: "f s = Some (r, t)" using returns [of s] by auto
  show ?case
  proof (cases r)
    case None
    then have "repeat f t \<noteq> None" using less.IH less.prems again f by blast
    with None f show ?thesis by (subst repeat.simps) simp
  qed (use f in \<open>subst repeat.simps, simp\<close>)
qed

section \<open>Time\<close>

text \<open>
  \<open>Instant\<close> holds whole seconds in an \<open>i64\<close> on Unix; \<open>now + t\<close> panics beyond that ("overflow when adding
  duration to instant"). The difference of two instants saturates at zero, like \<open>nat\<close> subtraction.
\<close>

definition INSTANT_END :: instant where
  "INSTANT_END = 2 ^ 63 * 10 ^ 9"

definition add_instant :: "instant \<Rightarrow> duration \<Rightarrow> (instant, error) result" where
  "add_instant i t = (if i + t < INSTANT_END then Ok (i + t) else Panic)"

text \<open>\<open>Duration::MAX\<close>: the largest the type holds.\<close>

definition DURATION_MAX :: duration where
  "DURATION_MAX = (2 ^ 64 - 1) * 10 ^ 9 + 999999999"

lemma add_instant_max: "add_instant i DURATION_MAX = Panic"
  by (simp add: add_instant_def DURATION_MAX_def INSTANT_END_def)

lemma add_instant_Ok [simp]: "add_instant i t = Ok d \<longleftrightarrow> d = i + t \<and> i + t < INSTANT_END"
  by (auto simp: add_instant_def)

lemma add_instant_not_Err [simp]: "add_instant i t \<noteq> Err e"
  by (simp add: add_instant_def)

text \<open>\<open>timeout.map(|t| Instant::now() + t)\<close>, and \<open>deadline.is_some_and(|dl| Instant::now() >= dl)\<close>.\<close>

fun deadline_in :: "('w \<Rightarrow> instant \<times> 'w) \<Rightarrow> duration option \<Rightarrow> 'w \<Rightarrow> (instant option, error) result \<times> 'w" where
  "deadline_in clock None w = (Ok None, w)"
| "deadline_in clock (Some t) w =
     (case clock w of (now, w') \<Rightarrow> (and_then (add_instant now t) (\<lambda>d. Ok (Some d)), w'))"

fun timed_out :: "('w \<Rightarrow> instant \<times> 'w) \<Rightarrow> instant option \<Rightarrow> 'w \<Rightarrow> bool \<times> 'w" where
  "timed_out clock None w = (False, w)"
| "timed_out clock (Some dl) w = (case clock w of (now, w') \<Rightarrow> (dl \<le> now, w'))"

definition timeout_error :: error where
  "timeout_error = Timeout (str ''timed out waiting for a response line'')"

definition eof_error :: error where
  "eof_error = Protocol (str ''connection closed (EOF)'')"

text \<open>
  What is known of a clock: a call ends at the instant it gives, which is not before the call began
  and at most \<open>c\<close> later; \<open>clk w\<close> is the time in the world \<open>w\<close>.
\<close>

definition clock_ok :: "('w \<Rightarrow> instant \<times> 'w) \<Rightarrow> ('w \<Rightarrow> instant) \<Rightarrow> duration \<Rightarrow> bool" where
  "clock_ok clock clk c \<longleftrightarrow> (\<forall>w. case clock w of (now, w') \<Rightarrow> clk w' = now \<and> clk w \<le> now \<and> now \<le> clk w + c)"

lemma clock_okD:
  "clock_ok clock clk c \<Longrightarrow> clock w = (now, w') \<Longrightarrow> clk w' = now \<and> clk w \<le> now \<and> now \<le> clk w + c"
  unfolding clock_ok_def by (metis (mono_tags, lifting) case_prod_conv)

text \<open>The clock is not so near its end that a deadline cannot be computed.\<close>

definition clock_lasts :: "('w \<Rightarrow> instant \<times> 'w) \<Rightarrow> duration option \<Rightarrow> 'w \<Rightarrow> bool" where
  "clock_lasts clock tmo w \<longleftrightarrow> (\<forall>t. tmo = Some t \<longrightarrow> fst (clock w) + t < INSTANT_END)"

lemma clock_lasts_None [simp]: "clock_lasts clock None w"
  by (simp add: clock_lasts_def)

lemma deadline_in_lasts:
  "clock_lasts clock tmo w \<Longrightarrow> deadline_in clock tmo w = (r, w') \<Longrightarrow>
     r = Ok (map_option (\<lambda>t. fst (clock w) + t) tmo) \<and> (tmo = None \<or> w' = snd (clock w))"
  by (cases tmo) (auto simp: clock_lasts_def add_instant_def split: prod.splits)

lemma timed_out_clock:
  assumes "clock_ok clock clk c" "timed_out clock dl w = (b, w')"
  shows "clk w \<le> clk w' \<and> clk w' \<le> clk w + c \<and> (\<forall>d. dl = Some d \<longrightarrow> b = (d \<le> clk w')) \<and> (dl = None \<longrightarrow> \<not> b)"
proof (cases dl)
  case (Some d)
  obtain now v where c: "clock w = (now, v)" by (cases "clock w")
  with assms(2) Some clock_okD [OF assms(1) c] show ?thesis by auto
qed (use assms in auto)

lemma deadline_in_clock:
  assumes "clock_ok clock clk c" "deadline_in clock (Some t) w = (r, w')"
  shows "clk w \<le> clk w' \<and> clk w' \<le> clk w + c
    \<and> r = (if clk w' + t < INSTANT_END then Ok (Some (clk w' + t)) else Panic)"
proof -
  obtain now v where c: "clock w = (now, v)" by (cases "clock w")
  with assms(2) clock_okD [OF assms(1) c]
  show "clk w \<le> clk w' \<and> clk w' \<le> clk w + c
    \<and> r = (if clk w' + t < INSTANT_END then Ok (Some (clk w' + t)) else Panic)"
    by (auto simp: add_instant_def)
qed

end
