(* ===== verification/Socket.thy ===== *)
theory Socket
  imports SessionProps Framer Loops
begin

text \<open>
  \<open>SocketTransport\<close> of \<open>rust/src/transport/socket.rs\<close>: lines over any stream, read inline on the
  caller's thread, with a deadline checked between reads.
\<close>

section \<open>The stream\<close>

text \<open>
  The stream (\<open>Box<dyn ReadWrite>\<close>), the clock and the resolver are parameters over a world \<open>'w\<close>.
  \<open>None\<close>: the call never returns. A read gives the bytes it put at the front of the buffer.
\<close>

record 'w stream_ops =
  stream_read :: "'w \<Rightarrow> nat \<Rightarrow> ((bytes, io_error) result \<times> 'w) option"
  stream_write_all :: "'w \<Rightarrow> bytes \<Rightarrow> ((unit, io_error) result \<times> 'w) option"
  stream_flush :: "'w \<Rightarrow> ((unit, io_error) result \<times> 'w) option"
  stream_now :: "'w \<Rightarrow> instant \<times> 'w"

definition POLL_INTERVAL :: duration where
  "POLL_INTERVAL = 20 * 10 ^ 6"

definition BUF_SIZE :: nat where
  "BUF_SIZE = 64 * 1024"

record 'w socket =
  stream :: 'w
  framing :: framer
  terminal :: "error option"

definition from_stream :: "'w \<Rightarrow> 'w socket" where
  "from_stream w = \<lparr>stream = w, framing = new_framer, terminal = None\<rparr>"

section \<open>Writing and closing\<close>

definition socket_write_line :: "'w stream_ops \<Rightarrow> 'w socket \<Rightarrow> bytes \<Rightarrow> ((unit, error) result \<times> 'w socket) option" where
  "socket_write_line E s line =
     do {
       (r, w1) \<leftarrow> stream_write_all E (stream s) line;
       (case r of
          Ok _ \<Rightarrow> do { (r, w2) \<leftarrow> stream_flush E w1; Some (map_err from_io r, s\<lparr>stream := w2\<rparr>) }
        | Err e \<Rightarrow> Some (Err (from_io e), s\<lparr>stream := w1\<rparr>)
        | Panic \<Rightarrow> Some (Panic, s\<lparr>stream := w1\<rparr>))
     }"

definition socket_close :: "'w socket \<Rightarrow> duration \<Rightarrow> ((unit, error) result \<times> 'w socket) option" where
  "socket_close s d = Some (Ok (), s\<lparr>terminal := Some Closed\<rparr>)"

section \<open>Reading\<close>

definition take_or_terminal :: "'w socket \<Rightarrow> (bytes option, error) result \<times> 'w socket" where
  "take_or_terminal s =
     (case take_line (framing s) of
        (Err e, f) \<Rightarrow> (Err e, s\<lparr>framing := f, terminal := Some e\<rparr>)
      | (r, f) \<Rightarrow> (r, s\<lparr>framing := f\<rparr>))"

text \<open>The check of the deadline: a timeout ends the loop, otherwise it goes round again.\<close>

definition check_deadline ::
  "'w stream_ops \<Rightarrow> instant option \<Rightarrow> 'w socket \<Rightarrow> (bytes, error) result option \<times> 'w socket" where
  "check_deadline E dl s =
     (case timed_out (stream_now E) dl (stream s) of
        (b, w) \<Rightarrow> ((if b then Some (Err timeout_error) else None), s\<lparr>stream := w\<rparr>))"

definition read_step ::
  "'w stream_ops \<Rightarrow> instant option \<Rightarrow> 'w socket \<Rightarrow> ((bytes, error) result option \<times> 'w socket) option" where
  "read_step E dl s =
     do {
       (r, w) \<leftarrow> stream_read E (stream s) BUF_SIZE;
       Some (let s1 = s\<lparr>stream := w\<rparr> in
         case r of
           Ok chunk \<Rightarrow>
             if chunk = [] then (Some (Err eof_error), s1\<lparr>terminal := Some eof_error\<rparr>)
             else if BUF_SIZE < length chunk then (Some Panic, s1)
             else
               (case take_or_terminal (s1\<lparr>framing := push (framing s1) chunk\<rparr>) of
                  (Ok (Some line), s2) \<Rightarrow> (Some (Ok line), s2)
                | (Ok None, s2) \<Rightarrow> check_deadline E dl s2
                | (Err e, s2) \<Rightarrow> (Some (Err e), s2)
                | (Panic, s2) \<Rightarrow> (Some Panic, s2))
         | Err e \<Rightarrow>
             if kind e = WouldBlock \<or> kind e = TimedOut then check_deadline E dl s1
             else if kind e = Interrupted then (None, s1)
             else (Some (Err (from_io e)), s1\<lparr>terminal := Some (from_io e)\<rparr>)
         | Panic \<Rightarrow> (Some Panic, s1))
     }"

definition socket_read_line ::
  "'w stream_ops \<Rightarrow> 'w socket \<Rightarrow> duration option \<Rightarrow> ((bytes, error) result \<times> 'w socket) option" where
  "socket_read_line E s tmo =
     (case terminal s of
        Some e \<Rightarrow> Some (Err e, s)
      | None \<Rightarrow>
          (case take_or_terminal s of
             (Ok (Some line), s1) \<Rightarrow> Some (Ok line, s1)
           | (Ok None, s1) \<Rightarrow>
               (case deadline_in (stream_now E) tmo (stream s1) of
                  (Ok dl, w) \<Rightarrow> repeat (read_step E dl) (s1\<lparr>stream := w\<rparr>)
                | (Err e, w) \<Rightarrow> Some (Err e, s1\<lparr>stream := w\<rparr>)
                | (Panic, w) \<Rightarrow> Some (Panic, s1\<lparr>stream := w\<rparr>))
           | (Err e, s1) \<Rightarrow> Some (Err e, s1)
           | (Panic, s1) \<Rightarrow> Some (Panic, s1)))"

definition socket_transport :: "'w stream_ops \<Rightarrow> 'w socket transport_ops" where
  "socket_transport E =
     \<lparr>write_line = socket_write_line E, read_line = socket_read_line E, close_transport = socket_close\<rparr>"

lemma socket_transport_simps [simp]:
  "write_line (socket_transport E) = socket_write_line E"
  "read_line (socket_transport E) = socket_read_line E"
  "close_transport (socket_transport E) = socket_close"
  by (simp_all add: socket_transport_def)

section \<open>The contract of a transport\<close>

lemma take_or_terminal_simps:
  "take_or_terminal s = (r, s') \<Longrightarrow>
     stream s' = stream s \<and> take_line (framing s) = (r, framing s')
     \<and> terminal s' = (case r of Err e \<Rightarrow> Some e | _ \<Rightarrow> terminal s)"
  by (cases "take_line (framing s)"; cases "fst (take_line (framing s))") (auto simp: take_or_terminal_def)

lemma check_deadline_simps:
  "check_deadline E dl s = (r, s') \<Longrightarrow>
     framing s' = framing s \<and> terminal s' = terminal s
     \<and> (\<exists>b. timed_out (stream_now E) dl (stream s) = (b, stream s')
          \<and> r = (if b then Some (Err timeout_error) else None))"
  by (cases "timed_out (stream_now E) dl (stream s)") (auto simp: check_deadline_def)

lemma timeout_error_is_Timeout: "\<exists>m. timeout_error = Timeout m"
  by (simp add: timeout_error_def)

text \<open>What one round of the loop may do, by cases.\<close>

lemma read_step_cases:
  assumes "read_step E dl s = Some (r, s')"
  obtains
    (eof) "r = Some (Err eof_error)" "terminal s' = Some eof_error" "framing s' = framing s"
      "stream_read E (stream s) BUF_SIZE = Some (Ok [], stream s')"
  | (line) chunk line where "r = Some (Ok line)" "terminal s' = terminal s" "chunk \<noteq> []"
      "stream_read E (stream s) BUF_SIZE = Some (Ok chunk, stream s')"
      "take_line (push (framing s) chunk) = (Ok (Some line), framing s')"
  | (more) chunk w b where "chunk \<noteq> []" "terminal s' = terminal s"
      "stream_read E (stream s) BUF_SIZE = Some (Ok chunk, w)"
      "take_line (push (framing s) chunk) = (Ok None, framing s')"
      "timed_out (stream_now E) dl w = (b, stream s')"
      "r = (if b then Some (Err timeout_error) else None)"
  | (cap) chunk e where "r = Some (Err e)" "terminal s' = Some e" "chunk \<noteq> []"
      "stream_read E (stream s) BUF_SIZE = Some (Ok chunk, stream s')"
      "take_line (push (framing s) chunk) = (Err e, framing s')"
  | (panic) rd where "r = Some Panic" "terminal s' = terminal s"
      "stream_read E (stream s) BUF_SIZE = Some (rd, stream s')"
      "rd = Panic \<or> (\<exists>chunk. rd = Ok chunk \<and> (BUF_SIZE < length chunk \<or> fst (take_line (push (framing s) chunk)) = Panic))"
  | (block) e w b where "stream_read E (stream s) BUF_SIZE = Some (Err e, w)"
      "kind e = WouldBlock \<or> kind e = TimedOut" "framing s' = framing s" "terminal s' = terminal s"
      "timed_out (stream_now E) dl w = (b, stream s')"
      "r = (if b then Some (Err timeout_error) else None)"
  | (intr) e where "stream_read E (stream s) BUF_SIZE = Some (Err e, stream s')" "kind e = Interrupted"
      "r = None" "framing s' = framing s" "terminal s' = terminal s"
  | (fail) e where "stream_read E (stream s) BUF_SIZE = Some (Err e, stream s')"
      "kind e \<notin> {WouldBlock, TimedOut, Interrupted}" "r = Some (Err (from_io e))"
      "terminal s' = Some (from_io e)" "framing s' = framing s"
proof -
  from assms obtain rd w where rd: "stream_read E (stream s) BUF_SIZE = Some (rd, w)"
    by (auto simp: read_step_def split: bind_splits)
  note eq = assms [unfolded read_step_def rd bind.bind_lunit prod.case Let_def option.inject]
  show ?thesis
  proof (cases rd)
    case (Ok chunk)
    consider "chunk = []" | "chunk \<noteq> []" "BUF_SIZE < length chunk" | "chunk \<noteq> []" "\<not> BUF_SIZE < length chunk"
      by blast
    then show ?thesis
    proof cases
      case 3
      obtain t s2 where t: "take_or_terminal (s\<lparr>stream := w, framing := push (framing s) chunk\<rparr>) = (t, s2)"
        by (cases "take_or_terminal (s\<lparr>stream := w, framing := push (framing s) chunk\<rparr>)")
      note t' = take_or_terminal_simps [OF t, simplified]
      from eq Ok 3 t have eq': "(case (t, s2) of (Ok (Some line), s2) \<Rightarrow> (Some (Ok line), s2)
                | (Ok None, s2) \<Rightarrow> check_deadline E dl s2
                | (Err e, s2) \<Rightarrow> (Some (Err e), s2)
                | (Panic, s2) \<Rightarrow> (Some Panic, s2)) = (r, s')" by simp
      show ?thesis
      proof (cases t)
        case tok: (Ok l)
        show ?thesis
        proof (cases l)
          case None
          with eq' tok have "check_deadline E dl s2 = (r, s')" by simp
          from check_deadline_simps [OF this] t' tok None 3 rd Ok more show ?thesis by auto
        qed (use eq' tok t' 3 rd Ok line in auto)
      qed (use eq' t' 3 rd Ok cap panic in auto)
    qed (use eq Ok rd eof panic in auto)
  next
    case (Err e)
    consider "kind e = WouldBlock \<or> kind e = TimedOut" | "kind e = Interrupted"
      | "kind e \<notin> {WouldBlock, TimedOut, Interrupted}" by blast
    then show ?thesis
    proof cases
      case 1
      with eq Err have "check_deadline E dl (s\<lparr>stream := w\<rparr>) = (r, s')" by simp
      from check_deadline_simps [OF this] 1 rd Err block show ?thesis by auto
    qed (use eq Err rd intr fail in auto)
  next
    case Panic
    with eq panic rd show ?thesis by auto
  qed
qed

lemma read_step_error:
  "read_step E dl s = Some (Some (Err e), s') \<Longrightarrow> (\<And>m. e \<noteq> Timeout m) \<Longrightarrow> terminal s' = Some e"
  using timeout_error_is_Timeout by (elim read_step_cases) (auto split: if_splits)

lemma socket_failed_read:
  assumes "socket_read_line E s tmo = Some (Err e, s')" "\<And>m. e \<noteq> Timeout m"
  shows "terminal s' = Some e"
proof (cases "terminal s")
  case None
  obtain t s1 where t: "take_or_terminal s = (t, s1)" by (cases "take_or_terminal s")
  show ?thesis
  proof (cases t)
    case (Ok l)
    obtain d w where d: "deadline_in (stream_now E) tmo (stream s1) = (d, w)"
      by (cases "deadline_in (stream_now E) tmo (stream s1)")
    have "d \<noteq> Err x" for x using d by (cases tmo) (auto simp: add_instant_def split: prod.splits if_splits)
    with assms None t Ok d obtain dl where
      "repeat (read_step E dl) (s1\<lparr>stream := w\<rparr>) = Some (Err e, s')"
      by (cases d; cases l) (auto simp: socket_read_line_def)
    from repeat_invariant [OF this, of "\<lambda>_. True" "\<lambda>r s'. \<forall>e. r = Err e \<longrightarrow> (\<forall>m. e \<noteq> Timeout m) \<longrightarrow> terminal s' = Some e"]
    show ?thesis using read_step_error assms(2) by blast
  qed (use assms None t take_or_terminal_simps [OF t] in \<open>auto simp: socket_read_line_def\<close>)
qed (use assms in \<open>simp add: socket_read_line_def\<close>)

definition socket_stuck :: "'w socket \<Rightarrow> error \<Rightarrow> bool" where
  "socket_stuck s e \<longleftrightarrow> terminal s = Some e"

lemma socket_write_keeps:
  "socket_write_line E s line = Some (r, s') \<Longrightarrow> terminal s' = terminal s \<and> framing s' = framing s"
  by (auto simp: socket_write_line_def split: bind_splits result.splits)

interpretation sockets: transport "socket_transport E" socket_stuck for E :: "'w stream_ops"
proof unfold_locales
  show "read_line (socket_transport E) t tmo = Some (Err e, t)" if "socket_stuck t e" for t :: "'w socket" and e tmo
    using that by (simp add: socket_stuck_def socket_read_line_def)
qed (auto simp: socket_stuck_def socket_close_def socket_write_keeps intro: socket_failed_read)

end
