(* ===== verification/SocketProps.thy ===== *)
theory SocketProps
  imports Socket
begin

text \<open>
  What \<open>SocketTransport\<close> delivers: no byte lost or repeated, reads that come back, timeouts neither
  early nor late, and connections that stay ended.
\<close>

section \<open>Bytes\<close>

text \<open>\<open>got w\<close>: the bytes the stream has given out so far.\<close>

definition counts_bytes :: "'w stream_ops \<Rightarrow> ('w \<Rightarrow> bytes) \<Rightarrow> bool" where
  "counts_bytes E got \<longleftrightarrow>
     (\<forall>w r w'. stream_read E w BUF_SIZE = Some (r, w') \<longrightarrow> got w' = got w @ (case r of Ok c \<Rightarrow> c | _ \<Rightarrow> []))
     \<and> (\<forall>w. got (snd (stream_now E w)) = got w)
     \<and> (\<forall>w line r w'. stream_write_all E w line = Some (r, w') \<longrightarrow> got w' = got w)
     \<and> (\<forall>w r w'. stream_flush E w = Some (r, w') \<longrightarrow> got w' = got w)"

lemma counts_read:
  "counts_bytes E got \<Longrightarrow> stream_read E w BUF_SIZE = Some (r, w') \<Longrightarrow>
     got w' = got w @ (case r of Ok c \<Rightarrow> c | _ \<Rightarrow> [])"
  by (simp add: counts_bytes_def)

lemma counts_now: "counts_bytes E got \<Longrightarrow> stream_now E w = (now, w') \<Longrightarrow> got w' = got w"
  unfolding counts_bytes_def by (metis snd_conv)

lemma counts_write:
  "counts_bytes E got \<Longrightarrow> socket_write_line E s line = Some (r, s') \<Longrightarrow> got (stream s') = got (stream s)"
  by (auto simp: counts_bytes_def socket_write_line_def split: bind_splits result.splits)

lemma counts_timed_out:
  "counts_bytes E got \<Longrightarrow> timed_out (stream_now E) dl w = (b, w') \<Longrightarrow> got w' = got w"
  by (cases dl) (auto split: prod.splits dest: counts_now)

lemma counts_deadline:
  "counts_bytes E got \<Longrightarrow> deadline_in (stream_now E) tmo w = (r, w') \<Longrightarrow> got w' = got w"
  by (cases tmo) (auto split: prod.splits dest: counts_now)

lemma take_line_exact:
  assumes "framer_ok f" "take_line f = (r, f')"
  shows "framer_ok f' \<and> (case r of
      Ok (Some l) \<Rightarrow> buf f = l @ 10 # buf f' \<and> 10 \<notin> set l
    | Panic \<Rightarrow> False
    | _ \<Rightarrow> buf f' = buf f)"
proof (cases "10 \<in> set (buf f)")
  case True
  then obtain l t where lt: "buf f = l @ 10 # t" "10 \<notin> set l" by (meson split_list_first)
  then have "\<forall>b\<in>set l. b \<noteq> 10" by auto
  then have "takeWhile (\<lambda>b. b \<noteq> 10) (buf f) = l" "dropWhile (\<lambda>b. b \<noteq> 10) (buf f) = 10 # t"
    using takeWhile_append_stop [of l "\<lambda>b. b \<noteq> 10" "10 # t"] lt(1) by simp_all
  with take_line_spec [OF assms(1)] True assms(2) lt show ?thesis by (auto simp: framer_ok_def)
next
  case False
  with take_line_spec [OF assms(1)] assms show ?thesis by (auto simp: framer_ok_def split: if_splits)
qed

text \<open>What one read does to the open line, given the bytes that arrived during it.\<close>

fun accounts :: "bytes \<Rightarrow> bytes \<Rightarrow> (bytes, error) result \<Rightarrow> bytes \<Rightarrow> bool" where
  "accounts before new (Ok line) after \<longleftrightarrow> before @ new = line @ 10 # after \<and> 10 \<notin> set line"
| "accounts before new (Err e) after \<longleftrightarrow> before @ new = after"
| "accounts before new Panic after \<longleftrightarrow> True"

lemma read_step_exact:
  assumes "read_step E dl s = Some (r, s')" "framer_ok (framing s)" "counts_bytes E got"
    "got (stream s) = base @ new" "buf (framing s) = start @ new"
  shows "case r of
      None \<Rightarrow> framer_ok (framing s') \<and> (\<exists>new'. got (stream s') = base @ new' \<and> buf (framing s') = start @ new')
    | Some (Ok line) \<Rightarrow> framer_ok (framing s') \<and> (\<exists>new'. got (stream s') = base @ new' \<and> accounts start new' (Ok line) (buf (framing s')))
    | Some (Err e) \<Rightarrow> framer_ok (framing s') \<and> (\<exists>new'. got (stream s') = base @ new' \<and> accounts start new' (Err e) (buf (framing s')))
    | Some Panic \<Rightarrow> True"
  using assms(1)
proof (cases rule: read_step_cases)
  case eof
  then show ?thesis using counts_read [OF assms(3) eof(4)] assms by simp
next
  case (line chunk line)
  then show ?thesis
    using counts_read [OF assms(3) line(4)] take_line_exact [OF framer_ok_push [OF assms(2)] line(5)] assms
    by auto
next
  case (more chunk w b)
  then show ?thesis
    using counts_read [OF assms(3) more(3)] counts_timed_out [OF assms(3) more(5)]
      take_line_exact [OF framer_ok_push [OF assms(2)] more(4)] assms
    by auto
next
  case (cap chunk e)
  then show ?thesis
    using counts_read [OF assms(3) cap(4)] take_line_exact [OF framer_ok_push [OF assms(2)] cap(5)] assms
    by auto
next
  case (block e w b)
  then show ?thesis
    using counts_read [OF assms(3) block(1)] counts_timed_out [OF assms(3) block(5)] assms by auto
next
  case (intr e)
  then show ?thesis using counts_read [OF assms(3) intr(1)] assms by auto
next
  case (fail e)
  then show ?thesis using counts_read [OF assms(3) fail(1)] assms by auto
qed simp

lemma socket_read_exact:
  assumes "socket_read_line E s tmo = Some (r, s')" "framer_ok (framing s)" "counts_bytes E got" "r \<noteq> Panic"
  shows "framer_ok (framing s') \<and> (\<exists>new. got (stream s') = got (stream s) @ new
    \<and> accounts (buf (framing s)) new r (buf (framing s')))"
proof (cases "terminal s")
  case None
  obtain t s1 where t: "take_or_terminal s = (t, s1)" by (cases "take_or_terminal s")
  from take_or_terminal_simps [OF t] take_line_exact [OF assms(2)]
  have s1: "stream s1 = stream s" "framer_ok (framing s1)" and tk: "case t of
      Ok (Some l) \<Rightarrow> buf (framing s) = l @ 10 # buf (framing s1) \<and> 10 \<notin> set l
    | Panic \<Rightarrow> False
    | _ \<Rightarrow> buf (framing s1) = buf (framing s)" by blast+
  show ?thesis
  proof (cases "t = Ok None")
    case True
    obtain d w where d: "deadline_in (stream_now E) tmo (stream s1) = (d, w)"
      by (cases "deadline_in (stream_now E) tmo (stream s1)")
    have dn: "d \<noteq> Err x" for x using d by (cases tmo) (auto simp: add_instant_def split: prod.splits if_splits)
    with assms(1,4) None t True d obtain dl where
      rep: "repeat (read_step E dl) (s1\<lparr>stream := w\<rparr>) = Some (r, s')"
      by (cases d) (auto simp: socket_read_line_def)
    define P where "P s \<longleftrightarrow> framer_ok (framing s) \<and>
      (\<exists>new. got (stream s) = got w @ new \<and> buf (framing s) = buf (framing s1) @ new)" for s :: "'a socket"
    define Q where "Q r s \<longleftrightarrow> r = Panic \<or> (framer_ok (framing s) \<and>
      (\<exists>new. got (stream s) = got w @ new \<and> accounts (buf (framing s1)) new r (buf (framing s))))" for r and s :: "'a socket"
    have "Q r s'"
    proof (rule repeat_invariant [where P = P, OF rep])
      show "P (s1\<lparr>stream := w\<rparr>)" using s1 by (simp add: P_def)
    next
      fix s s'
      assume "P s" "read_step E dl s = Some (None, s')"
      then show "P s'" using read_step_exact [OF _ _ assms(3)] by (fastforce simp: P_def)
    next
      fix s s' x
      assume "P s" "read_step E dl s = Some (Some x, s')"
      then show "Q x s'" using read_step_exact [OF _ _ assms(3)] by (cases x) (fastforce simp: P_def Q_def)+
    qed
    then show ?thesis
      using assms(4) counts_deadline [OF assms(3) d] s1(1) tk True by (simp add: Q_def)
  next
    case False
    then show ?thesis
      using assms(1,4) None t s1 tk
      by (cases t) (auto simp: socket_read_line_def split: option.splits intro!: exI [where x = "[]"])
  qed
next
  case (Some e)
  with assms show ?thesis by (auto simp: socket_read_line_def intro!: exI [where x = "[]"])
qed

fun socket_reads ::
  "'w stream_ops \<Rightarrow> duration option list \<Rightarrow> 'w socket \<Rightarrow> ((bytes, error) result list \<times> 'w socket) option" where
  "socket_reads E [] s = Some ([], s)"
| "socket_reads E (t # ts) s =
     do { (r, s1) \<leftarrow> socket_read_line E s t; (rs, s2) \<leftarrow> socket_reads E ts s1; Some (r # rs, s2) }"

fun ok_values :: "('a, 'e) result list \<Rightarrow> 'a list" where
  "ok_values [] = []"
| "ok_values (Ok x # rs) = x # ok_values rs"
| "ok_values (_ # rs) = ok_values rs"

lemma socket_reads_exact:
  assumes "counts_bytes E got" "framer_ok (framing s)" "socket_reads E ts s = Some (rs, s')" "Panic \<notin> set rs"
  shows "\<exists>new. got (stream s') = got (stream s) @ new \<and>
    split_lines (buf (framing s) @ new) =
      (ok_values rs @ fst (split_lines (buf (framing s'))), snd (split_lines (buf (framing s'))))"
  using assms(2-)
proof (induction ts arbitrary: s rs)
  case (Cons t ts)
  then obtain r s1 rs' where r: "socket_read_line E s t = Some (r, s1)" "socket_reads E ts s1 = Some (rs', s')"
      "rs = r # rs'" by (auto split: bind_splits)
  with Cons.prems have np: "r \<noteq> Panic" "Panic \<notin> set rs'" by auto
  from socket_read_exact [OF r(1) Cons.prems(1) assms(1) np(1)] obtain n1 where
    n1: "framer_ok (framing s1)" "got (stream s1) = got (stream s) @ n1"
      "accounts (buf (framing s)) n1 r (buf (framing s1))" by blast
  from Cons.IH [OF n1(1) r(2) np(2)] obtain n2 where
    n2: "got (stream s') = got (stream s1) @ n2" "split_lines (buf (framing s1) @ n2) =
      (ok_values rs' @ fst (split_lines (buf (framing s'))), snd (split_lines (buf (framing s'))))" by blast
  have "split_lines (buf (framing s) @ (n1 @ n2)) =
      (ok_values rs @ fst (split_lines (buf (framing s'))), snd (split_lines (buf (framing s'))))"
  proof (cases r)
    case (Ok line)
    with n1(3) have "buf (framing s) @ n1 @ n2 = line @ 10 # (buf (framing s1) @ n2)" "10 \<notin> set line"
      by (simp_all flip: append_assoc)
    then show ?thesis
      using split_lines_line [of line "buf (framing s1) @ n2"] n2(2) Ok r(3) by (simp only:) simp
  next
    case (Err e)
    with n1(3) have "buf (framing s) @ n1 @ n2 = buf (framing s1) @ n2" by (simp flip: append_assoc)
    then show ?thesis using n2(2) Err r(3) by (simp only:) simp
  qed (use np in simp)
  with n1(2) n2(1) show ?case by (metis append_assoc)
qed (auto intro!: exI [where x = "[]"])

section \<open>Time\<close>

text \<open>
  What a stream with a read timeout gives: a read comes back within \<open>d\<close>, having taken some time,
  and is interrupted by signals at most \<open>patience w\<close> times in a row.
\<close>

definition interrupted :: "(bytes, io_error) result \<Rightarrow> bool" where
  "interrupted r \<longleftrightarrow> (\<exists>e. r = Err e \<and> kind e = Interrupted)"

definition polling ::
  "'w stream_ops \<Rightarrow> ('w \<Rightarrow> instant) \<Rightarrow> ('w \<Rightarrow> nat) \<Rightarrow> duration \<Rightarrow> duration \<Rightarrow> bool" where
  "polling E clk patience c d \<longleftrightarrow> clock_ok (stream_now E) clk c \<and>
     (\<forall>w. \<exists>r w'. stream_read E w BUF_SIZE = Some (r, w') \<and> clk w \<le> clk w' \<and> clk w' \<le> clk w + d
        \<and> (if interrupted r then patience w' < patience w else clk w < clk w'))"

lemma polling_read:
  assumes "polling E clk patience c d" "stream_read E w BUF_SIZE = Some (r, w')"
  shows "clk w \<le> clk w' \<and> clk w' \<le> clk w + d \<and> (if interrupted r then patience w' < patience w else clk w < clk w')"
  using assms unfolding polling_def by (metis Pair_inject option.inject)

lemma polling_returns: "polling E clk patience c d \<Longrightarrow> read_step E dl s \<noteq> None"
proof -
  assume "polling E clk patience c d"
  then obtain r w where "stream_read E (stream s) BUF_SIZE = Some (r, w)"
    unfolding polling_def by blast
  then show ?thesis by (simp add: read_step_def)
qed

lemma read_step_time:
  assumes "polling E clk patience c d" "read_step E (Some dl) s = Some (r, s')"
  shows "clk (stream s) \<le> clk (stream s') \<and> clk (stream s') \<le> clk (stream s) + d + c
    \<and> (r = None \<longrightarrow> patience (stream s') < patience (stream s)
         \<and> (\<exists>e. stream_read E (stream s) BUF_SIZE = Some (Err e, stream s') \<and> kind e = Interrupted)
       \<or> clk (stream s) < clk (stream s') \<and> clk (stream s') < dl)
    \<and> (\<forall>m. r = Some (Err (Timeout m)) \<longrightarrow> dl \<le> clk (stream s') \<or> (\<exists>m. terminal s' = Some (Timeout m)))"
proof -
  have clock: "clock_ok (stream_now E) clk c" using assms(1) by (simp add: polling_def)
  note read = polling_read [OF assms(1)]
  from assms(2) show ?thesis
  proof (cases rule: read_step_cases)
    case (more chunk w b)
    then show ?thesis
      using read [OF more(3)] timed_out_clock [OF clock more(5)] by (auto simp: interrupted_def)
  next
    case (block e w b)
    then show ?thesis
      using read [OF block(1)] timed_out_clock [OF clock block(5)] by (auto simp: interrupted_def)
  next
    case (intr e)
    then show ?thesis using read [OF intr(1)] by (auto simp: interrupted_def)
  qed (auto dest!: read simp: eof_error_def from_io_def)
qed

text \<open>Every error but the timeout is in \<open>terminal\<close>, and that is never a timeout.\<close>

lemma take_line_not_timeout: "take_line f = (Err e, f') \<Longrightarrow> e = line_cap_error"
  by (auto simp: take_line_eq Let_def split: option.splits if_splits)

lemma read_step_terminal:
  "read_step E dl s = Some (r, s') \<Longrightarrow> terminal s = None \<Longrightarrow> terminal s' \<noteq> Some (Timeout m)"
  by (erule read_step_cases)
     (auto simp: eof_error_def from_io_def line_cap_error_def dest: take_line_not_timeout)

lemma socket_read_time:
  assumes "polling E clk patience c d" "socket_read_line E s (Some t) = Some (r, s')" "terminal s = None"
  shows "(\<forall>m. r = Err (Timeout m) \<longrightarrow> clk (stream s) + t \<le> clk (stream s'))
    \<and> ((\<forall>w e w'. stream_read E w BUF_SIZE = Some (Err e, w') \<longrightarrow> kind e \<noteq> Interrupted)
        \<longrightarrow> clk (stream s') \<le> clk (stream s) + t + d + 2 * c)"
proof -
  have clock: "clock_ok (stream_now E) clk c" using assms(1) by (simp add: polling_def)
  obtain k s1 where k: "take_or_terminal s = (k, s1)" by (cases "take_or_terminal s")
  note k' = take_or_terminal_simps [OF k]
  obtain x w where x: "deadline_in (stream_now E) (Some t) (stream s1) = (x, w)"
    by (cases "deadline_in (stream_now E) (Some t) (stream s1)")
  note x' = deadline_in_clock [OF clock x]
  show ?thesis
  proof (cases "k = Ok None \<and> x \<noteq> Panic")
    case False
    then show ?thesis
      using assms(2,3) k k' x x' take_line_not_timeout
      by (cases k) (auto simp: socket_read_line_def line_cap_error_def split: option.splits if_splits)
  next
    case True
    let ?dl = "clk w + t"
    define calm where "calm \<longleftrightarrow>
      (\<forall>w e w'. stream_read E w BUF_SIZE = Some (Err e, w') \<longrightarrow> kind e \<noteq> Interrupted)"
    define P where "P s \<longleftrightarrow> terminal s = None \<and> (calm \<longrightarrow> clk (stream s) \<le> ?dl)" for s :: "'a socket"
    define Q where "Q r s \<longleftrightarrow> (\<forall>m. r = Err (Timeout m) \<longrightarrow> ?dl \<le> clk (stream s))
      \<and> (calm \<longrightarrow> clk (stream s) \<le> ?dl + d + c)" for r :: "(bytes, error) result" and s :: "'a socket"
    have xx: "x = Ok (Some ?dl)" using x' True by (auto split: if_splits)
    with assms(2,3) k True x have "repeat (read_step E (Some ?dl)) (s1\<lparr>stream := w\<rparr>) = Some (r, s')"
      by (simp add: socket_read_line_def)
    then have "Q r s'"
    proof (rule repeat_invariant [where P = P])
      show "P (s1\<lparr>stream := w\<rparr>)" using k' True assms(3) by (simp add: P_def)
    next
      fix s s'
      assume "P s" and st: "read_step E (Some ?dl) s = Some (None, s')"
      with read_step_time [OF assms(1) st] show "P s'"
        using st by (elim read_step_cases) (auto simp: P_def calm_def)
    next
      fix s s' r
      assume "P s" and st: "read_step E (Some ?dl) s = Some (Some r, s')"
      with read_step_time [OF assms(1) st] read_step_terminal [OF st] show "Q r s'"
        by (auto simp: P_def Q_def)
    qed
    with x' k' show ?thesis by (auto simp: Q_def calm_def)
  qed
qed

lemma socket_read_returns:
  assumes "polling E clk patience c d"
  shows "\<exists>r s'. socket_read_line E s (Some t) = Some (r, s')"
proof -
  have rep: "repeat (read_step E (Some dl)) s \<noteq> None" for s dl
  proof (rule repeat_returns [where P = "\<lambda>_. True"
      and R = "measures [\<lambda>s. dl - clk (stream s), \<lambda>s. patience (stream s)]"])
    fix s s'
    assume st: "read_step E (Some dl) s = Some (None, s')"
    then show "True \<and> (s', s) \<in> measures [\<lambda>s. dl - clk (stream s), \<lambda>s. patience (stream s)]"
      using read_step_time [OF assms st] by auto
  qed (use polling_returns [OF assms] in simp_all)
  obtain k s1 where k: "take_or_terminal s = (k, s1)" by (cases "take_or_terminal s")
  obtain x w where x: "deadline_in (stream_now E) (Some t) (stream s1) = (x, w)"
    by (cases "deadline_in (stream_now E) (Some t) (stream s1)")
  have "x = Panic \<or> (\<exists>dl. x = Ok (Some dl))"
    using x by (auto simp: add_instant_def split: prod.splits if_splits)
  with rep show ?thesis
    by (auto simp: socket_read_line_def k x simp del: deadline_in.simps split: option.splits result.splits)
qed

text \<open>Signals: \<open>Interrupted\<close> goes round without a look at the clock.\<close>

lemma socket_interrupted_forever:
  assumes "\<And>w. \<exists>e w'. stream_read E w BUF_SIZE = Some (Err e, w') \<and> kind e = Interrupted"
  shows "repeat (read_step E dl) s = None"
proof (rule ccontr)
  assume "repeat (read_step E dl) s \<noteq> None"
  then obtain x s' where "repeat (read_step E dl) s = Some (x, s')" by auto
  then show False
  proof (rule repeat_invariant [where P = "\<lambda>_. True"])
    fix s s' x
    assume st: "read_step E dl s = Some (Some x, s')"
    from assms [of "stream s"] obtain e w where "stream_read E (stream s) BUF_SIZE = Some (Err e, w)"
      "kind e = Interrupted" by blast
    with st show False by (simp add: read_step_def)
  qed simp_all
qed

section \<open>Properties\<close>

text \<open>
  C13: However the reads of a socket go - lines, timeouts in the middle of a line, errors - the lines
  they return and the line still open are exactly the lines of what the stream has given out: nothing
  is lost, repeated or reordered.
\<close>
theorem socket_loses_nothing:
  assumes "counts_bytes E got" "got w = []" "socket_reads E ts (from_stream w) = Some (rs, s)" "Panic \<notin> set rs"
  shows "split_lines (got (stream s)) =
    (ok_values rs @ fst (split_lines (buf (framing s))), snd (split_lines (buf (framing s))))"
  using socket_reads_exact [OF assms(1) _ assms(3,4)] assms(2) by (auto simp: from_stream_def new_framer_def framer_ok_def)

text \<open>
  C21: A read with a timeout comes back, when single reads of the stream do and signals do not interrupt
  it forever. A timeout is reported only once the time is over, and no read comes back later
  than one poll of the stream and two looks at the clock after that, as long as no signal interrupts.
\<close>
theorem socket_timeout_window:
  assumes "polling E clk patience c d" "terminal s = None"
  shows "\<exists>r s'. socket_read_line E s (Some t) = Some (r, s')
    \<and> (\<forall>m. r = Err (Timeout m) \<longrightarrow> clk (stream s) + t \<le> clk (stream s'))
    \<and> ((\<forall>w e w'. stream_read E w BUF_SIZE = Some (Err e, w') \<longrightarrow> kind e \<noteq> Interrupted)
        \<longrightarrow> clk (stream s') \<le> clk (stream s) + t + d + 2 * c)"
  using socket_read_returns [OF assms(1), of s t] socket_read_time [OF assms(1) _ assms(2), of t] by blast

text \<open>
  C17: Once a socket session has been closed, or a read of its stream has failed other than by a
  timeout, no later call succeeds, whatever happens in between.
\<close>
theorem ended_socket_stays_ended:
  assumes "is_closed s \<or> terminal (conn s) \<noteq> None" "run (socket_transport E) qs s = Some s1"
    "call (socket_transport E) s1 kvs = Some (r, s2)"
  shows "\<not> is_ok r \<and> (is_closed s2 \<or> terminal (conn s2) \<noteq> None)"
proof -
  have "sockets.dead s" using assms(1) by (auto simp: sockets.dead_def socket_stuck_def)
  then have "sockets.dead s1" by (rule sockets.dead_run [OF _ assms(2)])
  from sockets.dead_call [OF this assms(3)] show ?thesis
    by (auto simp: sockets.dead_def socket_stuck_def)
qed

text \<open>A timeout that is too long for the clock panics instead of waiting.\<close>

lemma socket_longest_timeout_panics:
  "terminal s = None \<Longrightarrow> fst (take_or_terminal s) = Ok None \<Longrightarrow>
     \<exists>s'. socket_read_line E s (Some DURATION_MAX) = Some (Panic, s')"
  by (cases "take_or_terminal s"; cases "stream_now E (stream (snd (take_or_terminal s)))")
     (simp add: socket_read_line_def add_instant_max)

section \<open>Examples\<close>

text \<open>A stream of given pieces; its world is what is left, the bytes given out, and the time.\<close>

definition pieces :: "(bytes list \<times> bytes \<times> nat) stream_ops" where
  "pieces =
     \<lparr>stream_read = (\<lambda>(ps, g, t) n. Some (case ps of
          [] \<Rightarrow> (Err \<lparr>kind = WouldBlock, io_text = []\<rparr>, ([], g, t + 20))
        | p # ps \<Rightarrow> (Ok p, (ps, g @ p, t + 1)))),
      stream_write_all = (\<lambda>w line. Some (Ok (), w)),
      stream_flush = (\<lambda>w. Some (Ok (), w)),
      stream_now = (\<lambda>(ps, g, t). (t, (ps, g, t)))\<rparr>"

lemma pieces_count: "counts_bytes pieces (\<lambda>(ps, g, t). g)"
  by (auto simp: counts_bytes_def pieces_def split: list.splits)

lemma pieces_poll: "polling pieces (\<lambda>(ps, g, t). t) (\<lambda>_. 0) 0 20"
proof -
  have "clock_ok (stream_now pieces) (\<lambda>(ps, g, t). t) 0" by (auto simp: clock_ok_def pieces_def)
  moreover have "\<exists>r w'. stream_read pieces w BUF_SIZE = Some (r, w') \<and> \<not> interrupted r
      \<and> (case w of (ps, g, t) \<Rightarrow> t) < (case w' of (ps, g, t) \<Rightarrow> t)
      \<and> (case w' of (ps, g, t) \<Rightarrow> t) \<le> (case w of (ps, g, t) \<Rightarrow> t) + 20" for w
    by (cases w; cases "fst w") (auto simp: pieces_def interrupted_def)
  ultimately show ?thesis unfolding polling_def by (metis less_imp_le)
qed

abbreviation two_lines :: "bytes list \<times> bytes \<times> nat" where
  "two_lines \<equiv> ([[97], [10, 98, 10, 99]], [], 0)"

text \<open>A line, a timeout amid the next one, its rest.\<close>

lemma two_lines_read:
  "\<exists>s. socket_reads pieces [Some 100, Some 100, Some 30] (from_stream two_lines) =
     Some ([Ok [97], Ok [98], Err timeout_error], s) \<and> terminal s = None"
  by (simp add: socket_read_line_def take_or_terminal_def take_line_eq from_stream_def new_framer_def
      Loops.repeat.simps read_step_def pieces_def push_def check_deadline_def add_instant_def INSTANT_END_def
      BUF_SIZE_def MAX_LINE_BYTES_def Let_def)

lemma socket_loses_nothing_witness:
  "\<exists>s :: (bytes list \<times> bytes \<times> nat) socket. ok_values [Ok [97], Ok [98], Err timeout_error] = [[97], [98 :: u8]] \<and>
     fst (split_lines (case stream s of (ps, g, t) \<Rightarrow> g)) = [[97], [98]] @ fst (split_lines (buf (framing s)))"
proof -
  obtain s where s: "socket_reads pieces [Some 100, Some 100, Some 30] (from_stream two_lines) =
     Some ([Ok [97], Ok [98], Err timeout_error], s)" using two_lines_read by blast
  have "split_lines (case stream s of (ps, g, t) \<Rightarrow> g) =
      ([[97], [98]] @ fst (split_lines (buf (framing s))), snd (split_lines (buf (framing s))))"
    using socket_loses_nothing [OF pieces_count _ s] by simp
  then show ?thesis by (intro exI [of _ s]) simp
qed

lemma socket_timeout_window_witness:
  "\<exists>s'. socket_read_line pieces (from_stream ([], [], 7)) (Some 30) = Some (Err timeout_error, s')
     \<and> 37 \<le> (case stream s' of (ps, g, t) \<Rightarrow> t) \<and> (case stream s' of (ps, g, t) \<Rightarrow> t) \<le> 57"
proof -
  obtain s' where s': "socket_read_line pieces (from_stream ([], [], 7)) (Some 30) = Some (Err timeout_error, s')"
    by (simp add: socket_read_line_def take_or_terminal_def take_line_eq from_stream_def new_framer_def
      Loops.repeat.simps read_step_def pieces_def push_def check_deadline_def add_instant_def INSTANT_END_def
      BUF_SIZE_def MAX_LINE_BYTES_def Let_def)
  have "\<forall>w e w'. stream_read pieces w BUF_SIZE = Some (Err e, w') \<longrightarrow> kind e \<noteq> Interrupted"
    by (auto simp: pieces_def split: list.splits)
  moreover obtain m where "timeout_error = Timeout m" using timeout_error_is_Timeout by blast
  ultimately show ?thesis
    using socket_timeout_window [OF pieces_poll, of "from_stream ([], [], 7)" 30] s' by (auto simp: from_stream_def)
qed

definition lost_session :: "(bytes list \<times> bytes \<times> nat) socket session" where
  "lost_session = \<lparr>session_hello = \<lparr>protocol = 1, hello_version = [], product = []\<rparr>,
     conn = (from_stream two_lines)\<lparr>terminal := Some eof_error\<rparr>, default_timeout = None, is_closed = False\<rparr>"

lemma ended_socket_stays_ended_witness:
  "\<exists>r s2. call (socket_transport pieces) lost_session [] = Some (r, s2) \<and> \<not> is_ok r"
proof -
  obtain r s2 where c: "call (socket_transport pieces) lost_session [] = Some (r, s2)"
    by (simp add: call_def lost_session_def socket_write_line_def socket_read_line_def pieces_def
        eof_error_def)
  with ended_socket_stays_ended [of lost_session pieces "[]" lost_session "[]" r s2] show ?thesis
    by (auto simp: lost_session_def)
qed

lemma socket_longest_timeout_panics_witness:
  "\<exists>s'. socket_read_line pieces (from_stream two_lines) (Some DURATION_MAX) = Some (Panic, s')"
  by (rule socket_longest_timeout_panics)
     (simp_all add: from_stream_def take_or_terminal_def take_line_eq new_framer_def MAX_LINE_BYTES_def)

end
