(* ===== verification/Reader.thy ===== *)
theory Reader
  imports SessionProps Framer Loops
begin

text \<open>
  \<open>ThreadedReader\<close> of \<open>rust/src/transport/reader.rs\<close>: the thread that reads a child's standard output
  and hands over lines through a channel with one slot, and the side of the caller.
\<close>

datatype item = Line bytes | Terminal error

section \<open>The caller's side\<close>

text \<open>
  The channel's receiver, the thread handle, the clock and \<open>sleep\<close> are the standard library's:
  parameters over a world \<open>'w\<close>. \<open>recv\<close> without a timeout may never return.
\<close>

datatype recv_error = RecvTimeout | Disconnected

record 'w channel_ops =
  recv :: "'w \<Rightarrow> (item option \<times> 'w) option"
  recv_timeout :: "'w \<Rightarrow> duration \<Rightarrow> (item, recv_error) result \<times> 'w"
  is_finished :: "'w \<Rightarrow> bool \<times> 'w"
  join_thread :: "'w \<Rightarrow> 'w"
  now :: "'w \<Rightarrow> instant \<times> 'w"
  sleep :: "'w \<Rightarrow> duration \<Rightarrow> 'w"

record reader =
  terminal :: "error option"
  handle :: bool

definition spawned :: reader where
  "spawned = \<lparr>terminal = None, handle = True\<rparr>"

definition ended_unexpectedly :: error where
  "ended_unexpectedly = Protocol (str ''reader thread ended unexpectedly'')"

definition receive ::
  "'w channel_ops \<Rightarrow> instant option \<Rightarrow> 'w \<Rightarrow> ((item, recv_error) result \<times> 'w) option" where
  "receive E deadline w =
     (case deadline of
        None \<Rightarrow> map_option (\<lambda>(x, w'). (ok_or x Disconnected, w')) (recv E w)
      | Some dl \<Rightarrow> (case now E w of (i, w1) \<Rightarrow> Some (recv_timeout E w1 (dl - i))))"

text \<open>\<open>deadline.is_none_or(|dl| Instant::now() < dl)\<close>: go on waiting.\<close>

definition recv_step ::
  "'w channel_ops \<Rightarrow> instant option \<Rightarrow> 'w \<times> reader \<Rightarrow> ((bytes, error) result option \<times> 'w \<times> reader) option" where
  "recv_step E deadline s =
     (case s of (w, rd) \<Rightarrow>
        do {
          (outcome, w1) \<leftarrow> receive E deadline w;
          Some (case outcome of
              Ok (Line line) \<Rightarrow> (Some (Ok line), w1, rd)
            | Ok (Terminal e) \<Rightarrow> (Some (Err e), w1, rd\<lparr>terminal := Some e\<rparr>)
            | Err Disconnected \<Rightarrow> (Some (Err ended_unexpectedly), w1, rd\<lparr>terminal := Some ended_unexpectedly\<rparr>)
            | Err RecvTimeout \<Rightarrow>
                (case timed_out (now E) deadline w1 of
                   (b, w2) \<Rightarrow> ((if b then Some (Err timeout_error) else None), w2, rd))
            | Panic \<Rightarrow> (Some Panic, w1, rd))
        })"

definition reader_read_line ::
  "'w channel_ops \<Rightarrow> 'w \<times> reader \<Rightarrow> duration option \<Rightarrow> ((bytes, error) result \<times> 'w \<times> reader) option" where
  "reader_read_line E s tmo =
     (case s of (w, rd) \<Rightarrow>
        case terminal rd of
          Some e \<Rightarrow> Some (Err e, w, rd)
        | None \<Rightarrow>
            (case deadline_in (now E) tmo w of
               (Ok dl, w1) \<Rightarrow> repeat (recv_step E dl) (w1, rd)
             | (Err e, w1) \<Rightarrow> Some (Err e, w1, rd)
             | (Panic, w1) \<Rightarrow> Some (Panic, w1, rd)))"

text \<open>
  \<open>join\<close>: waits, a millisecond at a time, at most the timeout; the loop returns whether the thread
  was seen to have finished when asked again. The instants of \<open>CLOSE_TIMEOUT\<close> do not overflow, but
  \<open>join\<close> does not know that, and panics if they do.
\<close>

definition join_wait_step :: "'w channel_ops \<Rightarrow> instant \<Rightarrow> 'w \<Rightarrow> (unit option \<times> 'w) option" where
  "join_wait_step E deadline w =
     (case is_finished E w of (fin, w1) \<Rightarrow>
        if fin then Some (Some (), w1)
        else
          case now E w1 of (i, w2) \<Rightarrow>
            if i < deadline then Some (None, sleep E w2 (10 ^ 6)) else Some (Some (), w2))"

definition reader_join ::
  "'w channel_ops \<Rightarrow> 'w \<times> reader \<Rightarrow> duration \<Rightarrow> ((unit, error) result \<times> 'w \<times> reader) option" where
  "reader_join E s tmo =
     (case s of (w, rd) \<Rightarrow>
        if \<not> handle rd then Some (Ok (), w, rd)
        else
          case deadline_in (now E) (Some tmo) w of
            (Ok (Some deadline), w1) \<Rightarrow>
              do {
                (_, w2) \<leftarrow> repeat (join_wait_step E deadline) w1;
                (case is_finished E w2 of (fin, w3) \<Rightarrow>
                   if fin then Some (Ok (), join_thread E w3, rd\<lparr>handle := False\<rparr>)
                   else Some (Ok (), w3, rd))
              }
          | (_, w1) \<Rightarrow> Some (Panic, w1, rd))"

section \<open>What a read leaves behind\<close>

lemma recv_step_cases:
  assumes "recv_step E dl (w, rd) = Some (r, w', rd')"
  obtains
    (line) l where "receive E dl w = Some (Ok (Line l), w')" "r = Some (Ok l)" "rd' = rd"
  | (ended) e where "receive E dl w = Some (Ok (Terminal e), w')" "r = Some (Err e)" "rd' = rd\<lparr>terminal := Some e\<rparr>"
  | (gone) "receive E dl w = Some (Err Disconnected, w')" "r = Some (Err ended_unexpectedly)"
      "rd' = rd\<lparr>terminal := Some ended_unexpectedly\<rparr>"
  | (time) w1 b where "receive E dl w = Some (Err RecvTimeout, w1)" "timed_out (now E) dl w1 = (b, w')"
      "r = (if b then Some (Err timeout_error) else None)" "rd' = rd"
  | (panic) "receive E dl w = Some (Panic, w')" "r = Some Panic" "rd' = rd"
proof -
  from assms obtain x w1 where x: "receive E dl w = Some (x, w1)"
    by (auto simp: recv_step_def split: bind_splits)
  note eq = assms [unfolded recv_step_def x bind.bind_lunit prod.case option.inject]
  show ?thesis
  proof (cases x)
    case (Ok i)
    with eq x line ended show ?thesis by (cases i) auto
  next
    case (Err e)
    show ?thesis
    proof (cases e)
      case RecvTimeout
      obtain b w2 where "timed_out (now E) dl w1 = (b, w2)" by (cases "timed_out (now E) dl w1")
      with eq x Err RecvTimeout time show ?thesis by auto
    next
      case Disconnected
      with eq x Err gone show ?thesis by auto
    qed
  next
    case Panic
    with eq x panic show ?thesis by auto
  qed
qed

lemma reader_failed_read:
  assumes "reader_read_line E (w, rd) tmo = Some (Err e, w', rd')" "\<And>m. e \<noteq> Timeout m"
  shows "terminal rd' = Some e"
proof (cases "terminal rd")
  case None
  obtain d w1 where d: "deadline_in (now E) tmo w = (d, w1)" by (cases "deadline_in (now E) tmo w")
  have "d \<noteq> Err x" for x using d by (cases tmo) (auto simp: add_instant_def split: prod.splits if_splits)
  with assms None d obtain dl where "repeat (recv_step E dl) (w1, rd) = Some (Err e, w', rd')"
    by (cases d) (auto simp: reader_read_line_def)
  define Q where "Q r s \<longleftrightarrow> (\<forall>e. r = Err e \<longrightarrow> (\<forall>m. e \<noteq> Timeout m) \<longrightarrow> terminal (snd s) = Some e)"
    for r :: "(bytes, error) result" and s :: "'a \<times> reader"
  have "Q (Err e) (w', rd')"
    using \<open>repeat (recv_step E dl) (w1, rd) = Some (Err e, w', rd')\<close>
  proof (rule repeat_invariant [where P = "\<lambda>_. True"])
    fix s s' x
    assume st: "recv_step E dl s = Some (Some x, s')"
    obtain w rd w' rd' where "s = (w, rd)" "s' = (w', rd')" by (cases s; cases s') auto
    with st show "Q x s'"
      using timeout_error_def by (auto simp: Q_def elim!: recv_step_cases split: if_splits)
  qed simp_all
  with assms(2) show ?thesis by (simp add: Q_def)
qed (use assms in \<open>simp add: reader_read_line_def\<close>)

section \<open>Time\<close>

text \<open>
  \<open>recv_timeout\<close> waits up to the time it is given and at most \<open>d\<close> longer; it may give up early, but
  not at once. Joining and sleeping: \<open>sleep\<close> takes at least the time asked for, at most \<open>d\<close> more.
\<close>

definition channel_time :: "'w channel_ops \<Rightarrow> ('w \<Rightarrow> instant) \<Rightarrow> duration \<Rightarrow> duration \<Rightarrow> bool" where
  "channel_time E clk c d \<longleftrightarrow> clock_ok (now E) clk c
     \<and> (\<forall>w t. case recv_timeout E w t of (r, w') \<Rightarrow>
          clk w \<le> clk w' \<and> clk w' \<le> clk w + t + d \<and> (r = Err RecvTimeout \<and> 0 < t \<longrightarrow> clk w < clk w'))
     \<and> (\<forall>w. case is_finished E w of (b, w') \<Rightarrow> clk w \<le> clk w' \<and> clk w' \<le> clk w + d)
     \<and> (\<forall>w. clk w \<le> clk (join_thread E w) \<and> clk (join_thread E w) \<le> clk w + d)
     \<and> (\<forall>w t. clk w + t \<le> clk (sleep E w t) \<and> clk (sleep E w t) \<le> clk w + t + d)"

lemma channel_time_simps:
  assumes "channel_time E clk c d"
  shows "clock_ok (now E) clk c"
    "recv_timeout E w t = (r, w') \<Longrightarrow>
       clk w \<le> clk w' \<and> clk w' \<le> clk w + t + d \<and> (r = Err RecvTimeout \<and> 0 < t \<longrightarrow> clk w < clk w')"
    "is_finished E w = (b, w') \<Longrightarrow> clk w \<le> clk w' \<and> clk w' \<le> clk w + d"
    "clk w \<le> clk (join_thread E w) \<and> clk (join_thread E w) \<le> clk w + d"
    "clk w + t \<le> clk (sleep E w t) \<and> clk (sleep E w t) \<le> clk w + t + d"
  using assms by (auto simp: channel_time_def split: prod.splits) (metis le_neq_implies_less less_irrefl)

lemma receive_time:
  assumes "channel_time E clk c d" "clk w \<le> dl"
  shows "\<exists>r w'. receive E (Some dl) w = Some (r, w') \<and> clk w \<le> clk w' \<and> clk w' \<le> dl + d + c
    \<and> (r = Err RecvTimeout \<longrightarrow> clk w < clk w' \<or> dl \<le> clk w')"
proof -
  obtain i w1 where i: "now E w = (i, w1)" by (cases "now E w")
  obtain r w2 where r: "recv_timeout E w1 (dl - i) = (r, w2)" by (cases "recv_timeout E w1 (dl - i)")
  have "clk w1 = i \<and> clk w \<le> i \<and> i \<le> clk w + c"
    by (rule clock_okD [where clock = "now E" and clk = clk and c = c, OF channel_time_simps(1) [OF assms(1)] i])
  with channel_time_simps(2) [OF assms(1) r] assms(2) have
    "receive E (Some dl) w = Some (r, w2) \<and> clk w \<le> clk w2 \<and> clk w2 \<le> dl + d + c
      \<and> (r = Err RecvTimeout \<longrightarrow> clk w < clk w2 \<or> dl \<le> clk w2)"
    using i r by (auto simp: receive_def)
  then show ?thesis by blast
qed

lemma recv_step_time:
  assumes "channel_time E clk c d" "clk w \<le> dl"
  shows "\<exists>r w' rd'. recv_step E (Some dl) (w, rd) = Some (r, w', rd') \<and> clk w \<le> clk w' \<and> clk w' \<le> dl + d + 2 * c
    \<and> (r = None \<longrightarrow> clk w < clk w' \<and> clk w' < dl \<and> rd' = rd)
    \<and> (r = Some (Err timeout_error) \<longrightarrow> dl \<le> clk w' \<or> terminal rd' \<noteq> None)"
proof -
  from receive_time [OF assms] obtain x w1 where x: "receive E (Some dl) w = Some (x, w1)"
      "clk w \<le> clk w1" "clk w1 \<le> dl + d + c" "x = Err RecvTimeout \<longrightarrow> clk w < clk w1 \<or> dl \<le> clk w1" by blast
  then obtain r w' rd' where st: "recv_step E (Some dl) (w, rd) = Some (r, w', rd')"
    by (cases "recv_step E (Some dl) (w, rd)") (auto simp: recv_step_def)
  then have "clk w \<le> clk w' \<and> clk w' \<le> dl + d + 2 * c
    \<and> (r = None \<longrightarrow> clk w < clk w' \<and> clk w' < dl \<and> rd' = rd)
    \<and> (r = Some (Err timeout_error) \<longrightarrow> dl \<le> clk w' \<or> terminal rd' \<noteq> None)"
  proof (cases rule: recv_step_cases)
    case (time w2 b)
    with x have "w2 = w1" "x = Err RecvTimeout" by auto
    with time x timed_out_clock [OF channel_time_simps(1) [OF assms(1)] time(2)] show ?thesis by auto
  qed (use x in auto)
  with st show ?thesis by blast
qed

lemma reader_read_time:
  assumes "channel_time E clk c d"
  shows "\<exists>r w' rd'. reader_read_line E (w, rd) (Some t) = Some (r, w', rd')
    \<and> clk w' \<le> clk w + t + d + 3 * c
    \<and> (r = Err timeout_error \<and> terminal rd' = None \<longrightarrow> clk w + t \<le> clk w')"
proof (cases "terminal rd")
  case None
  obtain x w1 where x: "deadline_in (now E) (Some t) w = (x, w1)" by (cases "deadline_in (now E) (Some t) w")
  note x' = deadline_in_clock [OF channel_time_simps(1) [OF assms] x]
  show ?thesis
  proof (cases "x = Panic")
    case False
    let ?dl = "clk w1 + t"
    have xx: "x = Ok (Some ?dl)" using x' False by (auto split: if_splits)
    have "repeat (recv_step E (Some ?dl)) (w1, rd) \<noteq> None"
    proof (rule repeat_returns [where P = "\<lambda>(w, rd). clk w \<le> ?dl" and R = "measure (\<lambda>(w, rd). ?dl - clk w)"])
      fix s :: "'a \<times> reader" assume "case s of (w, rd) \<Rightarrow> clk w \<le> ?dl"
      then show "recv_step E (Some ?dl) s \<noteq> None"
        using recv_step_time [OF assms, of "fst s" ?dl "snd s"] by auto
    next
      fix s s' assume "case s of (w, rd) \<Rightarrow> clk w \<le> ?dl" "recv_step E (Some ?dl) s = Some (None, s')"
      then show "(case s' of (w, rd) \<Rightarrow> clk w \<le> ?dl) \<and> (s', s) \<in> measure (\<lambda>(w, rd). ?dl - clk w)"
        using recv_step_time [OF assms, of "fst s" ?dl "snd s"] by (cases s; cases s') auto
    qed simp_all
    then obtain r w' rd' where rep: "repeat (recv_step E (Some ?dl)) (w1, rd) = Some (r, w', rd')" by auto
    define Q where "Q r s \<longleftrightarrow> clk (fst s) \<le> ?dl + d + 2 * c
      \<and> (r = Err timeout_error \<longrightarrow> ?dl \<le> clk (fst s) \<or> terminal (snd s) \<noteq> None)"
      for r :: "(bytes, error) result" and s :: "'a \<times> reader"
    from rep have "Q r (w', rd')"
    proof (rule repeat_invariant [where P = "\<lambda>(w, rd). clk w \<le> ?dl"])
      fix s s' assume "case s of (w, rd) \<Rightarrow> clk w \<le> ?dl" "recv_step E (Some ?dl) s = Some (None, s')"
      then show "case s' of (w, rd) \<Rightarrow> clk w \<le> ?dl"
        using recv_step_time [OF assms, of "fst s" ?dl "snd s"] by (cases s; cases s') auto
    next
      fix s s' x assume "case s of (w, rd) \<Rightarrow> clk w \<le> ?dl" "recv_step E (Some ?dl) s = Some (Some x, s')"
      then show "Q x s'"
        using recv_step_time [OF assms, of "fst s" ?dl "snd s"] by (cases s; cases s') (auto simp: Q_def)
    qed simp
    with x' xx rep None x show ?thesis by (auto simp: reader_read_line_def Q_def)
  qed (use x x' None in \<open>auto simp: reader_read_line_def\<close>)
qed (auto simp: reader_read_line_def)

lemma reader_join_returns:
  assumes "channel_time E clk c d"
  shows "reader_join E (w, rd) t \<noteq> None"
proof -
  obtain x w1 where x: "deadline_in (now E) (Some t) w = (x, w1)" by (cases "deadline_in (now E) (Some t) w")
  note x' = deadline_in_clock [OF channel_time_simps(1) [OF assms] x]
  let ?dl = "clk w1 + t"
  have xx: "x = Panic \<or> x = Ok (Some ?dl)" using x' by auto
  have st: "\<exists>r w'. join_wait_step E ?dl w = Some (r, w') \<and> (r = None \<longrightarrow> clk w < clk w' \<and> clk w < ?dl)" for w
  proof -
    obtain b v where b: "is_finished E w = (b, v)" by (cases "is_finished E w")
    obtain i u where i: "now E v = (i, u)" by (cases "now E v")
    have "clk u = i \<and> clk v \<le> i \<and> i \<le> clk v + c"
      by (rule clock_okD [where clock = "now E" and clk = clk and c = c, OF channel_time_simps(1) [OF assms] i])
    with channel_time_simps(3) [OF assms b] channel_time_simps(5) [OF assms, of u "10 ^ 6"] b i
    show ?thesis by (auto simp: join_wait_step_def)
  qed
  have "repeat (join_wait_step E ?dl) w1 \<noteq> None"
  proof (rule repeat_returns [where P = "\<lambda>_. True" and R = "measure (\<lambda>w. ?dl - clk w)"])
    fix s s' assume "join_wait_step E ?dl s = Some (None, s')"
    then show "True \<and> (s', s) \<in> measure (\<lambda>w. ?dl - clk w)" using st [of s] by auto
  next
    show "join_wait_step E ?dl s \<noteq> None" for s using st [of s] by auto
  qed simp_all
  then obtain u w2 where "repeat (join_wait_step E ?dl) w1 = Some (u, w2)" by auto
  with x xx show ?thesis
    by (cases "handle rd") (auto simp: reader_join_def simp del: deadline_in.simps split: prod.splits)
qed

end
