(* ===== verification/ReaderThread.thy ===== *)
theory ReaderThread
  imports Reader "HOL-Library.Sublist"
begin

text \<open>
  The thread of \<open>ThreadedReader::spawn\<close> and the channel of one slot between it and the caller, as a
  step relation in which the two sides interleave. The framing of a source by the whole
  at once is the specification; the relation delivers exactly that, in order.
\<close>

section \<open>The system\<close>

text \<open>
  Where the thread is: about to read the source, about to ask the framer for a line, in
  \<open>tx.send\<close>, or returned.
\<close>

datatype thread = Reading | Taking | Sending item | Ended

text \<open>
  The source is given by the outcomes of its reads, an empty one being the end of the file.
  \<open>received\<close> is what the caller has taken out of the channel; \<open>dropped\<close>: the receiver is gone.
\<close>

record pipe =
  source :: "(bytes, io_error) result list"
  lines_in :: framer
  thread :: thread
  slot :: "item option"
  received :: "item list"
  dropped :: bool

definition spawn :: "(bytes, io_error) result list \<Rightarrow> pipe" where
  "spawn rs = \<lparr>source = rs, lines_in = new_framer, thread = Reading, slot = None, received = [], dropped = False\<rparr>"

text \<open>
  What the thread does with a read. By its contract a read gives at most what the buffer holds, so the slice
  \<open>buf[..n]\<close> of the thread does not panic (the socket's model has that panic as a case).
\<close>

fun after_read :: "framer \<Rightarrow> (bytes, io_error) result \<Rightarrow> thread \<times> framer" where
  "after_read f (Ok chunk) =
     (if chunk = [] then (Sending (Terminal eof_error), f) else (Taking, push f chunk))"
| "after_read f (Err e) = (Sending (Terminal (from_io e)), f)"
| "after_read f Panic = (Ended, f)"

definition after_take :: "framer \<Rightarrow> thread \<times> framer" where
  "after_take f =
     (case take_line f of
        (Ok (Some line), f') \<Rightarrow> (Sending (Line line), f')
      | (Ok None, f') \<Rightarrow> (Reading, f')
      | (Err e, f') \<Rightarrow> (Sending (Terminal e), f')
      | (Panic, f') \<Rightarrow> (Ended, f'))"

fun after_send :: "item \<Rightarrow> thread" where
  "after_send (Line line) = Taking"
| "after_send (Terminal e) = Ended"

inductive pipe_step :: "pipe \<Rightarrow> pipe \<Rightarrow> bool" where
  read: "thread s = Reading \<Longrightarrow> source s = r # rs \<Longrightarrow> after_read (lines_in s) r = (p, f) \<Longrightarrow>
    pipe_step s (s\<lparr>source := rs, thread := p, lines_in := f\<rparr>)"
| take_one: "thread s = Taking \<Longrightarrow> after_take (lines_in s) = (p, f) \<Longrightarrow>
    pipe_step s (s\<lparr>thread := p, lines_in := f\<rparr>)"
| send: "thread s = Sending x \<Longrightarrow> slot s = None \<Longrightarrow> \<not> dropped s \<Longrightarrow>
    pipe_step s (s\<lparr>slot := Some x, thread := after_send x\<rparr>)"
| send_fails: "thread s = Sending x \<Longrightarrow> dropped s \<Longrightarrow> pipe_step s (s\<lparr>thread := Ended\<rparr>)"
| recv: "slot s = Some x \<Longrightarrow> \<not> dropped s \<Longrightarrow>
    pipe_step s (s\<lparr>slot := None, received := received s @ [x]\<rparr>)"
| drop_rx: "\<not> dropped s \<Longrightarrow> pipe_step s (s\<lparr>dropped := True\<rparr>)"

inductive_cases pipe_stepE: "pipe_step s s'"

section \<open>The specification\<close>

text \<open>The items of a source, without any interleaving.\<close>

fun items_of :: "framer \<Rightarrow> (bytes, io_error) result list \<Rightarrow> item list" where
  "items_of f [] = []"
| "items_of f (Ok chunk # rs) =
     (if chunk = [] then [Terminal eof_error]
      else case take_lines (push f chunk) of
          (ls, Ok _, f') \<Rightarrow> map Line ls @ items_of f' rs
        | (ls, Err e, f') \<Rightarrow> map Line ls @ [Terminal e]
        | (ls, Panic, f') \<Rightarrow> map Line ls)"
| "items_of f (Err e # rs) = [Terminal (from_io e)]"
| "items_of f (Panic # rs) = []"

definition taking_items :: "framer \<Rightarrow> (bytes, io_error) result list \<Rightarrow> item list" where
  "taking_items f rs =
     (case take_lines f of
          (ls, Ok _, f') \<Rightarrow> map Line ls @ items_of f' rs
        | (ls, Err e, f') \<Rightarrow> map Line ls @ [Terminal e]
        | (ls, Panic, f') \<Rightarrow> map Line ls)"

lemma items_of_chunk: "chunk \<noteq> [] \<Longrightarrow> items_of f (Ok chunk # rs) = taking_items (push f chunk) rs"
  by (simp add: taking_items_def)

fun future :: "thread \<Rightarrow> framer \<Rightarrow> (bytes, io_error) result list \<Rightarrow> item list" where
  "future Reading f rs = items_of f rs"
| "future Taking f rs = taking_items f rs"
| "future (Sending (Line l)) f rs = Line l # taking_items f rs"
| "future (Sending (Terminal e)) f rs = [Terminal e]"
| "future Ended f rs = []"

lemma future_read: "after_read f r = (p, f') \<Longrightarrow> future p f' rs = items_of f (r # rs)"
  by (cases r) (auto simp: taking_items_def split: if_splits)

lemma future_take: "after_take f = (p, f') \<Longrightarrow> future p f' rs = taking_items f rs"
  unfolding after_take_def taking_items_def
  by (subst take_lines.simps) (auto simp: taking_items_def split: prod.splits result.splits option.splits)

lemma future_send: "future (Sending x) f rs = x # future (after_send x) f rs"
  by (cases x) auto

section \<open>Delivery\<close>

abbreviation slot_items :: "pipe \<Rightarrow> item list" where
  "slot_items s \<equiv> (case slot s of None \<Rightarrow> [] | Some x \<Rightarrow> [x])"

definition delivering :: "item list \<Rightarrow> pipe \<Rightarrow> bool" where
  "delivering sent s \<longleftrightarrow> prefix (received s) sent \<and>
     (\<not> dropped s \<longrightarrow> sent = received s @ slot_items s @ future (thread s) (lines_in s) (source s))"

lemma delivering_step:
  assumes "pipe_step s s'" "delivering sent s"
  shows "delivering sent s'"
  using assms(1)
proof cases
  case (read r rs p f)
  with assms(2) show ?thesis by (auto simp: delivering_def future_read)
next
  case (take_one p f)
  with assms(2) show ?thesis by (auto simp: delivering_def future_take)
next
  case (send x)
  with assms(2) show ?thesis by (auto simp: delivering_def future_send)
qed (use assms(2) in \<open>auto simp: delivering_def\<close>)

lemma delivering_reachable: "pipe_step\<^sup>*\<^sup>* (spawn rs) s \<Longrightarrow> delivering (items_of new_framer rs) s"
proof (induction rule: rtranclp_induct)
  case base
  show ?case by (simp add: delivering_def spawn_def)
qed (rule delivering_step)

text \<open>Without a \<open>Terminal\<close> in its future a source has run dry: all of it was data.\<close>

lemma items_of_data:
  assumes "framer_ok f" "lines_fit (buf f @ concat cs)" "10 \<notin> set (buf f)" "[] \<notin> set cs"
  shows "items_of f (map Ok cs @ [Ok []]) =
    map Line (fst (split_lines (buf f @ concat cs))) @ [Terminal eof_error]"
  using assms
proof (induction cs arbitrary: f)
  case Nil
  then show ?case by (simp add: split_lines_no_newline)
next
  case (Cons c cs)
  obtain ls r where ls: "split_lines (buf f @ c) = (ls, r)" by (cases "split_lines (buf f @ c)")
  obtain ls' r' where ls': "split_lines (r @ concat cs) = (ls', r')" by (cases "split_lines (r @ concat cs)")
  have all: "split_lines (buf f @ concat (c # cs)) = (ls @ ls', r')"
    using split_lines_append [of "buf f @ c" "concat cs"] ls ls' by simp
  have r: "10 \<notin> set r" by (rule split_lines_rest [OF ls])
  have fit: "lines_fit (r @ concat cs)"
    using Cons.prems(2) all ls' by (auto simp: lines_fit_def)
  then have len: "length r \<le> MAX_LINE_BYTES"
    using split_lines_extends [OF r, of "concat cs"] by (force simp: lines_fit_def ls')
  have t: "take_lines (push f c) = (ls, Ok (), \<lparr>buf = r, scanned = length r\<rparr>)"
    using take_lines_spec [OF framer_ok_push [OF Cons.prems(1), of c]] ls len by simp
  have "items_of \<lparr>buf = r, scanned = length r\<rparr> (map Ok cs @ [Ok []]) = map Line ls' @ [Terminal eof_error]"
    using Cons.IH [OF framer_ok_open [OF ls]] fit r ls' Cons.prems(4) by simp
  moreover have "c \<noteq> []" using Cons.prems(4) by auto
  ultimately show ?case using t all by simp
qed

section \<open>Progress\<close>

fun thread_rank :: "thread \<Rightarrow> nat" where
  "thread_rank (Sending (Line l)) = 4"
| "thread_rank Taking = 3"
| "thread_rank (Sending (Terminal e)) = 2"
| "thread_rank Reading = 1"
| "thread_rank Ended = 0"

lemma after_take_rank:
  assumes "after_take f = (p, f')"
  shows "length (buf f') < length (buf f) \<or> length (buf f') = length (buf f) \<and> thread_rank p < 3"
proof (cases "take_line f")
  case (Pair r g)
  have "length (buf g) = length (buf f)" if "\<And>l. r \<noteq> Ok (Some l)"
    using Pair that by (auto simp: take_line_eq Let_def split: if_splits option.splits)
  moreover have "length (buf g) < length (buf f)" if "r = Ok (Some l)" for l
    using take_line_shorter [of f l g] Pair that by simp
  ultimately show ?thesis
    using assms Pair by (auto simp: after_take_def split: result.splits option.splits)
qed

lemma after_send_rank: "thread_rank (after_send x) < thread_rank (Sending x)"
  by (cases x) auto

definition pipe_order :: "(pipe \<times> pipe) set" where
  "pipe_order = measures [\<lambda>s. length (source s), \<lambda>s. length (buf (lines_in s)), \<lambda>s. thread_rank (thread s),
     \<lambda>s. length (slot_items s), \<lambda>s. if dropped s then 0 else 1]"

lemma thread_rank_Sending: "0 < thread_rank (Sending x)"
  by (cases x) auto

lemma pipe_step_order: "pipe_step s s' \<Longrightarrow> (s', s) \<in> pipe_order"
  by (erule pipe_stepE)
     (auto simp: pipe_order_def after_send_rank thread_rank_Sending dest!: after_take_rank)

text \<open>Where nothing can happen but the receiver going away.\<close>

lemma pipe_at_rest:
  assumes s: "\<not> dropped s" "\<nexists>s'. pipe_step s s' \<and> \<not> dropped s'"
  shows "slot s = None \<and> (thread s = Ended \<or> thread s = Reading \<and> source s = [])"
proof -
  have slot: "slot s = None" using recv [of s] s by (cases "slot s") auto
  have "thread s = Ended \<or> thread s = Reading \<and> source s = []"
  proof (cases "thread s")
    case Reading
    show ?thesis
    proof (cases "source s")
      case (Cons r rs)
      obtain p f where "after_read (lines_in s) r = (p, f)" by (cases "after_read (lines_in s) r")
      from read [OF Reading Cons this] s show ?thesis by fastforce
    qed (use Reading in simp)
  next
    case Taking
    obtain p f where "after_take (lines_in s) = (p, f)" by (cases "after_take (lines_in s)")
    from take_one [OF Taking this] s show ?thesis by fastforce
  next
    case (Sending x)
    from send [OF this slot] s show ?thesis by fastforce
  qed simp
  with slot show ?thesis by simp
qed

section \<open>Properties\<close>

text \<open>
  C14: The two sides of a reader interleave as they may: what the caller has received is always a
  prefix of the source's items; whenever the thread turns to the source again, all it took in before
  has been received but for at most one item, in the slot; and when the thread has ended and the slot
  is empty, everything has arrived.
\<close>
theorem reader_delivers_in_order:
  assumes "pipe_step\<^sup>*\<^sup>* (spawn rs) s"
  shows "prefix (received s) (items_of new_framer rs)
    \<and> (\<not> dropped s \<and> thread s = Reading \<longrightarrow>
        items_of new_framer rs = received s @ slot_items s @ items_of (lines_in s) (source s))
    \<and> (\<not> dropped s \<and> thread s = Ended \<and> slot s = None \<longrightarrow> received s = items_of new_framer rs)"
  using delivering_reachable [OF assms] by (auto simp: delivering_def)

text \<open>
  The items of a source that delivers chunks and ends are the lines of the concatenated data, in
  order, and then the end, however the data was cut into chunks.
\<close>
lemma reader_items_are_lines:
  assumes "[] \<notin> set cs" "lines_fit (concat cs)"
  shows "items_of new_framer (map Ok cs @ [Ok []]) =
    map Line (fst (split_lines (concat cs))) @ [Terminal eof_error]"
  using items_of_data [of new_framer cs] assms by (simp add: new_framer_def framer_ok_def)

text \<open>
  C22: The reader neither deadlocks nor runs forever. Every run is finite; where no step is possible
  that does not drop the receiver, the thread has returned or its source gives nothing more,
  and the slot is empty; and a thread that is stuck in a send is freed when the receiver is dropped.
\<close>
theorem reader_makes_progress:
  "wf {(s', s). pipe_step s s'}
   \<and> (\<not> dropped s \<and> (\<nexists>s'. pipe_step s s' \<and> \<not> dropped s') \<longrightarrow>
       slot s = None \<and> (thread s = Ended \<or> thread s = Reading \<and> source s = []))
   \<and> (dropped s \<and> thread s = Sending x \<longrightarrow> pipe_step s (s\<lparr>thread := Ended\<rparr>))"
proof (intro conjI impI)
  show "wf {(s', s). pipe_step s s'}"
    by (rule wf_subset [of pipe_order]) (auto simp: pipe_step_order, simp add: pipe_order_def)
next
  assume "\<not> dropped s \<and> (\<nexists>s'. pipe_step s s' \<and> \<not> dropped s')"
  with pipe_at_rest [of s] show "slot s = None" "thread s = Ended \<or> thread s = Reading \<and> source s = []" by blast+
next
  assume "dropped s \<and> thread s = Sending x"
  then show "pipe_step s (s\<lparr>thread := Ended\<rparr>)" by (blast intro: send_fails)
qed

section \<open>Examples\<close>

lemma reader_delivers_in_order_witness:
  "\<exists>s. pipe_step\<^sup>*\<^sup>* (spawn [Ok [97, 10], Ok []]) s \<and> received s = [Line [97]]
     \<and> prefix [Line [97]] (items_of new_framer [Ok [97, 10], Ok []])"
proof -
  let ?s = "spawn [Ok [97, 10], Ok []]"
  let ?f = "push new_framer [97, 10]"
  let ?a = "?s\<lparr>source := [Ok []], thread := Taking, lines_in := ?f\<rparr>"
  let ?b = "?a\<lparr>thread := Sending (Line [97]), lines_in := new_framer\<rparr>"
  let ?c = "?b\<lparr>slot := Some (Line [97]), thread := after_send (Line [97])\<rparr>"
  let ?d = "?c\<lparr>slot := None, received := received ?c @ [Line [97]]\<rparr>"
  have "pipe_step ?s ?a" by (rule read [where r = "Ok [97, 10]"]) (simp_all add: spawn_def)
  moreover have "pipe_step ?a ?b"
    by (rule take_one) (simp_all add: after_take_def take_line_eq push_def new_framer_def)
  moreover have "pipe_step ?b ?c" by (rule send) (simp_all add: spawn_def)
  moreover have "pipe_step ?c ?d" by (rule recv) (simp_all add: spawn_def)
  ultimately have r: "pipe_step\<^sup>*\<^sup>* ?s ?d" by (meson rtranclp.rtrancl_into_rtrancl rtranclp.rtrancl_refl)
  have "prefix (received ?d) (items_of new_framer [Ok [97, 10], Ok []])"
    by (rule reader_delivers_in_order [OF r, THEN conjunct1])
  moreover have "received ?d = [Line [97]]" by (simp add: spawn_def)
  ultimately show ?thesis using r by (intro exI [of _ ?d]) (simp only: simp_thms)
qed

lemma reader_items_are_lines_witness:
  "items_of new_framer [Ok [97], Ok [10, 98, 10], Ok []] = [Line [97], Line [98], Terminal eof_error]"
  using reader_items_are_lines [of "[[97], [10, 98, 10]]"] by (simp add: lines_fit_def MAX_LINE_BYTES_def)

lemma reader_makes_progress_witness:
  "pipe_step ((spawn [])\<lparr>dropped := True, thread := Sending (Line [])\<rparr>)
     ((spawn [])\<lparr>dropped := True, thread := Ended\<rparr>)"
  using reader_makes_progress [of "(spawn [])\<lparr>dropped := True, thread := Sending (Line [])\<rparr>" "Line []"]
  by simp

end
