(* ===== verification/ReaderProps.thy ===== *)
theory ReaderProps
  imports SocketProps ReaderThread
begin

text \<open>
  The two sides of \<open>ThreadedReader\<close> together: what the reads of a caller return, given what comes out
  of the channel, and so given the output of the child.
\<close>

section \<open>Lines of a child\<close>

text \<open>\<open>taken w\<close>: the items taken out of the channel so far.\<close>

definition counts_items :: "'w channel_ops \<Rightarrow> ('w \<Rightarrow> item list) \<Rightarrow> bool" where
  "counts_items E taken \<longleftrightarrow>
     (\<forall>w x w'. recv E w = Some (x, w') \<longrightarrow> taken w' = taken w @ (case x of Some i \<Rightarrow> [i] | None \<Rightarrow> []))
     \<and> (\<forall>w t r w'. recv_timeout E w t = (r, w') \<longrightarrow> taken w' = taken w @ (case r of Ok i \<Rightarrow> [i] | _ \<Rightarrow> []))
     \<and> (\<forall>w i w'. now E w = (i, w') \<longrightarrow> taken w' = taken w)"

lemma counts_receive:
  assumes "counts_items E taken" "receive E dl w = Some (r, w')"
  shows "taken w' = taken w @ (case r of Ok i \<Rightarrow> [i] | _ \<Rightarrow> [])"
proof (cases dl)
  case None
  with assms(2) obtain x where "recv E w = Some (x, w')" "r = ok_or x Disconnected"
    by (auto simp: receive_def)
  with assms(1) show ?thesis by (cases x) (auto simp: counts_items_def)
next
  case (Some d)
  obtain i w1 where i: "now E w = (i, w1)" by (cases "now E w")
  with assms(2) Some have "recv_timeout E w1 (d - i) = (r, w')" by (simp add: receive_def)
  with assms(1) i show ?thesis unfolding counts_items_def by metis
qed

lemma counts_items_clock:
  assumes "counts_items E taken"
  shows "timed_out (now E) dl w = (b, w') \<Longrightarrow> taken w' = taken w"
    "deadline_in (now E) tmo w = (d, w') \<Longrightarrow> taken w' = taken w"
  using assms by (cases dl; auto simp: counts_items_def split: prod.splits)
    (use assms in \<open>cases tmo; auto simp: counts_items_def split: prod.splits\<close>)

text \<open>What one read takes out of the channel.\<close>

fun takes :: "(bytes, error) result \<Rightarrow> item list \<Rightarrow> bool \<Rightarrow> bool" where
  "takes (Ok line) new ended \<longleftrightarrow> new = [Line line] \<and> \<not> ended"
| "takes (Err e) new ended \<longleftrightarrow> new = [] \<or> new = [Terminal e] \<and> ended"
| "takes Panic new ended \<longleftrightarrow> True"

lemma recv_step_takes:
  assumes "counts_items E taken" "recv_step E dl (w, rd) = Some (r, w', rd')" "terminal rd = None"
  shows "case r of None \<Rightarrow> taken w' = taken w \<and> rd' = rd
    | Some x \<Rightarrow> \<exists>new. taken w' = taken w @ new \<and> takes x new (terminal rd' \<noteq> None)"
  using assms(2)
proof (cases rule: recv_step_cases)
  case (time w1 b)
  then show ?thesis
    using counts_receive [OF assms(1) time(1)] counts_items_clock(1) [OF assms(1) time(2)] by auto
qed (use counts_receive [OF assms(1)] assms(3) in fastforce)+

lemma reader_read_takes:
  assumes "counts_items E taken" "reader_read_line E (w, rd) tmo = Some (r, w', rd')" "terminal rd = None"
  shows "\<exists>new. taken w' = taken w @ new \<and> takes r new (terminal rd' \<noteq> None)"
proof -
  obtain d w1 where d: "deadline_in (now E) tmo w = (d, w1)" by (cases "deadline_in (now E) tmo w")
  note t1 = counts_items_clock(2) [OF assms(1) d]
  show ?thesis
  proof (cases "\<exists>dl. d = Ok dl")
    case False
    with assms d have "r = Panic \<or> (\<exists>e. r = Err e)" "w' = w1"
      by (cases d; auto simp: reader_read_line_def simp del: deadline_in.simps)+
    with t1 show ?thesis by (auto intro!: exI [where x = "[]"])
  next
    case True
    then obtain dl where dl: "d = Ok dl" by blast
    with assms d have rep: "repeat (recv_step E dl) (w1, rd) = Some (r, w', rd')"
      by (simp add: reader_read_line_def)
    define Q where "Q r s \<longleftrightarrow> (\<exists>new. taken (fst s) = taken w @ new \<and> takes r new (terminal (snd s) \<noteq> None))"
      for r and s :: "'a \<times> reader"
    from rep have "Q r (w', rd')"
    proof (rule repeat_invariant [where P = "\<lambda>(v, rd). taken v = taken w \<and> terminal rd = None"])
      fix s s' assume "case s of (v, rd) \<Rightarrow> taken v = taken w \<and> terminal rd = None" "recv_step E dl s = Some (None, s')"
      then show "case s' of (v, rd) \<Rightarrow> taken v = taken w \<and> terminal rd = None"
        using recv_step_takes [OF assms(1), of dl "fst s" "snd s"] by (cases s; cases s') fastforce
    next
      fix s s' x assume "case s of (v, rd) \<Rightarrow> taken v = taken w \<and> terminal rd = None" "recv_step E dl s = Some (Some x, s')"
      then show "Q x s'"
        using recv_step_takes [OF assms(1), of dl "fst s" "snd s"] by (cases s; cases s') (fastforce simp: Q_def)
    qed (simp add: t1 assms(3))
    then show ?thesis by (simp add: Q_def)
  qed
qed

fun reader_reads ::
  "'w channel_ops \<Rightarrow> duration option list \<Rightarrow> 'w \<times> reader \<Rightarrow> ((bytes, error) result list \<times> 'w \<times> reader) option" where
  "reader_reads E [] s = Some ([], s)"
| "reader_reads E (t # ts) s =
     do { (r, s1) \<leftarrow> reader_read_line E s t; (rs, s2) \<leftarrow> reader_reads E ts s1; Some (r # rs, s2) }"

lemma reader_reads_ended:
  "terminal rd = Some e \<Longrightarrow> reader_reads E ts (w, rd) = Some (rs, s') \<Longrightarrow> ok_values rs = [] \<and> s' = (w, rd)"
  by (induction ts arbitrary: rs) (auto simp: reader_read_line_def split: bind_splits)

lemma reader_reads_takes:
  assumes "counts_items E taken" "terminal rd = None" "reader_reads E ts (w, rd) = Some (rs, w', rd')" "Panic \<notin> set rs"
  shows "\<exists>ends. taken w' = taken w @ map Line (ok_values rs) @ ends \<and> (ends = [] \<or> (\<exists>e. ends = [Terminal e]))"
  using assms(2-)
proof (induction ts arbitrary: w rd rs)
  case (Cons t ts)
  then obtain r w1 rd1 rs' where r: "reader_read_line E (w, rd) t = Some (r, w1, rd1)"
      "reader_reads E ts (w1, rd1) = Some (rs', w', rd')" "rs = r # rs'" by (auto split: bind_splits)
  with Cons.prems have np: "r \<noteq> Panic" "Panic \<notin> set rs'" by auto
  from reader_read_takes [OF assms(1) r(1) Cons.prems(1)] obtain new where
    new: "taken w1 = taken w @ new" "takes r new (terminal rd1 \<noteq> None)" by blast
  show ?case
  proof (cases "terminal rd1")
    case None
    from Cons.IH [OF this r(2) np(2)] new None r(3) np(1) show ?thesis
      by (cases r) auto
  next
    case (Some e)
    with reader_reads_ended [OF Some r(2)] new r(3) np(1) show ?thesis by (cases r) auto
  qed
qed auto

lemma prefix_map_Line: "prefix (map Line as) (map Line bs @ [Terminal e]) \<Longrightarrow> prefix as bs"
proof (induction as arbitrary: bs)
  case (Cons a as)
  then show ?case by (cases bs) auto
qed simp

text \<open>
  C15: The lines of a child's output reach the caller complete and in order: where the channel gives out a
  prefix of the reader thread's items, the lines that any sequence of reads returns - with
  timeouts anywhere - are a prefix of the lines of the output, and no item that was taken is dropped.
\<close>
theorem child_lines_in_order:
  assumes "counts_items E taken" "taken w = []" "reader_reads E ts (w, spawned) = Some (rs, w', rd')" "Panic \<notin> set rs"
    "prefix (taken w') (items_of new_framer (map Ok cs @ [Ok []]))" "[] \<notin> set cs" "lines_fit (concat cs)"
  shows "prefix (ok_values rs) (fst (split_lines (concat cs)))
    \<and> (\<forall>l. Line l \<in> set (taken w') \<longrightarrow> l \<in> set (ok_values rs))"
proof -
  from reader_reads_takes [OF assms(1) _ assms(3,4)] assms(2) obtain ends where
    ends: "taken w' = map Line (ok_values rs) @ ends" "ends = [] \<or> (\<exists>e. ends = [Terminal e])"
    by (auto simp: spawned_def)
  have "items_of new_framer (map Ok cs @ [Ok []]) = map Line (fst (split_lines (concat cs))) @ [Terminal eof_error]"
    using items_of_data [of new_framer cs] assms(6,7) by (simp add: new_framer_def framer_ok_def)
  with assms(5) ends(1) have p: "prefix (map Line (ok_values rs)) (map Line (fst (split_lines (concat cs))) @ [Terminal eof_error])"
    by (metis append_prefixD)
  with ends prefix_map_Line [OF p] show ?thesis by auto
qed

text \<open>A channel that gives out given items; its world is what is left, and what was taken.\<close>

definition list_channel :: "(item list \<times> item list) channel_ops" where
  "list_channel =
     \<lparr>recv = (\<lambda>(is, tk). Some (case is of [] \<Rightarrow> (None, ([], tk)) | i # js \<Rightarrow> (Some i, (js, tk @ [i])))),
      recv_timeout = (\<lambda>(is, tk) t. case is of [] \<Rightarrow> (Err RecvTimeout, ([], tk)) | i # js \<Rightarrow> (Ok i, (js, tk @ [i]))),
      is_finished = (\<lambda>w. (True, w)), join_thread = (\<lambda>w. w), now = (\<lambda>w. (0, w)), sleep = (\<lambda>w t. w)\<rparr>"

lemma list_channel_counts: "counts_items list_channel snd"
  by (auto simp: counts_items_def list_channel_def split: list.splits)

lemma child_lines_in_order_witness:
  "\<exists>rs w' rd'. reader_reads list_channel [Some 5, Some 0] (([Line [97]], []), spawned) = Some (rs, w', rd')
     \<and> ok_values rs = [[97]] \<and> prefix (ok_values rs) (fst (split_lines (concat [[97], [10 :: u8]])))"
proof -
  have r: "reader_reads list_channel [Some 5, Some 0] (([Line [97]], []), spawned) =
      Some ([Ok [97], Err timeout_error], ([], [Line [97]]), spawned)"
    by (simp add: list_channel_def reader_read_line_def add_instant_def INSTANT_END_def Loops.repeat.simps recv_step_def
        receive_def spawned_def)
  have "items_of new_framer (map Ok [[97], [10]] @ [Ok []]) = [Line [97], Terminal eof_error]"
    using items_of_data [of new_framer "[[97], [10]]"]
    by (simp add: new_framer_def framer_ok_def lines_fit_def MAX_LINE_BYTES_def)
  with child_lines_in_order [OF list_channel_counts _ r, of "[[97], [10]]"]
  have "prefix (ok_values [Ok [97], Err timeout_error]) (fst (split_lines (concat [[97], [10 :: u8]])))"
    by (simp add: lines_fit_def MAX_LINE_BYTES_def)
  with r show ?thesis by (intro exI conjI) auto
qed

end
