(* ===== verification/Direct.thy ===== *)
theory Direct
  imports Reader
begin

text \<open>
  \<open>DirectTransport\<close> of \<open>rust/src/transport/direct.rs\<close> and the signal of \<open>signal.rs\<close>: a child process
  talked to over its standard input and output, and the staged shutdown.
\<close>

section \<open>The operating system\<close>

datatype exit_status = Exited "32 word" | Signalled "32 word" | NeitherStatus

fun status_code :: "exit_status \<Rightarrow> 32 word option" where
  "status_code (Exited c) = Some c"
| "status_code _ = None"

fun status_signal :: "exit_status \<Rightarrow> 32 word option" where
  "status_signal (Signalled n) = Some n"
| "status_signal _ = None"

datatype stdio = Piped | NullIo | InheritIo

text \<open>A \<open>Command\<close> about to be spawned; \<open>cmd_env = None\<close>: the parent's environment.\<close>

record command =
  program :: bytes
  arguments :: "bytes list"
  cmd_stdin :: stdio
  cmd_stdout :: stdio
  cmd_stderr :: stdio
  cmd_env :: "(bytes \<times> bytes) list option"
  cmd_dir :: "bytes option"

text \<open>
  The child, its pipes and the threads are part of the world; \<open>'k\<close> stands for what the caller
  supplies to take the child's standard error.
\<close>

record ('w, 'k) process_ops =
  channel :: "'w channel_ops"
  spawn_child :: "'w \<Rightarrow> command \<Rightarrow> (unit, io_error) result \<times> 'w"
  spawn_reader :: "'w \<Rightarrow> 'w"
  spawn_drain :: "'w \<Rightarrow> 'k \<Rightarrow> 'w"
  child_id :: "'w \<Rightarrow> u32"
  stdin_write_all :: "'w \<Rightarrow> bytes \<Rightarrow> ((unit, io_error) result \<times> 'w) option"
  stdin_flush :: "'w \<Rightarrow> ((unit, io_error) result \<times> 'w) option"
  drop_stdin :: "'w \<Rightarrow> 'w"
  try_wait :: "'w \<Rightarrow> (io_error + exit_status option) \<times> 'w"
  kill_syscall :: "'w \<Rightarrow> 32 word \<Rightarrow> 32 word \<Rightarrow> 32 word \<times> 'w"
  kill_child :: "'w \<Rightarrow> (io_error + unit) \<times> 'w"
  wait_child :: "'w \<Rightarrow> ((io_error + exit_status) \<times> 'w) option"
  join_drain :: "'w \<Rightarrow> 'w option"
  drop_receiver :: "'w \<Rightarrow> 'w"

section \<open>Starting\<close>

datatype 'k stderr_sink = StderrNull | StderrInherit | StderrWriter 'k

record 'w direct =
  world :: 'w
  stdin :: bool
  line_reader :: "reader option"
  stderr_thread :: bool
  exit_code :: "32 word option"

fun stderr_config :: "'k stderr_sink \<Rightarrow> stdio" where
  "stderr_config StderrNull = NullIo"
| "stderr_config StderrInherit = InheritIo"
| "stderr_config (StderrWriter k) = Piped"

definition command_for ::
  "bytes \<Rightarrow> bytes list \<Rightarrow> (bytes \<times> bytes) list option \<Rightarrow> bytes option \<Rightarrow> 'k stderr_sink \<Rightarrow> command" where
  "command_for cmd args env cwd sink =
     \<lparr>program = cmd, arguments = args, cmd_stdin = Piped, cmd_stdout = Piped, cmd_stderr = stderr_config sink,
      cmd_env = env, cmd_dir = cwd\<rparr>"

definition start ::
  "('w, 'k) process_ops \<Rightarrow> bytes \<Rightarrow> bytes list \<Rightarrow> (bytes \<times> bytes) list option \<Rightarrow> bytes option
     \<Rightarrow> 'k stderr_sink \<Rightarrow> 'w \<Rightarrow> ('w direct, error) result \<times> 'w" where
  "start E cmd args env cwd sink w =
     (case spawn_child E w (command_for cmd args env cwd sink) of
        (Ok _, w1) \<Rightarrow>
          let w2 = spawn_reader E w1;
              w3 = (case sink of StderrWriter k \<Rightarrow> spawn_drain E w2 k | _ \<Rightarrow> w2)
          in (Ok \<lparr>world = w3, stdin = True, line_reader = Some spawned,
                  stderr_thread = (case sink of StderrWriter k \<Rightarrow> True | _ \<Rightarrow> False), exit_code = None\<rparr>, w3)
      | (Err e, w1) \<Rightarrow> (Err (from_io e), w1)
      | (Panic, w1) \<Rightarrow> (Panic, w1))"

text \<open>The thread that drains standard error: the loop over its pipe and the caller's sink.\<close>

definition drain_step ::
  "('d \<Rightarrow> nat \<Rightarrow> ((io_error + bytes) \<times> 'd) option) \<Rightarrow> ('d \<Rightarrow> bytes \<Rightarrow> ((io_error + unit) \<times> 'd) option)
     \<Rightarrow> 'd \<Rightarrow> (unit option \<times> 'd) option" where
  "drain_step rd wr w =
     do {
       (r, w1) \<leftarrow> rd w (64 * 1024);
       (case r of
          Inl e \<Rightarrow> Some (Some (), w1)
        | Inr chunk \<Rightarrow>
            if chunk = [] then Some (Some (), w1)
            else
              do {
                (x, w2) \<leftarrow> wr w1 chunk;
                Some ((case x of Inl e \<Rightarrow> Some () | Inr _ \<Rightarrow> None), w2)
              })
     }"

definition drain ::
  "('d \<Rightarrow> nat \<Rightarrow> ((io_error + bytes) \<times> 'd) option) \<Rightarrow> ('d \<Rightarrow> bytes \<Rightarrow> ((io_error + unit) \<times> 'd) option)
     \<Rightarrow> 'd \<Rightarrow> (unit \<times> 'd) option" where
  "drain rd wr = repeat (drain_step rd wr)"

section \<open>Lines\<close>

definition direct_write_line ::
  "('w, 'k) process_ops \<Rightarrow> 'w direct \<Rightarrow> bytes \<Rightarrow> ((unit, error) result \<times> 'w direct) option" where
  "direct_write_line E s line =
     (if \<not> stdin s then Some (Err Closed, s)
      else
        do {
          (r, w1) \<leftarrow> stdin_write_all E (world s) line;
          (case r of
             Ok _ \<Rightarrow> do { (r, w2) \<leftarrow> stdin_flush E w1; Some (map_err from_io r, s\<lparr>world := w2\<rparr>) }
           | Err e \<Rightarrow> Some (Err (from_io e), s\<lparr>world := w1\<rparr>)
           | Panic \<Rightarrow> Some (Panic, s\<lparr>world := w1\<rparr>))
        })"

definition direct_read_line ::
  "('w, 'k) process_ops \<Rightarrow> 'w direct \<Rightarrow> duration option \<Rightarrow> ((bytes, error) result \<times> 'w direct) option" where
  "direct_read_line E s tmo =
     (case line_reader s of
        Some rd \<Rightarrow>
          map_option (\<lambda>(r, w, rd'). (r, s\<lparr>world := w, line_reader := Some rd'\<rparr>))
            (reader_read_line (channel E) (world s, rd) tmo)
      | None \<Rightarrow> Some (Err Closed, s))"

section \<open>Shutting down\<close>

text \<open>\<open>-status.signal()\<close> for a death by signal.\<close>

definition exit_code_of :: "exit_status \<Rightarrow> 32 word" where
  "exit_code_of st =
     (case status_code st of
        Some c \<Rightarrow> c
      | None \<Rightarrow> - (case status_signal st of Some n \<Rightarrow> n | None \<Rightarrow> 0))"

text \<open>The same on a system that is not Unix: no signals.\<close>

definition exit_code_other :: "exit_status \<Rightarrow> 32 word" where
  "exit_code_other st = (case status_code st of Some c \<Rightarrow> c | None \<Rightarrow> - 1)"

definition terminate_other :: "u32 \<Rightarrow> 'w \<Rightarrow> bool \<times> 'w" where
  "terminate_other pid w = (False, w)"

definition terminate :: "('w, 'k) process_ops \<Rightarrow> u32 \<Rightarrow> 'w \<Rightarrow> bool \<times> 'w" where
  "terminate E pid w = (case kill_syscall E w pid 15 of (r, w') \<Rightarrow> (r = 0, w'))"

text \<open>That system is the one whose signals do nothing.\<close>

lemma terminate_other_eq:
  "(\<And>w p n. kill_syscall E w p n = (- 1, w)) \<Longrightarrow> terminate E pid w = terminate_other pid w"
  by (simp add: terminate_def terminate_other_def)

definition wait_step ::
  "('w, 'k) process_ops \<Rightarrow> instant \<Rightarrow> 'w \<times> duration \<Rightarrow> (exit_status option option \<times> 'w \<times> duration) option" where
  "wait_step E deadline s =
     (case s of (w, backoff) \<Rightarrow>
        case try_wait E w of
          (Inr (Some status), w1) \<Rightarrow> Some (Some (Some status), w1, backoff)
        | (_, w1) \<Rightarrow>
            case now (channel E) w1 of (i, w2) \<Rightarrow>
              if deadline \<le> i then Some (Some None, w2, backoff)
              else Some (None, sleep (channel E) w2 (min backoff (deadline - i)), min (backoff * 2) (10 * 10 ^ 6)))"

definition wait_bounded :: "('w, 'k) process_ops \<Rightarrow> instant \<Rightarrow> 'w \<Rightarrow> (exit_status option \<times> 'w) option" where
  "wait_bounded E deadline w =
     map_option (\<lambda>(st, w', _). (st, w')) (repeat (wait_step E deadline) (w, 10 ^ 6))"

text \<open>\<open>self.wait_bounded(Instant::now() + timeout)\<close>\<close>

definition wait_for ::
  "('w, 'k) process_ops \<Rightarrow> duration \<Rightarrow> 'w \<Rightarrow> ((exit_status option, error) result \<times> 'w) option" where
  "wait_for E t w =
     (case deadline_in (now (channel E)) (Some t) w of
        (Ok (Some deadline), w1) \<Rightarrow> map_option (\<lambda>(st, w2). (Ok st, w2)) (wait_bounded E deadline w1)
      | (_, w1) \<Rightarrow> Some (Panic, w1))"

text \<open>The stages after standard input is closed: wait, SIGTERM and wait, SIGKILL and wait.\<close>

definition escalate ::
  "('w, 'k) process_ops \<Rightarrow> duration \<Rightarrow> 'w \<Rightarrow> ((exit_status option, error) result \<times> 'w) option" where
  "escalate E t w =
     do {
       (r1, w1) \<leftarrow> wait_for E t w;
       if r1 = Ok None then
         do {
           (r2, w3) \<leftarrow> wait_for E t (snd (terminate E (child_id E w1) w1));
           if r2 = Ok None then
             do {
               (r3, w4) \<leftarrow> wait_child E (snd (kill_child E w3));
               Some (Ok (case r3 of Inl e \<Rightarrow> None | Inr st \<Rightarrow> Some st), w4)
             }
           else Some (r2, w3)
         }
       else Some (r1, w1)
     }"

text \<open>The end of \<open>close\<close>: the drain is joined without a bound, the reader within the timeout.\<close>

definition join_threads ::
  "('w, 'k) process_ops \<Rightarrow> duration \<Rightarrow> 'w direct \<Rightarrow> ((unit, error) result \<times> 'w direct) option" where
  "join_threads E t s =
     do {
       w1 \<leftarrow> (if stderr_thread s then join_drain E (world s) else Some (world s));
       (case line_reader s of
          Some rd \<Rightarrow>
            do {
              (r, w2, rd') \<leftarrow> reader_join (channel E) (w1, rd) t;
              Some (r, s\<lparr>world := drop_receiver E w2, line_reader := None, stderr_thread := False\<rparr>)
            }
        | None \<Rightarrow> Some (Ok (), s\<lparr>world := w1, stderr_thread := False\<rparr>))
     }"

definition direct_close ::
  "('w, 'k) process_ops \<Rightarrow> 'w direct \<Rightarrow> duration \<Rightarrow> ((unit, error) result \<times> 'w direct) option" where
  "direct_close E s t =
     (if \<not> stdin s \<and> line_reader s = None \<and> \<not> stderr_thread s \<and> exit_code s \<noteq> None then Some (Ok (), s)
      else
        do {
          (r, w1) \<leftarrow> escalate E t (if stdin s then drop_stdin E (world s) else world s);
          (case r of
             Ok status \<Rightarrow>
               join_threads E t (s\<lparr>world := w1, stdin := False, exit_code := map_option exit_code_of status\<rparr>)
           | Err e \<Rightarrow> Some (Err e, s\<lparr>world := w1, stdin := False\<rparr>)
           | Panic \<Rightarrow> Some (Panic, s\<lparr>world := w1, stdin := False\<rparr>))
        })"

definition direct_transport :: "('w, 'k) process_ops \<Rightarrow> 'w direct transport_ops" where
  "direct_transport E =
     \<lparr>write_line = direct_write_line E, read_line = direct_read_line E, close_transport = direct_close E\<rparr>"

lemma direct_transport_simps [simp]:
  "write_line (direct_transport E) = direct_write_line E"
  "read_line (direct_transport E) = direct_read_line E"
  "close_transport (direct_transport E) = direct_close E"
  by (simp_all add: direct_transport_def)

section \<open>The contract of a transport\<close>

definition direct_stuck :: "'w direct \<Rightarrow> error \<Rightarrow> bool" where
  "direct_stuck s e \<longleftrightarrow>
     (case line_reader s of Some rd \<Rightarrow> terminal rd = Some e | None \<Rightarrow> e = Closed)"

lemma direct_write_keeps:
  "direct_write_line E s line = Some (r, s') \<Longrightarrow>
     line_reader s' = line_reader s \<and> stdin s' = stdin s \<and> stderr_thread s' = stderr_thread s \<and> exit_code s' = exit_code s"
  by (auto simp: direct_write_line_def split: bind_splits result.splits if_splits)

lemma join_threads_done:
  "join_threads E t s = Some (r, s') \<Longrightarrow>
     line_reader s' = None \<and> \<not> stderr_thread s' \<and> stdin s' = stdin s \<and> exit_code s' = exit_code s"
  by (auto simp: join_threads_def split: bind_splits option.splits if_splits)

lemma direct_close_cases:
  assumes "direct_close E s t = Some (r, s')"
  obtains (already) "\<not> stdin s" "line_reader s = None" "\<not> stderr_thread s" "exit_code s \<noteq> None" "r = Ok ()" "s' = s"
  | (shut) w1 status where
      "escalate E t (if stdin s then drop_stdin E (world s) else world s) = Some (Ok status, w1)"
      "join_threads E t (s\<lparr>world := w1, stdin := False, exit_code := map_option exit_code_of status\<rparr>) = Some (r, s')"
  | (failed) x w1 where
      "escalate E t (if stdin s then drop_stdin E (world s) else world s) = Some (x, w1)"
      "\<not> is_ok x" "\<not> is_ok r" "s' = s\<lparr>world := w1, stdin := False\<rparr>"
proof (cases "\<not> stdin s \<and> line_reader s = None \<and> \<not> stderr_thread s \<and> exit_code s \<noteq> None")
  case True
  then have "r = Ok ()" "s' = s" using assms unfolding direct_close_def by simp_all
  with True show ?thesis by (intro already) simp_all
next
  case False
  let ?w = "if stdin s then drop_stdin E (world s) else world s"
  note eq = assms [unfolded direct_close_def if_not_P [OF False]]
  then obtain x w1 where x: "escalate E t ?w = Some (x, w1)"
    by (cases "escalate E t ?w") auto
  note eq' = eq [unfolded x bind.bind_lunit prod.case]
  show ?thesis
  proof (cases x)
    case (Ok status)
    with eq' x show ?thesis by (intro shut [of status w1]) simp_all
  next
    case (Err e)
    with eq' x show ?thesis by (intro failed [of x w1]) auto
  next
    case Panic
    with eq' x show ?thesis by (intro failed [of x w1]) auto
  qed
qed

interpretation directs: transport "direct_transport E" direct_stuck for E :: "('w, 'k) process_ops"
proof unfold_locales
  fix t :: "'w direct" and e tmo
  show "read_line (direct_transport E) t tmo = Some (Err e, t)" if "direct_stuck t e"
    using that by (auto simp: direct_stuck_def direct_read_line_def reader_read_line_def split: option.splits)
next
  fix t t' :: "'w direct" and e tmo
  assume "read_line (direct_transport E) t tmo = Some (Err e, t')" "\<And>m. e \<noteq> Timeout m"
  then show "direct_stuck t' e"
    using reader_failed_read [of "channel E" "world t"]
    by (auto simp: direct_stuck_def direct_read_line_def split: option.splits)
next
  fix t t' :: "'w direct" and d
  assume "close_transport (direct_transport E) t d = Some (Ok (), t')"
  then have "direct_close E t d = Some (Ok (), t')" by simp
  then show "direct_stuck t' Closed"
    by (cases rule: direct_close_cases) (auto simp: direct_stuck_def dest: join_threads_done)
next
  fix t t' :: "'w direct" and e c d
  assume stuck: "direct_stuck t e" and "close_transport (direct_transport E) t d = Some (c, t')"
  then have "direct_close E t d = Some (c, t')" by simp
  then show "\<exists>e'. direct_stuck t' e'"
    by (cases rule: direct_close_cases) (use stuck in \<open>auto simp: direct_stuck_def dest: join_threads_done\<close>)
qed (auto simp: direct_stuck_def dest: direct_write_keeps)

end
