(* ===== verification/DirectProps.thy ===== *)
theory DirectProps
  imports Direct
begin

text \<open>
  The staged shutdown of a child process: in which order it is asked, told and forced to end, how
  long that takes, what is left afterwards.
\<close>

section \<open>The order of the stages\<close>

datatype signal_event = StdinClosed | ExitSeen | Signal "32 word" | Killed | Waited

text \<open>\<open>ev w\<close>: what has been done to the child so far; nothing else shows in it.\<close>

definition observes :: "('w, 'k) process_ops \<Rightarrow> ('w \<Rightarrow> signal_event list) \<Rightarrow> bool" where
  "observes E ev \<longleftrightarrow>
     (\<forall>w. ev (drop_stdin E w) = ev w @ [StdinClosed])
     \<and> (\<forall>w. ev (snd (try_wait E w)) = ev w @ (case fst (try_wait E w) of Inr (Some _) \<Rightarrow> [ExitSeen] | _ \<Rightarrow> []))
     \<and> (\<forall>w p n. ev (snd (kill_syscall E w p n)) = ev w @ [Signal n])
     \<and> (\<forall>w. ev (snd (kill_child E w)) = ev w @ [Killed])
     \<and> (\<forall>w r w'. wait_child E w = Some (r, w') \<longrightarrow> ev w' = ev w @ [Waited])
     \<and> (\<forall>w w'. join_drain E w = Some w' \<longrightarrow> ev w' = ev w)
     \<and> (\<forall>w. ev (drop_receiver E w) = ev w)
     \<and> (\<forall>w. ev (snd (now (channel E) w)) = ev w)
     \<and> (\<forall>w t. ev (sleep (channel E) w t) = ev w)
     \<and> (\<forall>w. ev (snd (is_finished (channel E) w)) = ev w)
     \<and> (\<forall>w. ev (join_thread (channel E) w) = ev w)"

lemma observesD:
  assumes "observes E ev"
  shows "ev (drop_stdin E w) = ev w @ [StdinClosed]"
    "try_wait E w = (x, w') \<Longrightarrow> ev w' = ev w @ (case x of Inr (Some _) \<Rightarrow> [ExitSeen] | _ \<Rightarrow> [])"
    "ev (snd (kill_syscall E w p n)) = ev w @ [Signal n]"
    "ev (snd (kill_child E w)) = ev w @ [Killed]"
    "wait_child E w = Some (y, w') \<Longrightarrow> ev w' = ev w @ [Waited]"
    "join_drain E w = Some w' \<Longrightarrow> ev w' = ev w"
    "ev (drop_receiver E w) = ev w"
    "now (channel E) w = (i, w') \<Longrightarrow> ev w' = ev w"
    "ev (sleep (channel E) w t) = ev w"
    "is_finished (channel E) w = (b, w') \<Longrightarrow> ev w' = ev w"
    "ev (join_thread (channel E) w) = ev w"
  using assms by (auto simp: observes_def dest: arg_cong [where f = snd] arg_cong [where f = fst]) (metis fst_conv snd_conv)+

lemma wait_step_cases:
  assumes "wait_step E dl (w, bo) = Some (r, w', bo')"
  obtains (exited) st where "try_wait E w = (Inr (Some st), w')" "r = Some (Some st)"
  | (late) x w1 i where "try_wait E w = (x, w1)" "\<And>st. x \<noteq> Inr (Some st)" "now (channel E) w1 = (i, w')" "dl \<le> i" "r = Some None"
  | (again) x w1 i w2 where "try_wait E w = (x, w1)" "\<And>st. x \<noteq> Inr (Some st)" "now (channel E) w1 = (i, w2)" "i < dl" "r = None"
      "w' = sleep (channel E) w2 (min bo (dl - i))" "bo' = min (bo * 2) (10 * 10 ^ 6)"
proof -
  obtain x w1 where x: "try_wait E w = (x, w1)" by (cases "try_wait E w")
  obtain i w2 where i: "now (channel E) w1 = (i, w2)" by (cases "now (channel E) w1")
  show ?thesis
  proof (cases "\<exists>st. x = Inr (Some st)")
    case True
    then obtain st where "x = Inr (Some st)" by blast
    with assms x show ?thesis by (intro exited [of st]) (auto simp: wait_step_def)
  next
    case False
    then have "wait_step E dl (w, bo) =
      (if dl \<le> i then Some (Some None, w2, bo)
       else Some (None, sleep (channel E) w2 (min bo (dl - i)), min (bo * 2) (10 * 10 ^ 6)))"
      using x i by (auto simp: wait_step_def split: sum.splits option.splits)
    with assms x i False show ?thesis
      by (cases "dl \<le> i") (auto intro: late again)
  qed
qed

lemma wait_bounded_events:
  assumes "observes E ev" "wait_bounded E dl w = Some (st, w')"
  shows "ev w' = ev w @ (case st of Some _ \<Rightarrow> [ExitSeen] | None \<Rightarrow> [])"
proof -
  from assms(2) obtain bo where rep: "repeat (wait_step E dl) (w, 10 ^ 6) = Some (st, w', bo)"
    by (auto simp: wait_bounded_def)
  have "ev (fst (w', bo)) = ev w @ (case st of Some _ \<Rightarrow> [ExitSeen] | None \<Rightarrow> [])"
    using rep
  proof (rule repeat_invariant [where P = "\<lambda>(v, _). ev v = ev w"])
    fix s s' assume p: "case s of (v, _) \<Rightarrow> ev v = ev w" and st: "wait_step E dl s = Some (None, s')"
    obtain v bo v' bo' where "s = (v, bo)" "s' = (v', bo')" by (cases s; cases s')
    with p st show "case s' of (v, _) \<Rightarrow> ev v = ev w"
      using observesD(2,8,9) [OF assms(1)] by (auto elim!: wait_step_cases split: sum.splits option.splits)
  next
    fix s s' x assume p: "case s of (v, _) \<Rightarrow> ev v = ev w" and st: "wait_step E dl s = Some (Some x, s')"
    obtain v bo v' bo' where "s = (v, bo)" "s' = (v', bo')" by (cases s; cases s')
    with p st show "ev (fst s') = ev w @ (case x of Some _ \<Rightarrow> [ExitSeen] | None \<Rightarrow> [])"
      using observesD(2,8,9) [OF assms(1)] by (auto elim!: wait_step_cases split: sum.splits option.splits)
  qed simp
  then show ?thesis by simp
qed

lemma wait_for_events:
  assumes "observes E ev" "wait_for E t w = Some (Ok st, w')"
  shows "ev w' = ev w @ (case st of Some _ \<Rightarrow> [ExitSeen] | None \<Rightarrow> [])"
proof -
  obtain x w1 where x: "deadline_in (now (channel E)) (Some t) w = (x, w1)"
    by (cases "deadline_in (now (channel E)) (Some t) w")
  then have "ev w1 = ev w" using observesD(8) [OF assms(1)] by (auto split: prod.splits)
  moreover from assms(2) x obtain dl where "wait_bounded E dl w1 = Some (st, w')"
    by (auto simp: wait_for_def simp del: deadline_in.simps split: result.splits option.splits)
  ultimately show ?thesis using wait_bounded_events [OF assms(1)] by simp
qed

text \<open>The ways a child can be brought to its end.\<close>

definition stages :: "signal_event list set" where
  "stages = {[ExitSeen], [Signal 15, ExitSeen], [Signal 15, Killed, Waited]}"

lemma escalate_events:
  assumes "observes E ev" "escalate E t w = Some (Ok st, w')"
  shows "\<exists>es\<in>stages. ev w' = ev w @ es \<and> (last es = ExitSeen \<longrightarrow> st \<noteq> None)"
proof -
  from assms(2) obtain r1 w1 where r1: "wait_for E t w = Some (r1, w1)"
    by (auto simp: escalate_def split: bind_splits)
  show ?thesis
  proof (cases "r1 = Ok None")
    case False
    then have "r1 = Ok st" "w1 = w'" using assms(2) r1 by (auto simp: escalate_def)
    with wait_for_events [OF assms(1)] r1 False show ?thesis by (auto simp: stages_def)
  next
    case True
    let ?w2 = "snd (terminate E (child_id E w1) w1)"
    have e2: "ev ?w2 = ev w @ [Signal 15]"
      using observesD(3) [OF assms(1), of w1 "child_id E w1" 15] wait_for_events [OF assms(1)] r1 True
      by (auto simp: terminate_def split: prod.splits)
    from assms(2) r1 True obtain r2 w3 where r2: "wait_for E t ?w2 = Some (r2, w3)"
      by (auto simp: escalate_def split: bind_splits)
    show ?thesis
    proof (cases "r2 = Ok None")
      case False
      then have "r2 = Ok st" "w3 = w'" using assms(2) r1 True r2 by (auto simp: escalate_def)
      with wait_for_events [OF assms(1)] r2 e2 False show ?thesis by (auto simp: stages_def)
    next
      case kill: True
      from assms(2) r1 True r2 kill obtain r3 where "wait_child E (snd (kill_child E w3)) = Some (r3, w')"
        by (auto simp: escalate_def split: bind_splits)
      with observesD(4,5) [OF assms(1)] wait_for_events [OF assms(1)] r2 e2 kill
      show ?thesis by (auto simp: stages_def)
    qed
  qed
qed

lemma join_wait_events:
  assumes "observes E ev" "repeat (join_wait_step (channel E) dl) w = Some (u, w')"
  shows "ev w' = ev w"
  using assms(2)
proof (rule repeat_invariant [where P = "\<lambda>v. ev v = ev w"])
  show "ev s' = ev w" if "ev s = ev w" "join_wait_step (channel E) dl s = Some (None, s')" for s s'
    using that observesD(8,9,10) [OF assms(1)] by (auto simp: join_wait_step_def split: prod.splits if_splits)
  show "ev s' = ev w" if "ev s = ev w" "join_wait_step (channel E) dl s = Some (Some x, s')" for s s' x
    using that observesD(8,9,10) [OF assms(1)] by (auto simp: join_wait_step_def split: prod.splits if_splits)
qed simp

lemma reader_join_events:
  assumes "observes E ev" "reader_join (channel E) (w, rd) t = Some (r, w', rd')"
  shows "ev w' = ev w"
proof (cases "handle rd")
  case True
  obtain x w1 where x: "deadline_in (now (channel E)) (Some t) w = (x, w1)"
    by (cases "deadline_in (now (channel E)) (Some t) w")
  then have w1: "ev w1 = ev w" using observesD(8) [OF assms(1)] by (auto split: prod.splits)
  show ?thesis
  proof (cases "\<exists>dl. x = Ok (Some dl)")
    case False
    with assms(2) True x w1 show ?thesis
      by (auto simp: reader_join_def simp del: deadline_in.simps split: result.splits option.splits)
  next
    case dl: True
    then obtain dl where dl: "x = Ok (Some dl)" by blast
    with assms(2) True x obtain u w2 where u: "repeat (join_wait_step (channel E) dl) w1 = Some (u, w2)"
      by (auto simp: reader_join_def simp del: deadline_in.simps split: bind_splits)
    obtain fin w3 where fin: "is_finished (channel E) w2 = (fin, w3)" by (cases "is_finished (channel E) w2")
    have "w' = (if fin then join_thread (channel E) w3 else w3)"
      using assms(2) True x dl u fin by (auto simp: reader_join_def simp del: deadline_in.simps split: if_splits)
    then show ?thesis
      using join_wait_events [OF assms(1) u] observesD(10) [OF assms(1) fin] observesD(11) [OF assms(1)] w1 by simp
  qed
qed (use assms in \<open>simp add: reader_join_def\<close>)

lemma join_threads_events:
  assumes "observes E ev" "join_threads E t s = Some (r, s')"
  shows "ev (world s') = ev (world s)"
proof -
  from assms(2) obtain w1 where w1: "(if stderr_thread s then join_drain E (world s) else Some (world s)) = Some w1"
    by (auto simp: join_threads_def split: bind_splits)
  then have e1: "ev w1 = ev (world s)" using observesD(6) [OF assms(1)] by (auto split: if_splits)
  show ?thesis
  proof (cases "line_reader s")
    case None
    with assms(2) w1 e1 show ?thesis by (auto simp: join_threads_def)
  next
    case (Some rd)
    with assms(2) w1 obtain w2 rd' where "reader_join (channel E) (w1, rd) t = Some (r, w2, rd')"
      "world s' = drop_receiver E w2"
      by (auto simp: join_threads_def split: bind_splits)
    with reader_join_events [OF assms(1)] observesD(7) [OF assms(1)] e1 show ?thesis by simp
  qed
qed

lemma direct_close_stages:
  assumes "observes E ev" "stdin s" "direct_close E s t = Some (Ok (), s')"
  shows "(\<exists>es\<in>stages. ev (world s') = ev (world s) @ StdinClosed # es \<and> (last es = ExitSeen \<longrightarrow> exit_code s' \<noteq> None))
    \<and> \<not> stdin s' \<and> line_reader s' = None \<and> \<not> stderr_thread s'"
  using assms(3)
proof (cases rule: direct_close_cases)
  case (shut w1 status)
  then have esc: "escalate E t (drop_stdin E (world s)) = Some (Ok status, w1)" using assms(2) by simp
  from escalate_events [OF assms(1) esc] obtain es where
    es: "es \<in> stages" "ev w1 = ev (drop_stdin E (world s)) @ es" "last es = ExitSeen \<longrightarrow> status \<noteq> None" by blast
  have "ev (world s') = ev (world s) @ StdinClosed # es"
    using join_threads_events [OF assms(1) shut(2)] es(2) observesD(1) [OF assms(1)] by simp
  moreover have "last es = ExitSeen \<longrightarrow> exit_code s' \<noteq> None"
    using join_threads_done [OF shut(2)] es(3) by auto
  ultimately show ?thesis using join_threads_done [OF shut(2)] es(1) by auto
qed (use assms(2) in auto)

section \<open>Time\<close>

text \<open>
  On top of the clock and the channel: system calls end, within \<open>d\<close>; waiting for a killed child and
  for the drain of standard error ends at all.
\<close>

definition process_time :: "('w, 'k) process_ops \<Rightarrow> ('w \<Rightarrow> instant) \<Rightarrow> duration \<Rightarrow> duration \<Rightarrow> bool" where
  "process_time E clk c d \<longleftrightarrow> channel_time (channel E) clk c d
     \<and> (\<forall>w. clk w \<le> clk (snd (try_wait E w)) \<and> clk (snd (try_wait E w)) \<le> clk w + d)"

lemma process_timeD:
  assumes "process_time E clk c d"
  shows "channel_time (channel E) clk c d" "clock_ok (now (channel E)) clk c"
    "try_wait E w = (x, w') \<Longrightarrow> clk w \<le> clk w' \<and> clk w' \<le> clk w + d"
    "clk w + t \<le> clk (sleep (channel E) w t) \<and> clk (sleep (channel E) w t) \<le> clk w + t + d"
  using assms channel_time_simps(1,5) [of "channel E" clk c d]
  by (auto simp: process_time_def dest: arg_cong [where f = snd]) (metis snd_conv)+

lemma wait_step_time:
  assumes "process_time E clk c d" "0 < bo" "clk w \<le> dl + d"
  shows "\<exists>r w' bo'. wait_step E dl (w, bo) = Some (r, w', bo') \<and> 0 < bo'
    \<and> (r = None \<longrightarrow> clk w < dl \<and> clk w < clk w' \<and> clk w' \<le> dl + d)
    \<and> clk w' \<le> dl + 2 * d + c
    \<and> (r = Some None \<longrightarrow> dl \<le> clk w')"
proof -
  have "wait_step E dl (w, bo) \<noteq> None"
    by (auto simp: wait_step_def split: prod.splits sum.splits option.splits)
  then obtain r w' bo' where st: "wait_step E dl (w, bo) = Some (r, w', bo')" by auto
  from st have "0 < bo' \<and> (r = None \<longrightarrow> clk w < dl \<and> clk w < clk w' \<and> clk w' \<le> dl + d)
    \<and> clk w' \<le> dl + 2 * d + c \<and> (r = Some None \<longrightarrow> dl \<le> clk w')"
  proof (cases rule: wait_step_cases)
    case (exited s)
    then have "bo' = bo" using st by (auto simp: wait_step_def)
    with exited process_timeD(3) [OF assms(1) exited(1)] assms(2,3) show ?thesis by auto
  next
    case (late x w1 i)
    then have "bo' = bo" using st by (auto simp: wait_step_def split: sum.splits option.splits)
    moreover have "clk w' = i \<and> clk w1 \<le> i \<and> i \<le> clk w1 + c"
      by (rule clock_okD [where clock = "now (channel E)" and clk = clk and c = c, OF process_timeD(2) [OF assms(1)] late(3)])
    ultimately show ?thesis using late process_timeD(3) [OF assms(1) late(1)] assms(2,3) by auto
  next
    case (again x w1 i w2)
    have "clk w2 = i \<and> clk w1 \<le> i \<and> i \<le> clk w1 + c"
      by (rule clock_okD [where clock = "now (channel E)" and clk = clk and c = c, OF process_timeD(2) [OF assms(1)] again(3)])
    with again process_timeD(3) [OF assms(1) again(1)] process_timeD(4) [OF assms(1), of w2 "min bo (dl - i)"] assms(2)
    show ?thesis by (auto simp: min_def split: if_splits)
  qed
  with st show ?thesis by blast
qed

lemma wait_bounded_time:
  assumes "process_time E clk c d" "clk w \<le> dl"
  shows "\<exists>st w'. wait_bounded E dl w = Some (st, w') \<and> clk w' \<le> dl + 2 * d + c \<and> (st = None \<longrightarrow> dl \<le> clk w')"
proof -
  define P where "P s \<longleftrightarrow> clk (fst s) \<le> dl + d \<and> 0 < snd s" for s :: "'a \<times> duration"
  have step: "\<exists>r s'. wait_step E dl s = Some (r, s') \<and> (r = None \<longrightarrow> P s' \<and> clk (fst s) < dl \<and> clk (fst s) < clk (fst s'))
      \<and> clk (fst s') \<le> dl + 2 * d + c \<and> (r = Some None \<longrightarrow> dl \<le> clk (fst s'))" if "P s" for s
    using wait_step_time [OF assms(1), of "snd s" "fst s" dl] that by (cases s) (auto simp: P_def)
  have init: "P (w, 10 ^ 6)" using assms(2) by (simp add: P_def)
  have "repeat (wait_step E dl) (w, 10 ^ 6) \<noteq> None"
  proof (rule repeat_returns [where P = P and R = "measure (\<lambda>s. dl - clk (fst s))"])
    show "wait_step E dl s \<noteq> None" if "P s" for s using step [OF that] by auto
    show "P s' \<and> (s', s) \<in> measure (\<lambda>s. dl - clk (fst s))" if "P s" "wait_step E dl s = Some (None, s')" for s s'
      using step [OF that(1)] that(2) by auto
  qed (simp, rule init)
  then obtain st s' where rep: "repeat (wait_step E dl) (w, 10 ^ 6) = Some (st, s')" by auto
  have "clk (fst s') \<le> dl + 2 * d + c \<and> (st = None \<longrightarrow> dl \<le> clk (fst s'))"
    using rep
  proof (rule repeat_invariant [where P = P])
    show "P s'" if "P s" "wait_step E dl s = Some (None, s')" for s s' using step [OF that(1)] that(2) by auto
    show "clk (fst s') \<le> dl + 2 * d + c \<and> (x = None \<longrightarrow> dl \<le> clk (fst s'))"
      if "P s" "wait_step E dl s = Some (Some x, s')" for s s' x using step [OF that(1)] that(2) by auto
  qed (rule init)
  with rep show ?thesis by (cases s') (auto simp: wait_bounded_def)
qed

lemma wait_for_time:
  assumes "process_time E clk c d"
  shows "\<exists>r w'. wait_for E t w = Some (r, w') \<and> clk w' \<le> clk w + t + 2 * d + 2 * c
    \<and> (r = Ok None \<longrightarrow> clk w + t \<le> clk w') \<and> (\<forall>e. r \<noteq> Err e)"
proof -
  obtain x w1 where x: "deadline_in (now (channel E)) (Some t) w = (x, w1)"
    by (cases "deadline_in (now (channel E)) (Some t) w")
  note x' = deadline_in_clock [OF process_timeD(2) [OF assms] x]
  show ?thesis
  proof (cases "x = Panic")
    case True
    with x x' show ?thesis by (auto simp: wait_for_def)
  next
    case False
    with x' have "x = Ok (Some (clk w1 + t))" by (auto split: if_splits)
    with x x' wait_bounded_time [OF assms, of w1 "clk w1 + t"] show ?thesis
      by (auto simp: wait_for_def simp del: deadline_in.simps)
  qed
qed

lemma escalate_returns:
  assumes "process_time E clk c d" "\<And>w. wait_child E w \<noteq> None"
  shows "escalate E t w \<noteq> None"
proof -
  from wait_for_time [OF assms(1)] obtain r1 w1 where r1: "wait_for E t w = Some (r1, w1)" by blast
  let ?w2 = "snd (terminate E (child_id E w1) w1)"
  from wait_for_time [OF assms(1)] obtain r2 w3 where r2: "wait_for E t ?w2 = Some (r2, w3)" by blast
  from assms(2) obtain r3 w4 where "wait_child E (snd (kill_child E w3)) = Some (r3, w4)" by fastforce
  with r1 r2 show ?thesis by (simp add: escalate_def)
qed

lemma join_threads_returns:
  assumes "process_time E clk c d" "\<And>w. join_drain E w \<noteq> None"
  shows "join_threads E t s \<noteq> None"
proof -
  from assms(2) obtain w1 where w1: "(if stderr_thread s then join_drain E (world s) else Some (world s)) = Some w1"
    by (cases "stderr_thread s") auto
  have "reader_join (channel E) (w1, rd) t \<noteq> None" for rd
    using reader_join_returns [OF process_timeD(1) [OF assms(1)]] by simp
  show ?thesis
  proof (cases "line_reader s")
    case (Some rd)
    obtain r w2 rd' where "reader_join (channel E) (w1, rd) t = Some (r, w2, rd')"
      using \<open>reader_join (channel E) (w1, rd) t \<noteq> None\<close> by auto
    with w1 Some show ?thesis by (simp add: join_threads_def)
  qed (use w1 in \<open>simp add: join_threads_def\<close>)
qed

section \<open>Properties\<close>

text \<open>
  C16: Closing shuts a child down in stages: its standard input is closed first; then it has been seen to exit,
  or was sent SIGTERM and then seen to exit, or was sent SIGTERM, then SIGKILL, and was waited for. In
  particular no signal is sent to a child already seen to have exited. Afterwards everything is torn
  down, and the exit code is known whenever an exit was seen.
\<close>
theorem close_escalates_in_order:
  assumes "observes E ev" "stdin s" "direct_close E s t = Some (Ok (), s')"
  shows "(\<exists>es\<in>stages. ev (world s') = ev (world s) @ StdinClosed # es \<and> (last es = ExitSeen \<longrightarrow> exit_code s' \<noteq> None))
    \<and> \<not> stdin s' \<and> line_reader s' = None \<and> \<not> stderr_thread s'"
  by (rule direct_close_stages [OF assms])

text \<open>
  A bounded wait for the child ends: late by at most a nap, a look at the child and two at the
  clock; and it gives up, so that the next stage begins, only when the time is over.
\<close>
lemma bounded_wait_window:
  "process_time E clk c d \<Longrightarrow>
     \<exists>r w'. wait_for E t w = Some (r, w') \<and> clk w' \<le> clk w + t + 2 * d + 2 * c
       \<and> (r = Ok None \<longrightarrow> clk w + t \<le> clk w')"
  using wait_for_time [of E clk c d t w] by blast

text \<open>
  C27: Reading from a child with a timeout comes back, late by at most what one wait on the channel and
  three looks at the clock take, and reports a timeout only once the time is over.
\<close>
theorem direct_read_window:
  assumes "process_time E clk c d"
  shows "\<exists>r s'. direct_read_line E s (Some t) = Some (r, s')
    \<and> clk (world s') \<le> clk (world s) + t + d + 3 * c
    \<and> (r = Err timeout_error \<and> (\<nexists>e. direct_stuck s' e) \<longrightarrow> clk (world s) + t \<le> clk (world s'))"
proof (cases "line_reader s")
  case None
  then show ?thesis by (simp add: direct_read_line_def direct_stuck_def)
next
  case (Some rd)
  from reader_read_time [OF process_timeD(1) [OF assms], of "world s" rd t] obtain r w rd' where
    "reader_read_line (channel E) (world s, rd) (Some t) = Some (r, w, rd')"
    "clk w \<le> clk (world s) + t + d + 3 * c"
    "r = Err timeout_error \<and> terminal rd' = None \<longrightarrow> clk (world s) + t \<le> clk w" by blast
  with Some show ?thesis by (auto simp: direct_read_line_def direct_stuck_def)
qed

text \<open>
  Closing returns, even for a child that ignores its input and SIGTERM, provided a killed child can be
  waited for and the thread that drains standard error ends.
\<close>
lemma direct_close_returns:
  assumes "process_time E clk c d" "\<And>w. wait_child E w \<noteq> None" "\<And>w. join_drain E w \<noteq> None"
  shows "direct_close E s t \<noteq> None"
proof (cases "\<not> stdin s \<and> line_reader s = None \<and> \<not> stderr_thread s \<and> exit_code s \<noteq> None")
  case False
  let ?w = "if stdin s then drop_stdin E (world s) else world s"
  obtain r w1 where r: "escalate E t ?w = Some (r, w1)"
    using escalate_returns [OF assms(1,2)] by fastforce
  then show ?thesis
    using join_threads_returns [OF assms(1,3)] unfolding direct_close_def if_not_P [OF False] r
    by (cases r) simp_all
qed (simp add: direct_close_def)

text \<open>
  Without SIGTERM the second wait is not left out: a child that is not seen to exit is killed only after
  the timeout has passed twice.
\<close>

lemma no_sigterm_waits_twice:
  assumes "process_time E clk c d" "\<And>w p n. kill_syscall E w p n = (- 1, w)"
    "wait_for E t w = Some (Ok None, w1)" "wait_for E t w1 = Some (Ok None, w2)"
  shows "escalate E t w = map_option (\<lambda>(r, w'). (Ok (case r of Inl e \<Rightarrow> None | Inr st \<Rightarrow> Some st), w'))
      (wait_child E (snd (kill_child E w2)))
    \<and> clk w + 2 * t \<le> clk w2"
proof -
  have "snd (terminate E pid w1) = w1" for pid
    by (simp add: terminate_other_eq [OF assms(2)] terminate_other_def)
  moreover have "clk w + t \<le> clk w1" "clk w1 + t \<le> clk w2"
    using wait_for_time [OF assms(1), of t w] wait_for_time [OF assms(1), of t w1] assms(3,4) by auto
  ultimately show ?thesis
    using assms(3,4) by (cases "wait_child E (snd (kill_child E w2))") (auto simp: escalate_def)
qed

text \<open>The proviso on the drain is needed: it is joined without a bound.\<close>

lemma close_hangs_on_stderr:
  assumes "\<And>w. join_drain E w = None" "stderr_thread s" "escalate E t (if stdin s then drop_stdin E (world s) else world s) = Some (Ok st, w1)"
  shows "direct_close E s t = None"
  using assms by (simp add: direct_close_def join_threads_def)

text \<open>
  A closed transport stays closed: closing again does nothing, and reads and writes are refused with
  \<open>Closed\<close>.
\<close>
lemma direct_close_idempotent:
  assumes "direct_close E s t = Some (Ok (), s')" "exit_code s' \<noteq> None"
  shows "direct_close E s' t' = Some (Ok (), s') \<and> direct_write_line E s' line = Some (Err Closed, s')
    \<and> direct_read_line E s' tmo = Some (Err Closed, s')"
proof -
  have "\<not> stdin s' \<and> line_reader s' = None \<and> \<not> stderr_thread s'"
    using assms(1) by (cases rule: direct_close_cases) (auto dest: join_threads_done)
  with assms(2) show ?thesis by (auto simp: direct_close_def direct_write_line_def direct_read_line_def)
qed

text \<open>
  The exit code tells how the child ended: distinct for distinct exits with the codes and signals a
  POSIX system has, negative exactly for a death by signal.
\<close>
lemma exit_code_faithful:
  assumes "c < 256" "0 < n" "n < 128"
  shows "sint (exit_code_of (Exited (of_nat c))) = int c \<and> sint (exit_code_of (Signalled (of_nat n))) = - int n"
proof -
  have "sint (word_of_int k :: 32 word) = k" if "- (2 ^ 31) \<le> k" "k < 2 ^ 31" for k
    using that by (simp add: sint_sbintrunc' signed_take_bit_int_eq_self)
  from this [of "int c"] this [of "- int n"] assms show ?thesis
    by (simp add: exit_code_of_def)
qed

text \<open>
  C18: Once a connection to a child has been closed, or reading from it has failed other than by a
  timeout, no later call succeeds, whatever happens in between.
\<close>
theorem ended_child_stays_ended:
  assumes "is_closed s \<or> direct_stuck (conn s) e" "run (direct_transport E) qs s = Some s1"
    "call (direct_transport E) s1 kvs = Some (r, s2)"
  shows "\<not> is_ok r \<and> (is_closed s2 \<or> (\<exists>e'. direct_stuck (conn s2) e'))"
proof -
  have "directs.dead s" using assms(1) by (auto simp: directs.dead_def)
  then have "directs.dead s1" by (rule directs.dead_run [OF _ assms(2)])
  from directs.dead_call [OF this assms(3)] show ?thesis by (auto simp: directs.dead_def)
qed

section \<open>Examples\<close>

text \<open>A child that only SIGKILL ends; its world is the time and what was done to the child.\<close>

definition quiet_channel :: "(nat \<times> signal_event list) channel_ops" where
  "quiet_channel =
     \<lparr>recv = (\<lambda>w. None), recv_timeout = (\<lambda>(n, ev) t. (Err RecvTimeout, (n + t, ev))),
      is_finished = (\<lambda>w. (True, w)), join_thread = (\<lambda>w. w),
      now = (\<lambda>(n, ev). (n, (n, ev))), sleep = (\<lambda>(n, ev) t. (n + t, ev))\<rparr>"

definition stubborn :: "(nat \<times> signal_event list, unit) process_ops" where
  "stubborn =
     \<lparr>channel = quiet_channel,
      spawn_child = (\<lambda>w cmd. (Ok (), w)), spawn_reader = (\<lambda>w. w), spawn_drain = (\<lambda>w k. w),
      child_id = (\<lambda>w. 42),
      stdin_write_all = (\<lambda>w line. Some (Ok (), w)), stdin_flush = (\<lambda>w. Some (Ok (), w)),
      drop_stdin = (\<lambda>(n, ev). (n, ev @ [StdinClosed])),
      try_wait = (\<lambda>(n, ev). if Killed \<in> set ev then (Inr (Some (Signalled 9)), (n + 1, ev @ [ExitSeen]))
        else (Inr None, (n + 1, ev))),
      kill_syscall = (\<lambda>(n, ev) p k. (0, (n, ev @ [Signal k]))),
      kill_child = (\<lambda>(n, ev). (Inr (), (n, ev @ [Killed]))),
      wait_child = (\<lambda>(n, ev). Some (Inr (Signalled 9), (n, ev @ [Waited]))),
      join_drain = (\<lambda>w. Some w), drop_receiver = (\<lambda>w. w)\<rparr>"

lemma stubborn_observes: "observes stubborn snd"
  by (auto simp: observes_def stubborn_def quiet_channel_def)

lemma stubborn_time: "process_time stubborn fst 0 1"
  by (auto simp: process_time_def channel_time_def clock_ok_def stubborn_def quiet_channel_def)

definition running :: "(nat \<times> signal_event list) direct" where
  "running = \<lparr>world = (0, []), stdin = True, line_reader = Some spawned, stderr_thread = False, exit_code = None\<rparr>"

lemma running_close:
  "direct_close stubborn running 2 = Some (Ok (),
     \<lparr>world = (6, [StdinClosed, Signal 15, Killed, Waited]), stdin = False, line_reader = None,
      stderr_thread = False, exit_code = Some (- 9)\<rparr>)"
  by (simp add: direct_close_def running_def escalate_def wait_for_def wait_bounded_def stubborn_def quiet_channel_def
      Loops.repeat.simps wait_step_def terminate_def add_instant_def INSTANT_END_def join_threads_def reader_join_def
      spawned_def join_wait_step_def exit_code_of_def)

lemma close_escalates_in_order_witness:
  "\<exists>es\<in>stages. snd (world (\<lparr>world = (6, [StdinClosed, Signal 15, Killed, Waited]), stdin = False, line_reader = None,
      stderr_thread = False, exit_code = Some (- 9)\<rparr> :: (nat \<times> signal_event list) direct)) = StdinClosed # es"
  using close_escalates_in_order [OF stubborn_observes _ running_close] by (auto simp: running_def)

lemma bounded_wait_window_witness:
  "\<exists>r w'. wait_for stubborn 2 (0, []) = Some (r, w') \<and> fst w' \<le> 4 \<and> (r = Ok None \<longrightarrow> 2 \<le> fst w')"
  using bounded_wait_window [OF stubborn_time, of 2 "(0, [])"] by (simp add: eval_nat_numeral)

lemma direct_read_window_witness:
  "\<exists>r s'. direct_read_line stubborn running (Some 10) = Some (r, s') \<and> fst (world s') \<le> 11"
  using direct_read_window [OF stubborn_time, of running 10] by (auto simp: running_def)

lemma direct_close_returns_witness: "direct_close stubborn running CLOSE_TIMEOUT \<noteq> None"
  by (rule direct_close_returns [OF stubborn_time]) (auto simp: stubborn_def)

lemma direct_close_idempotent_witness:
  "\<exists>s'. direct_close stubborn running 2 = Some (Ok (), s') \<and> direct_close stubborn s' 5 = Some (Ok (), s')"
  using direct_close_idempotent [OF running_close] running_close by auto

lemma exit_code_faithful_witness:
  "sint (exit_code_of (Exited (of_nat 3))) = 3 \<and> sint (exit_code_of (Signalled (of_nat 9))) = - 9"
  using exit_code_faithful [of 3 9] by simp

definition closed_session :: "(nat \<times> signal_event list) direct session" where
  "closed_session = \<lparr>session_hello = \<lparr>protocol = 1, hello_version = [], product = []\<rparr>,
     conn = running\<lparr>line_reader := None\<rparr>, default_timeout = None, is_closed = False\<rparr>"

lemma ended_child_stays_ended_witness:
  "\<exists>r s2. call (direct_transport stubborn) closed_session [] = Some (r, s2) \<and> \<not> is_ok r"
proof -
  obtain r s2 where c: "call (direct_transport stubborn) closed_session [] = Some (r, s2)"
    by (simp add: call_def closed_session_def direct_write_line_def direct_read_line_def stubborn_def running_def)
  have "direct_stuck (conn closed_session) Closed" by (simp add: closed_session_def direct_stuck_def)
  with c ended_child_stays_ended [of closed_session Closed stubborn "[]" closed_session "[]" r s2] show ?thesis by auto
qed

end
