(* ===== verification/Dial.thy ===== *)
theory Dial
  imports Socket
begin

text \<open>
  How a \<open>SocketTransport\<close> gets its stream: \<open>dial_tcp\<close>, \<open>connect_tcp\<close> and \<open>connect_unix\<close> of
  \<open>rust/src/transport/socket.rs\<close>.
\<close>

text \<open>
  Resolving, connecting and \<open>set_read_timeout\<close> are the operating system's; a stream that has been
  opened is part of the world. \<open>'a\<close> is the type of socket addresses.
\<close>

record ('w, 'a) net_ops =
  resolve_addrs :: "'w \<Rightarrow> (('a list, io_error) result \<times> 'w) option"
  connect_any :: "'w \<Rightarrow> 'a list \<Rightarrow> ((unit, io_error) result \<times> 'w) option"
  connect_one :: "'w \<Rightarrow> 'a \<Rightarrow> duration \<Rightarrow> ((unit, io_error) result \<times> 'w) option"
  connect_path :: "'w \<Rightarrow> bytes \<Rightarrow> ((unit, io_error) result \<times> 'w) option"
  set_read_timeout :: "'w \<Rightarrow> duration \<Rightarrow> (unit, io_error) result \<times> 'w"
  net_now :: "'w \<Rightarrow> instant \<times> 'w"

definition connect_timed_out :: error where
  "connect_timed_out = Timeout (str ''connect timed out'')"

definition dial_error :: "io_error option \<Rightarrow> error" where
  "dial_error last_err = (case last_err of Some e \<Rightarrow> from_io e | None \<Rightarrow> connect_timed_out)"

fun dial_loop ::
  "('w, 'a) net_ops \<Rightarrow> instant \<Rightarrow> 'a list \<Rightarrow> io_error option \<Rightarrow> 'w \<Rightarrow> ((unit, error) result \<times> 'w) option" where
  "dial_loop N deadline [] last_err w = Some (Err (dial_error last_err), w)"
| "dial_loop N deadline (a # as) last_err w =
     (case net_now N w of
        (now, w1) \<Rightarrow>
          if deadline - now = 0 then Some (Err (dial_error last_err), w1)
          else
            do {
              (r, w2) \<leftarrow> connect_one N w1 a (deadline - now);
              (case r of
                 Ok _ \<Rightarrow> Some (Ok (), w2)
               | Err e \<Rightarrow> dial_loop N deadline as (Some e) w2
               | Panic \<Rightarrow> Some (Panic, w2))
            })"

definition no_addresses :: error where
  "no_addresses = from_io \<lparr>kind = InvalidInput, io_text = str ''no addresses to connect to''\<rparr>"

text \<open>The attempts, once the addresses are known.\<close>

definition dial_addrs ::
  "('w, 'a) net_ops \<Rightarrow> 'a list \<Rightarrow> duration option \<Rightarrow> 'w \<Rightarrow> ((unit, error) result \<times> 'w) option" where
  "dial_addrs N addrs tmo w =
     (if addrs = [] then Some (Err no_addresses, w)
      else
        case tmo of
          None \<Rightarrow> map_option (\<lambda>(r, w'). (map_err from_io r, w')) (connect_any N w addrs)
        | Some t \<Rightarrow>
            (case net_now N w of
               (now, w1) \<Rightarrow>
                 (case add_instant now t of
                    Ok deadline \<Rightarrow> dial_loop N deadline addrs None w1
                  | Err e \<Rightarrow> Some (Err e, w1)
                  | Panic \<Rightarrow> Some (Panic, w1))))"

definition dial_tcp ::
  "('w, 'a) net_ops \<Rightarrow> duration option \<Rightarrow> 'w \<Rightarrow> ((unit, error) result \<times> 'w) option" where
  "dial_tcp N tmo w =
     do {
       (r, w1) \<leftarrow> resolve_addrs N w;
       (case r of
          Ok addrs \<Rightarrow> dial_addrs N addrs tmo w1
        | Err e \<Rightarrow> Some (Err (from_io e), w1)
        | Panic \<Rightarrow> Some (Panic, w1))
     }"

text \<open>With the read timeout set, the open stream becomes a transport.\<close>

definition poll_and_wrap :: "('w, 'a) net_ops \<Rightarrow> 'w \<Rightarrow> ('w socket, error) result \<times> 'w" where
  "poll_and_wrap N w =
     (case set_read_timeout N w POLL_INTERVAL of
        (r, w1) \<Rightarrow> (and_then (map_err from_io r) (\<lambda>_. Ok (from_stream w1)), w1))"

definition socket_connect_tcp ::
  "('w, 'a) net_ops \<Rightarrow> duration option \<Rightarrow> 'w \<Rightarrow> (('w socket, error) result \<times> 'w) option" where
  "socket_connect_tcp N tmo w =
     do {
       (r, w1) \<leftarrow> dial_tcp N tmo w;
       Some (case r of Ok _ \<Rightarrow> poll_and_wrap N w1 | Err e \<Rightarrow> (Err e, w1) | Panic \<Rightarrow> (Panic, w1))
     }"

definition socket_connect_unix ::
  "('w, 'a) net_ops \<Rightarrow> bytes \<Rightarrow> 'w \<Rightarrow> (('w socket, error) result \<times> 'w) option" where
  "socket_connect_unix N p w =
     do {
       (r, w1) \<leftarrow> connect_path N w p;
       Some (case map_err from_io r of Ok _ \<Rightarrow> poll_and_wrap N w1 | Err e \<Rightarrow> (Err e, w1) | Panic \<Rightarrow> (Panic, w1))
     }"

section \<open>One deadline for all addresses\<close>

text \<open>A single attempt keeps to the time it is given, up to \<open>d\<close>.\<close>

definition prompt_connect :: "('w, 'a) net_ops \<Rightarrow> ('w \<Rightarrow> instant) \<Rightarrow> duration \<Rightarrow> duration \<Rightarrow> bool" where
  "prompt_connect N clk c d \<longleftrightarrow> clock_ok (net_now N) clk c \<and>
     (\<forall>w a t. \<exists>r w'. connect_one N w a t = Some (r, w') \<and> clk w \<le> clk w' \<and> clk w' \<le> clk w + t + d)"

lemma dial_loop_time:
  assumes "prompt_connect N clk c d" "clk w \<le> dl + d"
  shows "\<exists>r w'. dial_loop N dl as le w = Some (r, w') \<and> clk w' \<le> dl + d + c
    \<and> (r = Err connect_timed_out \<longrightarrow> le = None \<and> (as = [] \<or> dl \<le> clk w'))"
  using assms(2)
proof (induction as arbitrary: le w)
  case Nil
  then show ?case by (auto simp: dial_error_def connect_timed_out_def from_io_def split: option.splits)
next
  case (Cons a as)
  obtain now w1 where n: "net_now N w = (now, w1)" by (cases "net_now N w")
  have clock: "clk w1 = now" "now \<le> clk w + c"
    using assms(1) clock_okD [where clock = "net_now N" and clk = clk and c = c, OF _ n] unfolding prompt_connect_def by blast+
  show ?case
  proof (cases "dl \<le> now")
    case True
    with n clock Cons.prems show ?thesis
      by (auto simp: dial_error_def connect_timed_out_def from_io_def split: option.splits)
  next
    case False
    from assms(1) obtain r w2 where r: "connect_one N w1 a (dl - now) = Some (r, w2)" "clk w2 \<le> clk w1 + (dl - now) + d"
      unfolding prompt_connect_def by blast
    with False clock have "clk w2 \<le> dl + d" by simp
    with Cons.IH [OF this, of "case r of Err e \<Rightarrow> Some e | _ \<Rightarrow> None"] n r(1) False show ?thesis
      by (cases r) auto
  qed
qed

text \<open>
  C28: Connecting to a host with several addresses is one bounded operation: whatever the number of
  addresses, the attempts end within the timeout, one attempt's own slack and two looks at the clock
  after it, and "connect timed out" is only reported once the timeout is over.
\<close>
theorem dial_has_one_deadline:
  assumes "prompt_connect N clk c d" "dial_addrs N addrs (Some t) w = Some (r, w')"
  shows "clk w' \<le> clk w + t + d + 2 * c \<and>
    (r = Err connect_timed_out \<longrightarrow> clk w + t \<le> clk w')"
proof -
  obtain now w1 where n: "net_now N w = (now, w1)" by (cases "net_now N w")
  have clock: "clk w1 = now" "clk w \<le> now" "now \<le> clk w + c"
    using assms(1) clock_okD [where clock = "net_now N" and clk = clk and c = c, OF _ n] unfolding prompt_connect_def by blast+
  show ?thesis
  proof (cases "addrs \<noteq> [] \<and> add_instant now t \<noteq> Panic")
    case True
    then have eq: "dial_loop N (now + t) addrs None w1 = Some (r, w')"
      using assms(2) n by (auto simp: dial_addrs_def add_instant_def split: if_splits)
    from dial_loop_time [OF assms(1), of w1 "now + t" addrs None] clock(1) eq True
    show ?thesis using clock(2,3) by auto
  next
    case False
    then show ?thesis
      using assms(2) n clock
      by (auto simp: dial_addrs_def no_addresses_def connect_timed_out_def from_io_def split: if_splits result.splits)
  qed
qed

definition slow_net :: "(nat, nat) net_ops" where
  "slow_net =
     \<lparr>resolve_addrs = (\<lambda>w. Some (Ok [1, 2, 3], w)),
      connect_any = (\<lambda>w as. Some (Ok (), w)),
      connect_one = (\<lambda>w a t. Some (Err \<lparr>kind = TimedOut, io_text = []\<rparr>, w + min t 7)),
      connect_path = (\<lambda>w p. Some (Ok (), w)),
      set_read_timeout = (\<lambda>w d. (Ok (), w)),
      net_now = (\<lambda>w. (w, w))\<rparr>"

lemma dial_has_one_deadline_witness:
  "\<exists>r w'. dial_tcp slow_net (Some 10) 5 = Some (r, w') \<and> w' \<le> 15"
proof -
  have "prompt_connect slow_net id 0 0" by (auto simp: prompt_connect_def clock_ok_def slow_net_def)
  moreover have d: "dial_addrs slow_net [1, 2, 3] (Some 10) 5 =
      Some (Err (from_io \<lparr>kind = TimedOut, io_text = []\<rparr>), 15)"
    by (simp add: dial_addrs_def slow_net_def add_instant_def INSTANT_END_def dial_error_def)
  ultimately have "(15 :: nat) \<le> 5 + 10 + 0 + 2 * 0"
    using dial_has_one_deadline [of slow_net id 0 0 "[1, 2, 3]" 10 5] by (metis id_apply)
  moreover have "dial_tcp slow_net (Some 10) 5 = dial_addrs slow_net [1, 2, 3] (Some 10) 5"
    by (simp add: dial_tcp_def slow_net_def)
  ultimately show ?thesis using d by simp
qed

end
