(* ===== verification/Client.thy ===== *)
theory Client
  imports DirectProps SocketProps Dial
begin

text \<open>
  \<open>rust/src/client.rs\<close>: the public connections and how they are made.
\<close>

section \<open>The trait \<open>Connection\<close>\<close>

record 's connection =
  c_hello :: "'s \<Rightarrow> hello"
  c_query :: "'s \<Rightarrow> rstring \<Rightarrow> val list \<Rightarrow> ((query_result, error) result \<times> 's) option"
  c_exec :: "'s \<Rightarrow> rstring \<Rightarrow> val list \<Rightarrow> ((exec_result, error) result \<times> 's) option"
  c_snapshot :: "'s \<Rightarrow> snapshot_options \<Rightarrow> ((snapshot_result, error) result \<times> 's) option"
  c_load :: "'s \<Rightarrow> rstring \<Rightarrow> ((unit, error) result \<times> 's) option"
  c_inspect :: "'s \<Rightarrow> ((inspect_result, error) result \<times> 's) option"
  c_tables :: "'s \<Rightarrow> ((tables_result, error) result \<times> 's) option"
  c_schema :: "'s \<Rightarrow> rstring option \<Rightarrow> ((schema_result, error) result \<times> 's) option"
  c_dump :: "'s \<Rightarrow> rstring option \<Rightarrow> ((dump_result, error) result \<times> 's) option"
  c_close :: "'s \<Rightarrow> ((unit, error) result \<times> 's) option"
  c_set_timeout :: "'s \<Rightarrow> duration option \<Rightarrow> 's"
  c_timeout :: "'s \<Rightarrow> duration option"

type_synonym 'w client = "'w direct session"
type_synonym 'w socket_client = "'w socket session"

definition connection_of :: "'t transport_ops \<Rightarrow> 't session connection" where
  "connection_of T =
     \<lparr>c_hello = session_hello, c_query = query T, c_exec = exec T, c_snapshot = snapshot T, c_load = load T,
      c_inspect = inspect T, c_tables = tables T, c_schema = schema T, c_dump = dump T,
      c_close = close_session T, c_set_timeout = set_timeout, c_timeout = timeout\<rparr>"

definition client_connection :: "('w, 'k) process_ops \<Rightarrow> 'w client connection" where
  "client_connection E = connection_of (direct_transport E)"

definition socket_client_connection :: "'w stream_ops \<Rightarrow> 'w socket_client connection" where
  "socket_client_connection E = connection_of (socket_transport E)"

text \<open>Only a direct connection can be overwritten, and has an exit code.\<close>

definition client_overwrite :: "('w, 'k) process_ops \<Rightarrow> 'w client \<Rightarrow> ((unit, error) result \<times> 'w client) option" where
  "client_overwrite E s = overwrite (direct_transport E) s"

definition client_exit_code :: "'w client \<Rightarrow> 32 word option" where
  "client_exit_code s = exit_code (conn s)"

section \<open>A child process\<close>

record 'k connect_options =
  opt_env :: "(bytes \<times> bytes) list option"
  opt_cwd :: "bytes option"
  opt_stderr :: "'k stderr_sink option"
  opt_timeout :: "duration option"
  timeout_set :: bool

definition connect_options_new :: "'k connect_options" where
  "connect_options_new =
     \<lparr>opt_env = None, opt_cwd = None, opt_stderr = None, opt_timeout = None, timeout_set = False\<rparr>"

definition with_env :: "'k connect_options \<Rightarrow> (bytes \<times> bytes) list \<Rightarrow> 'k connect_options" where
  "with_env opts vars = opts\<lparr>opt_env := Some vars\<rparr>"

definition with_cwd :: "'k connect_options \<Rightarrow> bytes \<Rightarrow> 'k connect_options" where
  "with_cwd opts dir = opts\<lparr>opt_cwd := Some dir\<rparr>"

definition with_stderr :: "'k connect_options \<Rightarrow> 'k stderr_sink \<Rightarrow> 'k connect_options" where
  "with_stderr opts sink = opts\<lparr>opt_stderr := Some sink\<rparr>"

definition with_timeout :: "'k connect_options \<Rightarrow> duration option \<Rightarrow> 'k connect_options" where
  "with_timeout opts t = opts\<lparr>opt_timeout := t, timeout_set := True\<rparr>"

definition connect_timeout :: "'k connect_options \<Rightarrow> duration option" where
  "connect_timeout opts = (if timeout_set opts then opt_timeout opts else Some DEFAULT_TIMEOUT)"

definition connect_with ::
  "('w, 'k) process_ops \<Rightarrow> bytes \<Rightarrow> bytes list \<Rightarrow> 'k connect_options \<Rightarrow> 'w
     \<Rightarrow> (('w client, error) result \<times> 'w) option" where
  "connect_with E cmd args opts w =
     (case start E cmd args (opt_env opts) (opt_cwd opts)
            (case opt_stderr opts of Some k \<Rightarrow> k | None \<Rightarrow> StderrNull) w of
        (Ok t, w1) \<Rightarrow>
          map_option (\<lambda>(r, t'). (r, world t')) (session_new (direct_transport E) t (connect_timeout opts))
      | (Err e, w1) \<Rightarrow> Some (Err e, w1)
      | (Panic, w1) \<Rightarrow> Some (Panic, w1))"

definition connect ::
  "('w, 'k) process_ops \<Rightarrow> bytes \<Rightarrow> bytes list \<Rightarrow> 'w \<Rightarrow> (('w client, error) result \<times> 'w) option" where
  "connect E cmd args = connect_with E cmd args connect_options_new"

section \<open>A socket\<close>

record socket_options =
  sock_timeout :: "duration option"
  sock_timeout_set :: bool

definition socket_options_new :: socket_options where
  "socket_options_new = \<lparr>sock_timeout = None, sock_timeout_set = False\<rparr>"

definition with_sock_timeout :: "socket_options \<Rightarrow> duration option \<Rightarrow> socket_options" where
  "with_sock_timeout opts t = opts\<lparr>sock_timeout := t, sock_timeout_set := True\<rparr>"

definition resolve :: "socket_options \<Rightarrow> duration option" where
  "resolve opts = (if sock_timeout_set opts then sock_timeout opts else Some DEFAULT_TIMEOUT)"

text \<open>\<open>Ok(SocketClient { session: Session::new(transport, timeout)? })\<close>\<close>

definition greet ::
  "'w stream_ops \<Rightarrow> duration option \<Rightarrow> ('w socket, error) result \<times> 'w \<Rightarrow> (('w socket_client, error) result \<times> 'w) option" where
  "greet E tmo dialled =
     (case dialled of
        (Ok t, w1) \<Rightarrow> map_option (\<lambda>(r, t'). (r, stream t')) (session_new (socket_transport E) t tmo)
      | (Err e, w1) \<Rightarrow> Some (Err e, w1)
      | (Panic, w1) \<Rightarrow> Some (Panic, w1))"

definition connect_tcp_with ::
  "('w, 'a) net_ops \<Rightarrow> 'w stream_ops \<Rightarrow> socket_options \<Rightarrow> 'w \<Rightarrow> (('w socket_client, error) result \<times> 'w) option" where
  "connect_tcp_with N E opts w =
     do { x \<leftarrow> socket_connect_tcp N (resolve opts) w; greet E (resolve opts) x }"

definition connect_tcp ::
  "('w, 'a) net_ops \<Rightarrow> 'w stream_ops \<Rightarrow> 'w \<Rightarrow> (('w socket_client, error) result \<times> 'w) option" where
  "connect_tcp N E = connect_tcp_with N E socket_options_new"

definition connect_unix_with ::
  "('w, 'a) net_ops \<Rightarrow> 'w stream_ops \<Rightarrow> bytes \<Rightarrow> socket_options \<Rightarrow> 'w
     \<Rightarrow> (('w socket_client, error) result \<times> 'w) option" where
  "connect_unix_with N E p opts w =
     do { x \<leftarrow> socket_connect_unix N p w; greet E (resolve opts) x }"

definition connect_unix ::
  "('w, 'a) net_ops \<Rightarrow> 'w stream_ops \<Rightarrow> bytes \<Rightarrow> 'w \<Rightarrow> (('w socket_client, error) result \<times> 'w) option" where
  "connect_unix N E p = connect_unix_with N E p socket_options_new"

definition connect_socket ::
  "'w stream_ops \<Rightarrow> socket_options \<Rightarrow> 'w \<Rightarrow> (('w socket_client, error) result \<times> 'w) option" where
  "connect_socket E opts w = greet E (resolve opts) (Ok (from_stream w), w)"

section \<open>Timeouts\<close>

lemma session_new_Ok:
  assumes "session_new T t tmo = Some (Ok s, c)"
  shows "default_timeout s = tmo \<and> \<not> is_closed s \<and> protocol (session_hello s) = PROTOCOL \<and> conn s = c"
proof -
  from assms obtain r t1 where rd: "read_line T t tmo = Some (r, t1)"
    by (auto simp: session_new_def split: bind_splits)
  have "x \<noteq> Ok y" if "after_close c (Err e) = x" for c and e :: error and x y
    using that by (cases c) auto
  with assms show ?thesis
    unfolding session_new_def rd
    by (cases "and_then r decode_hello") (fastforce split: if_splits bind_splits)+
qed

text \<open>
  A connection that is established speaks the protocol of this driver, is open, and its
  calls use the timeout of the options, or the default where none was set, for either kind of
  connection.
\<close>
lemma connected_with_timeout:
  assumes "connect_with E cmd args opts w = Some (Ok s, w')"
  shows "c_timeout (client_connection E) s = (if timeout_set opts then opt_timeout opts else Some DEFAULT_TIMEOUT)
    \<and> protocol (c_hello (client_connection E) s) = PROTOCOL \<and> \<not> is_closed s"
proof -
  from assms obtain t t' where "session_new (direct_transport E) t (connect_timeout opts) = Some (Ok s, t')"
    by (auto simp: connect_with_def split: prod.splits result.splits)
  from session_new_Ok [OF this] show ?thesis
    by (simp add: client_connection_def connection_of_def timeout_def connect_timeout_def)
qed

text \<open>
  The same for a socket dialled over TCP.
\<close>
lemma tcp_connected_with_timeout:
  assumes "connect_tcp_with N E opts w = Some (Ok s, w')"
  shows "c_timeout (socket_client_connection E) s = (if sock_timeout_set opts then sock_timeout opts else Some DEFAULT_TIMEOUT)
    \<and> protocol (c_hello (socket_client_connection E) s) = PROTOCOL \<and> \<not> is_closed s"
proof -
  from assms obtain t t' where "session_new (socket_transport E) t (resolve opts) = Some (Ok s, t')"
    by (auto simp: connect_tcp_with_def greet_def split: prod.splits result.splits bind_splits)
  from session_new_Ok [OF this] show ?thesis
    by (simp add: socket_client_connection_def connection_of_def timeout_def resolve_def)
qed

section \<open>Examples\<close>

definition greeter :: "(nat \<times> signal_event list, unit) process_ops" where
  "greeter = stubborn\<lparr>channel := quiet_channel\<lparr>recv_timeout := (\<lambda>w t. (Ok (Line greeting), w))\<rparr>\<rparr>"

lemma greeter_connects:
  "\<exists>s w. connect_with greeter [] [] (with_timeout connect_options_new (Some 5)) (0, []) = Some (Ok s, w)"
  by (simp add: connect_with_def start_def connect_timeout_def with_timeout_def connect_options_new_def greeter_def
      stubborn_def quiet_channel_def session_new_def direct_read_line_def reader_read_line_def spawned_def
      add_instant_def INSTANT_END_def Loops.repeat.simps recv_step_def receive_def decode_greeting)
     (simp add: greeted_def PROTOCOL_def)

lemma connected_with_timeout_witness:
  "\<exists>s w. connect_with greeter [] [] (with_timeout connect_options_new (Some 5)) (0, []) = Some (Ok s, w)
     \<and> c_timeout (client_connection greeter) s = Some 5"
proof -
  obtain s w where c: "connect_with greeter [] [] (with_timeout connect_options_new (Some 5)) (0, []) = Some (Ok s, w)"
    using greeter_connects by blast
  with connected_with_timeout [OF c] show ?thesis
    by (auto simp: with_timeout_def)
qed

definition piece_net :: "(bytes list \<times> bytes \<times> nat, unit) net_ops" where
  "piece_net =
     \<lparr>resolve_addrs = (\<lambda>w. Some (Ok [()], w)), connect_any = (\<lambda>w as. Some (Ok (), w)),
      connect_one = (\<lambda>w a t. Some (Ok (), w)), connect_path = (\<lambda>w p. Some (Ok (), w)),
      set_read_timeout = (\<lambda>w d. (Ok (), w)), net_now = (\<lambda>(ps, g, t). (t, (ps, g, t)))\<rparr>"

lemma take_greeting: "take_line \<lparr>buf = greeting @ [10], scanned = 0\<rparr> = (Ok (Some greeting), \<lparr>buf = [], scanned = 0\<rparr>)"
  by code_simp

lemma greeting_length: "greeting \<noteq> [] \<and> Suc (length greeting) \<le> BUF_SIZE"
  using greeting_short by (simp add: BUF_SIZE_def)

lemma piece_net_connects:
  "\<exists>s w. connect_tcp_with piece_net pieces socket_options_new ([greeting @ [10]], [], 0) = Some (Ok s, w)"
  using greeting_length
  by (simp add: connect_tcp_with_def socket_connect_tcp_def dial_tcp_def dial_addrs_def piece_net_def resolve_def
      socket_options_new_def DEFAULT_TIMEOUT_def add_instant_def INSTANT_END_def poll_and_wrap_def greet_def
      session_new_def socket_read_line_def from_stream_def take_or_terminal_def new_framer_def
      Loops.repeat.simps read_step_def pieces_def push_def Let_def decode_greeting not_less take_greeting
      take_line_eq [of "\<lparr>buf = [], scanned = 0\<rparr>"] MAX_LINE_BYTES_def)
     (simp add: greeted_def PROTOCOL_def)

lemma tcp_connected_with_timeout_witness:
  "\<exists>s w. connect_tcp_with piece_net pieces socket_options_new ([greeting @ [10]], [], 0) = Some (Ok s, w)
     \<and> c_timeout (socket_client_connection pieces) s = Some DEFAULT_TIMEOUT"
proof -
  obtain s w where c: "connect_tcp_with piece_net pieces socket_options_new ([greeting @ [10]], [], 0) = Some (Ok s, w)"
    using piece_net_connects by blast
  have "c_timeout (socket_client_connection pieces) s = Some DEFAULT_TIMEOUT"
    using tcp_connected_with_timeout [OF c] by (simp add: socket_options_new_def)
  with c show ?thesis by blast
qed

end
