(* ===== verification/Rpc.thy ===== *)
theory Rpc
  imports SessionProps Framer
begin

text \<open>
  What a session is for: calling a server. The specification applies the server's function directly,
  without codec, lines or transport; the locale \<open>answering\<close> says when a transport has such a server
  at its other end, and a session over it then gives the results of the specification.
\<close>

section \<open>Requests and their results\<close>

datatype reply =
    QueryReply query_result
  | ExecReply exec_result
  | SnapshotReply snapshot_result
  | InspectReply inspect_result
  | TablesReply tables_result
  | SchemaReply schema_result
  | DumpReply dump_result
  | Done

abbreviation replied ::
  "('a \<Rightarrow> reply) \<Rightarrow> (('a, error) result \<times> 's) option \<Rightarrow> ((reply, error) result \<times> 's) option" where
  "replied f \<equiv> map_option (\<lambda>(r, s). (and_then r (\<lambda>x. Ok (f x)), s))"

text \<open>The operations of a session, by request.\<close>

fun perform :: "'t transport_ops \<Rightarrow> request \<Rightarrow> 't session \<Rightarrow> ((reply, error) result \<times> 't session) option" where
  "perform T (Query q ps) s = replied QueryReply (query T s q ps)"
| "perform T (Exec q ps) s = replied ExecReply (exec T s q ps)"
| "perform T (Snapshot opts) s = replied SnapshotReply (snapshot T s opts)"
| "perform T (Load p) s = replied (\<lambda>_. Done) (load T s p)"
| "perform T Inspect s = replied InspectReply (inspect T s)"
| "perform T Tables s = replied TablesReply (tables T s)"
| "perform T (Schema t) s = replied SchemaReply (schema T s t)"
| "perform T (Dump p) s = replied DumpReply (dump T s p)"
| "perform T Overwrite s = replied (\<lambda>_. Done) (overwrite T s)"
| "perform T (SetTimeout t) s = Some (Ok Done, set_timeout s t)"
| "perform T CloseIt s = replied (\<lambda>_. Done) (close_session T s)"

text \<open>A program of requests; a panic ends it.\<close>

fun perform_all ::
  "'t transport_ops \<Rightarrow> request list \<Rightarrow> 't session \<Rightarrow> ((reply, error) result list \<times> 't session) option" where
  "perform_all T [] s = Some ([], s)"
| "perform_all T (q # qs) s =
     do {
       (r, s1) \<leftarrow> perform T q s;
       if r = Panic then Some ([Panic], s1)
       else do { (rs, s2) \<leftarrow> perform_all T qs s1; Some (r # rs, s2) }
     }"

text \<open>What calls, closing and setting the timeout preserve, any program does that does not panic.\<close>

lemma replied_Some:
  assumes "replied f m = Some (r, s')" "r \<noteq> Panic"
  obtains x where "m = Some (x, s')" "x \<noteq> Panic"
proof -
  from assms(1) obtain x where x: "m = Some (x, s')" "r = and_then x (\<lambda>x. Ok (f x))" by auto
  with assms(2) have "x \<noteq> Panic" by auto
  with x(1) that show thesis by blast
qed

definition call_keeps :: "'t transport_ops \<Rightarrow> ('t session \<Rightarrow> bool) \<Rightarrow> bool" where
  "call_keeps T P \<longleftrightarrow> (\<forall>s kvs r s'. P s \<longrightarrow> call T s kvs = Some (r, s') \<longrightarrow> r \<noteq> Panic \<longrightarrow> P s')"

lemma replied_call:
  assumes "replied f (call_and T s g kvs) = Some (r, s')" "r \<noteq> Panic" "P s" "call_keeps T P"
  shows "P s'"
proof -
  from assms(1,2) obtain x where x: "call_and T s g kvs = Some (x, s')" "x \<noteq> Panic" by (rule replied_Some)
  then obtain y where "call T s kvs = Some (y, s')" "x = and_then y g" by (auto simp: call_and_def)
  moreover with x(2) have "y \<noteq> Panic" by auto
  ultimately show ?thesis using assms(3,4) unfolding call_keeps_def by blast
qed

lemma replied_statement:
  assumes "replied f (case encode_params ps of Ok p \<Rightarrow> call_and T s g (k p) | Err e \<Rightarrow> Some (Err e, s) | Panic \<Rightarrow> Some (Panic, s))
      = Some (r, s')" "r \<noteq> Panic" "P s" "call_keeps T P"
  shows "P s'"
proof (cases "encode_params ps")
  case (Ok p)
  with assms(1) have "replied f (call_and T s g (k p)) = Some (r, s')" by simp
  then show ?thesis by (rule replied_call) (rule assms(2-4))+
qed (use assms in auto)

lemma perform_invariant:
  assumes "P s" "perform T q s = Some (r, s')" "r \<noteq> Panic" and call: "call_keeps T P"
    and close: "\<And>s r s'. P s \<Longrightarrow> close_session T s = Some (r, s') \<Longrightarrow> r \<noteq> Panic \<Longrightarrow> P s'"
    and set: "\<And>s t. P s \<Longrightarrow> P (set_timeout s t)"
  shows "P s'"
proof (cases q)
  case Overwrite
  with assms(2) have "replied (\<lambda>_. Done) (overwrite T s) = Some (r, s')" by simp
  then obtain x where x: "overwrite T s = Some (x, s')" "x \<noteq> Panic" using assms(3) by (rule replied_Some)
  then obtain y s1 where y: "call T s [op_field ''overwrite''] = Some (y, s1)"
    by (auto simp: overwrite_def split: bind_splits)
  with x have "y \<noteq> Panic" by (auto simp: overwrite_def)
  with call assms(1) y have "P s1" unfolding call_keeps_def by blast
  with x y close show ?thesis by (cases y) (auto simp: overwrite_def)
next
  case (SetTimeout t)
  with assms(1,2) set show ?thesis by auto
next
  case CloseIt
  with assms(2) have "replied (\<lambda>_. Done) (close_session T s) = Some (r, s')" by simp
  then show ?thesis using close [OF assms(1)] assms(3) by (elim replied_Some) auto
qed (insert assms(2), simp_all only: perform.simps query_def exec_def snapshot_def load_def inspect_def
    tables_def schema_def dump_def, (drule replied_statement replied_call, rule assms(3), rule assms(1), rule call, assumption)+)

lemma perform_all_invariant:
  assumes "P s" "perform_all T qs s = Some (rs, s')" "Panic \<notin> set rs"
    and "\<And>s q r s'. P s \<Longrightarrow> perform T q s = Some (r, s') \<Longrightarrow> r \<noteq> Panic \<Longrightarrow> P s'"
  shows "P s'"
  using assms(1-3)
proof (induction qs arbitrary: s rs)
  case (Cons q qs)
  from Cons.prems(2) obtain r s1 where p: "perform T q s = Some (r, s1)" by (auto split: bind_splits)
  with Cons.prems(2,3) have r: "r \<noteq> Panic" by auto
  with Cons.prems(2) p obtain rs' where "perform_all T qs s1 = Some (rs', s')" "rs = r # rs'"
    by (auto split: bind_splits)
  with Cons.IH [OF assms(4) [OF Cons.prems(1) p r]] Cons.prems(3) show ?case by simp
qed simp

section \<open>The specification\<close>

text \<open>What goes into a request, and how its answer is read.\<close>

fun fields_of :: "request \<Rightarrow> ((string \<times> json) list, error) result" where
  "fields_of (Query q ps) = and_then (encode_params ps) (\<lambda>p. Ok (statement_fields ''query'' q p))"
| "fields_of (Exec q ps) = and_then (encode_params ps) (\<lambda>p. Ok (statement_fields ''exec'' q p))"
| "fields_of (Snapshot opts) = Ok (snapshot_fields opts)"
| "fields_of (Load p) = Ok [op_field ''load'', (''path'', json_str p)]"
| "fields_of Inspect = Ok [op_field ''inspect'']"
| "fields_of Tables = Ok [op_field ''tables'']"
| "fields_of (Schema t) =
     Ok ([op_field ''schema''] @ (case t of Some t \<Rightarrow> [(''table'', json_str t)] | None \<Rightarrow> []))"
| "fields_of (Dump p) =
     Ok ([op_field ''dump''] @ (case p of Some p \<Rightarrow> [(''pattern'', json_str p)] | None \<Rightarrow> []))"
| "fields_of _ = Ok []"

fun reply_of :: "request \<Rightarrow> json \<Rightarrow> (reply, error) result" where
  "reply_of (Query q ps) j = and_then (decode_query_response j) (\<lambda>x. Ok (QueryReply x))"
| "reply_of (Exec q ps) j = and_then (decode_exec_response j) (\<lambda>x. Ok (ExecReply x))"
| "reply_of (Snapshot opts) j = and_then (decode_snapshot_response j) (\<lambda>x. Ok (SnapshotReply x))"
| "reply_of Inspect j = and_then (decode_inspect_response j) (\<lambda>x. Ok (InspectReply x))"
| "reply_of Tables j = and_then (decode_tables_response j) (\<lambda>x. Ok (TablesReply x))"
| "reply_of (Schema t) j = and_then (decode_schema_response j) (\<lambda>x. Ok (SchemaReply x))"
| "reply_of (Dump p) j = and_then (decode_dump_response j) (\<lambda>x. Ok (DumpReply x))"
| "reply_of _ j = Ok Done"

text \<open>The requests that are one call each, with strings that are strings.\<close>

fun remote :: "request \<Rightarrow> bool" where
  "remote (Query q ps) \<longleftrightarrow> valid_string q \<and> (\<forall>v\<in>set ps. wf_val v)"
| "remote (Exec q ps) \<longleftrightarrow> valid_string q \<and> (\<forall>v\<in>set ps. wf_val v)"
| "remote (Snapshot opts) \<longleftrightarrow> pred_option valid_string (filename opts)"
| "remote (Load p) \<longleftrightarrow> valid_string p"
| "remote (Schema t) \<longleftrightarrow> pred_option valid_string t"
| "remote (Dump p) \<longleftrightarrow> pred_option valid_string p"
| "remote Inspect \<longleftrightarrow> True"
| "remote Tables \<longleftrightarrow> True"
| "remote _ \<longleftrightarrow> False"

text \<open>
  A server is a function from its state and the text of a request to the text of its answer. \<open>rpc\<close>
  is the result of a request on it, \<open>rpc_all\<close> that of a program.
\<close>

type_synonym 'v server = "'v \<Rightarrow> bytes \<Rightarrow> bytes \<times> 'v"

definition rpc :: "'v server \<Rightarrow> request \<Rightarrow> 'v \<Rightarrow> (reply, error) result \<times> 'v" where
  "rpc srv q v =
     (case fields_of q of
        Ok kvs \<Rightarrow>
          (case srv v (butlast (encode_request_line kvs)) of
             (a, v') \<Rightarrow> (and_then (response_of a) (reply_of q), v'))
      | Err e \<Rightarrow> (Err e, v)
      | Panic \<Rightarrow> (Panic, v))"

fun rpc_all :: "'v server \<Rightarrow> request list \<Rightarrow> 'v \<Rightarrow> (reply, error) result list" where
  "rpc_all srv [] v = []"
| "rpc_all srv (q # qs) v = fst (rpc srv q v) # rpc_all srv qs (snd (rpc srv q v))"

text \<open>
  What may come of a program against a server: \<open>served srv v qs rs\<close> says that the results \<open>rs\<close> are those
  of the specification, in order; that one timeout may cut them off, after which every request is
  refused; and that a panic may end them.
\<close>

definition refusal :: "request \<Rightarrow> (reply, error) result" where
  "refusal q = (case fields_of q of Err e \<Rightarrow> Err e | _ \<Rightarrow> Err Closed)"

inductive served :: "'v server \<Rightarrow> 'v \<Rightarrow> request list \<Rightarrow> (reply, error) result list \<Rightarrow> bool" for srv where
  served_end: "served srv v [] []"
| served_reply: "rpc srv q v = (r, v') \<Longrightarrow> served srv v' qs rs \<Longrightarrow> served srv v (q # qs) (r # rs)"
| served_timeout: "served srv v (q # qs) (Err (Timeout m) # map refusal qs)"
| served_panic: "served srv v (q # qs) [Panic]"

inductive_cases served_cases: "served srv v (q # qs) rs"

section \<open>Every operation is one call\<close>

lemma reply_of_ext:
  "reply_of (Query q ps) = (\<lambda>j. and_then (decode_query_response j) (\<lambda>x. Ok (QueryReply x)))"
  "reply_of (Exec q ps) = (\<lambda>j. and_then (decode_exec_response j) (\<lambda>x. Ok (ExecReply x)))"
  "reply_of (Snapshot opts) = (\<lambda>j. and_then (decode_snapshot_response j) (\<lambda>x. Ok (SnapshotReply x)))"
  "reply_of (Load p) = (\<lambda>j. Ok Done)"
  "reply_of Inspect = (\<lambda>j. and_then (decode_inspect_response j) (\<lambda>x. Ok (InspectReply x)))"
  "reply_of Tables = (\<lambda>j. and_then (decode_tables_response j) (\<lambda>x. Ok (TablesReply x)))"
  "reply_of (Schema tbl) = (\<lambda>j. and_then (decode_schema_response j) (\<lambda>x. Ok (SchemaReply x)))"
  "reply_of (Dump p') = (\<lambda>j. and_then (decode_dump_response j) (\<lambda>x. Ok (DumpReply x)))"
  by (rule ext; simp)+

lemma perform_spec:
  assumes "remote q"
  shows "perform T q s =
    (case fields_of q of
       Ok kvs \<Rightarrow> map_option (\<lambda>(r, s'). (and_then r (reply_of q), s')) (call T s kvs)
     | Err e \<Rightarrow> Some (Err e, s)
     | Panic \<Rightarrow> Some (Panic, s))"
proof -
  have assoc: "and_then (and_then r f) g = and_then r (\<lambda>x. and_then (f x) g)"
    for r :: "(json, error) result" and f :: "json \<Rightarrow> ('b, error) result" and g :: "'b \<Rightarrow> (reply, error) result"
    by (cases r) auto
  from assms show ?thesis
    by (cases q)
       (auto simp: query_def exec_def snapshot_def load_def inspect_def tables_def schema_def dump_def
         call_and_def option.map_comp o_def case_prod_unfold assoc reply_of_ext split: result.splits)
qed

lemma statement_fields_wf:
  assumes "encode_params ps = Ok p" "valid_string q" "\<forall>v\<in>set ps. wf_val v" "(k, v) \<in> set (statement_fields nm q p)"
    "list_all (\<lambda>c. of_char c < (128 :: nat)) nm"
  shows "wf_json v \<and> list_all (\<lambda>c. of_char c < (128 :: nat)) k"
proof -
  have "case p of Some j \<Rightarrow> wf_json j | None \<Rightarrow> True"
  proof (cases "list_all encodable ps")
    case True
    then have "p = (if ps = [] then None else Some (JArray (map json_of ps)))"
      using encode_items_spec [of ps 0 "[]"] assms(1) by (auto simp: encode_params_def split: if_splits)
    with True assms(3) wf_json_of show ?thesis by (auto simp: list_all_iff)
  next
    case False
    then have "ps \<noteq> []" by auto
    with False show ?thesis
      using encode_items_spec [of ps 0 "[]"] assms(1) by (auto simp: encode_params_def)
  qed
  moreover have "valid_string (str nm)"
    using assms(5) by (auto simp: str_def list_all_iff intro!: valid_string_ascii)
  ultimately show ?thesis
    using assms(2,4) by (auto simp: statement_fields_def op_field_def json_str_def split: option.splits)
qed

lemma fields_of_wf:
  assumes "remote q" "fields_of q = Ok kvs" "(k, v) \<in> set kvs"
  shows "wf_json v \<and> list_all (\<lambda>c. of_char c < (128 :: nat)) k"
proof (cases q)
  case (Query x ps)
  with assms statement_fields_wf [of ps _ x k v "''query''"] show ?thesis by auto
next
  case (Exec x ps)
  with assms statement_fields_wf [of ps _ x k v "''exec''"] show ?thesis by auto
qed (use assms in \<open>auto simp: snapshot_fields_def op_field_def json_str_def is_scalar_def split: option.splits if_splits\<close>)

lemma request_text:
  assumes "remote q" "fields_of q = Ok kvs"
  shows "encode_request_line kvs = butlast (encode_request_line kvs) @ [10] \<and> 10 \<notin> set (butlast (encode_request_line kvs))"
proof -
  from encode_request_line_spec [of kvs] fields_of_wf [OF assms] obtain body where
    "encode_request_line kvs = body @ [10]" "10 \<notin> set body" by blast
  then show ?thesis by simp
qed

lemma fields_of_total: "fields_of q \<noteq> Panic"
proof -
  have "encode_params ps \<noteq> Panic" for ps
    using encode_items_spec [of ps 0 "[]"] by (auto simp: encode_params_def split: if_splits)
  then have "and_then (encode_params ps) (\<lambda>p. Ok (f p)) \<noteq> Panic" for ps and f :: "json option \<Rightarrow> (string \<times> json) list"
    by (cases "encode_params ps") auto
  then show ?thesis by (cases q) auto
qed

lemma response_of_not_Panic: "response_of line \<noteq> Panic"
  using codec_lines(2) [of line] by (auto simp: response_of_def codec_result_def and_then_eq_Panic split: option.splits if_splits)

lemma codec_not_Panic: "codec_result r \<Longrightarrow> and_then r (\<lambda>x. Ok (f x)) \<noteq> Panic"
  by (cases r) (simp_all add: codec_result_def)

lemma reply_of_not_Panic: "reply_of q j \<noteq> Panic"
  by (cases q) (simp_all add: reply_of_ext codec_responses codec_not_Panic)

lemma rpc_not_Panic: "fst (rpc srv q v) \<noteq> Panic"
proof (cases "fields_of q")
  case (Ok kvs)
  then show ?thesis
    using response_of_not_Panic reply_of_not_Panic by (simp add: rpc_def case_prod_unfold and_then_eq_Panic)
qed (use fields_of_total [of q] in \<open>simp_all add: rpc_def\<close>)

text \<open>A closed session refuses every call, after looking at its parameters.\<close>

lemma perform_closed:
  assumes "is_closed s" "remote q"
  shows "perform T q s = Some (refusal q, s)"
  using assms fields_of_total [of q] by (cases "fields_of q") (auto simp: perform_spec refusal_def)

lemma perform_all_closed:
  "is_closed s \<Longrightarrow> \<forall>q\<in>set qs. remote q \<Longrightarrow> perform_all T qs s = Some (map refusal qs, s)"
proof (induction qs)
  case (Cons q qs)
  have "refusal q \<noteq> Panic" by (simp add: refusal_def split: result.splits)
  with Cons show ?case by (simp add: perform_closed)
qed simp

section \<open>Servers of JSON\<close>

text \<open>
  A server that reads its requests as JSON and answers by fields, and what it is to call one: the
  codec is gone from the result.
\<close>

definition answer_with :: "bool \<Rightarrow> (string \<times> json) list \<Rightarrow> bytes" where
  "answer_with good kvs = butlast (encode_request_line ((''ok'', JBool good) # kvs))"

definition json_server :: "('v \<Rightarrow> json \<Rightarrow> (string \<times> json) list \<times> 'v) \<Rightarrow> 'v server" where
  "json_server h v req =
     (case parse req of
        Ok j \<Rightarrow> (case h v j of (kvs, v') \<Rightarrow> (answer_with True kvs, v'))
      | _ \<Rightarrow> (answer_with False [], v))"

abbreviation wf_fields :: "(string \<times> json) list \<Rightarrow> bool" where
  "wf_fields kvs \<equiv> \<forall>(k, v)\<in>set kvs. wf_json v \<and> list_all (\<lambda>c. of_char c < (128 :: nat)) k"

abbreviation object_of :: "(string \<times> json) list \<Rightarrow> json" where
  "object_of kvs \<equiv> JObject (map (\<lambda>(k, v). (str k, v)) kvs)"

lemma answer_with_spec:
  assumes "wf_fields kvs"
  shows "10 \<notin> set (answer_with good kvs) \<and> parse (answer_with good kvs) = Ok (object_of ((''ok'', JBool good) # kvs))"
proof -
  have "\<exists>body. encode_request_line ((''ok'', JBool good) # kvs) = body @ [10] \<and> 10 \<notin> set body
      \<and> parse body = Ok (object_of ((''ok'', JBool good) # kvs))"
    by (rule encode_request_line_spec) (use assms in auto)
  then show ?thesis by (auto simp: answer_with_def)
qed

lemma response_of_answer_with:
  "wf_fields kvs \<Longrightarrow> response_of (answer_with True kvs) = Ok (object_of ((''ok'', JBool True) # kvs))"
  using answer_with_spec [of kvs True]
  by (simp add: response_of_def decode_response_line_def Let_def)

lemma rpc_json_server:
  assumes "remote q" "fields_of q = Ok kvs" "h v (object_of kvs) = (outs, v')" "wf_fields outs"
  shows "rpc (json_server h) q v = (reply_of q (object_of ((''ok'', JBool True) # outs)), v')"
proof -
  from encode_request_line_spec [of kvs] fields_of_wf [OF assms(1,2)] obtain body where
    "encode_request_line kvs = body @ [10]" "parse body = Ok (object_of kvs)" by blast
  then show ?thesis
    by (simp add: rpc_def assms(2,3) json_server_def response_of_answer_with [OF assms(4)])
qed

text \<open>An answer that a framer takes.\<close>

definition fit_line :: "bytes \<Rightarrow> bool" where
  "fit_line a \<longleftrightarrow> 10 \<notin> set a \<and> length a \<le> MAX_LINE_BYTES"

lemma few_bytes: "length a < 100 \<Longrightarrow> length a \<le> MAX_LINE_BYTES"
  by (simp add: MAX_LINE_BYTES_def)

section \<open>A transport with a server at its end\<close>

text \<open>
  \<open>rel t v outs\<close>: behind the transport \<open>t\<close> is a server in state \<open>v\<close>, and the answers \<open>outs\<close> have not been
  read yet. A line written is one request to it; a read gives the oldest answer, or times out.
\<close>

locale answering =
  fixes T :: "'t transport_ops" and srv :: "'v server" and rel :: "'t \<Rightarrow> 'v \<Rightarrow> bytes list \<Rightarrow> bool"
  assumes ans_write: "rel t v outs \<Longrightarrow> 10 \<notin> set text \<Longrightarrow> write_line T t (text @ [10]) = Some (w, t') \<Longrightarrow>
      w = Ok () \<and> rel t' (snd (srv v text)) (outs @ [fst (srv v text)])"
    and ans_read: "rel t v (a # outs) \<Longrightarrow> read_line T t tmo = Some (r, t') \<Longrightarrow>
      r = Ok a \<and> rel t' v outs \<or> (\<exists>m. r = Err (Timeout m)) \<or> r = Panic"
begin

definition in_step :: "'t session \<Rightarrow> 'v \<Rightarrow> bool" where
  "in_step s v \<longleftrightarrow> \<not> is_closed s \<and> rel (conn s) v []"

lemma in_step_set_timeout: "in_step (set_timeout s t) v = in_step s v"
  by (simp add: in_step_def)

text \<open>A session opened on a connection where only the greeting is waiting.\<close>

lemma new_in_step:
  assumes "rel t v [hello]" "session_new T t tmo = Some (Ok s, t')"
  shows "in_step s v"
proof -
  from assms(2) obtain r t1 where rd: "read_line T t tmo = Some (r, t1)"
    by (auto simp: session_new_def split: bind_splits)
  have no: "after_close c (Err e) \<noteq> Ok s" for c :: "(unit, error) result" and e
    by (cases c) auto
  note eq = assms(2) [unfolded session_new_def rd bind.bind_lunit prod.case]
  from ans_read [OF assms(1) rd] eq no show ?thesis
    by (auto simp: in_step_def split: result.splits if_splits bind_splits)
qed

lemma call_answered:
  assumes "in_step s v" "encode_request_line kvs = text @ [10]" "10 \<notin> set text" "call T s kvs = Some (r, s')"
  shows "r = response_of (fst (srv v text)) \<and> in_step s' (snd (srv v text))
    \<or> (\<exists>m. r = Err (Timeout m)) \<and> is_closed s' \<or> r = Panic"
proof -
  have open_s: "\<not> is_closed s" "rel (conn s) v []" using assms(1) by (auto simp: in_step_def)
  from assms(4) open_s obtain w t1 where w: "write_line T (conn s) (text @ [10]) = Some (w, t1)"
    by (auto simp: call_def assms(2) split: bind_splits)
  with ans_write [OF open_s(2) assms(3)] have w': "w = Ok ()" "rel t1 (snd (srv v text)) [fst (srv v text)]" by auto
  note eq = assms(4) [unfolded call_def assms(2) w bind.bind_lunit prod.case if_not_P [OF open_s(1)] w'(1) result.case]
  then obtain rr t2 where rd: "read_line T t1 (default_timeout s) = Some (rr, t2)" by (auto split: bind_splits)
  from ans_read [OF w'(2) rd] show ?thesis
  proof (elim disjE)
    assume "rr = Ok (fst (srv v text)) \<and> rel t2 (snd (srv v text)) []"
    with eq rd open_s(1) show ?thesis by (auto simp: in_step_def)
  next
    assume "\<exists>m. rr = Err (Timeout m)"
    then obtain m where "rr = Err (Timeout m)" ..
    with eq rd obtain c t3 where "r = after_close c (Err (Timeout m))" "s' = s\<lparr>conn := t3, is_closed := True\<rparr>"
      by (auto split: bind_splits)
    then show ?thesis by (cases c) auto
  next
    assume "rr = Panic"
    with eq rd show ?thesis by auto
  qed
qed

lemma perform_answered:
  assumes "in_step s v" "remote q" "perform T q s = Some (r, s')"
  shows "r = fst (rpc srv q v) \<and> in_step s' (snd (rpc srv q v))
    \<or> (\<exists>m. r = Err (Timeout m)) \<and> is_closed s' \<or> r = Panic"
proof (cases "fields_of q")
  case (Ok kvs)
  note p = assms(3) [unfolded perform_spec [OF assms(2)] Ok result.case]
  then obtain r0 where c: "call T s kvs = Some (r0, s')" "r = and_then r0 (reply_of q)" by auto
  let ?text = "butlast (encode_request_line kvs)"
  have "rpc srv q v = (and_then (response_of (fst (srv v ?text))) (reply_of q), snd (srv v ?text))"
    by (simp add: rpc_def Ok case_prod_unfold)
  with call_answered [OF assms(1) _ _ c(1), of ?text] request_text [OF assms(2) Ok] c(2) show ?thesis
    by auto
next
  case (Err e)
  with assms perform_spec [OF assms(2), of T s] show ?thesis by (simp add: rpc_def)
next
  case Panic
  with assms perform_spec [OF assms(2), of T s] show ?thesis by simp
qed

lemma perform_all_served:
  assumes "in_step s v" "\<forall>q\<in>set qs. remote q" "perform_all T qs s = Some (rs, s')"
  shows "served srv v qs rs"
  using assms
proof (induction qs arbitrary: s v rs)
  case Nil
  then show ?case by (auto intro: served_end)
next
  case (Cons q qs)
  from Cons.prems(2) have q: "remote q" "\<forall>q\<in>set qs. remote q" by auto
  from Cons.prems(3) obtain r s1 where p: "perform T q s = Some (r, s1)" by (auto split: bind_splits)
  show ?case
  proof (cases "r = Panic")
    case True
    with Cons.prems(3) p show ?thesis by (auto intro: served_panic)
  next
    case False
    with Cons.prems(3) p obtain rs' where rs: "perform_all T qs s1 = Some (rs', s')" "rs = r # rs'"
      by (auto split: bind_splits)
    from perform_answered [OF Cons.prems(1) q(1) p] False consider
        (reply) "r = fst (rpc srv q v)" "in_step s1 (snd (rpc srv q v))"
      | (timeout) m where "r = Err (Timeout m)" "is_closed s1"
      by blast
    then show ?thesis
    proof cases
      case reply
      from Cons.IH [OF reply(2) q(2) rs(1)] reply(1) rs(2) show ?thesis
        by (simp add: served_reply [where v' = "snd (rpc srv q v)"] prod_eq_iff)
    next
      case timeout
      from perform_all_closed [OF timeout(2) q(2)] rs timeout(1) show ?thesis
        by (auto intro: served_timeout)
    qed
  qed
qed

end

text \<open>
  A prompt transport takes every request, and a read with the timeout \<open>tmo\<close> (or without one) gives the
  answer: a session with that timeout then gives exactly the results of the specification.
\<close>

locale prompt = answering T srv rel
  for T :: "'t transport_ops" and srv :: "'v server" and rel :: "'t \<Rightarrow> 'v \<Rightarrow> bytes list \<Rightarrow> bool" +
  fixes tmo :: "duration option"
  assumes prompt_write: "rel t v outs \<Longrightarrow> write_line T t line \<noteq> None"
    and prompt_read: "rel t v (a # outs) \<Longrightarrow> \<exists>t'. read_line T t tmo = Some (Ok a, t')"
begin

definition steady :: "'t session \<Rightarrow> 'v \<Rightarrow> bool" where
  "steady s v \<longleftrightarrow> in_step s v \<and> default_timeout s = tmo"

lemma read_prompt:
  assumes "rel t v (a # outs)"
  obtains t' where "read_line T t tmo = Some (Ok a, t')" "rel t' v outs"
proof -
  from prompt_read [OF assms] obtain t' where t': "read_line T t tmo = Some (Ok a, t')" ..
  with ans_read [OF assms t'] that show ?thesis by auto
qed

lemma new_prompt:
  assumes "rel t v [hello]" "decode_hello hello = Ok h" "protocol h = PROTOCOL"
  shows "\<exists>s t'. session_new T t tmo = Some (Ok s, t') \<and> session_hello s = h \<and> steady s v"
  using assms(2,3)
  by (auto intro: read_prompt [OF assms(1)] simp: session_new_def steady_def in_step_def)

lemma call_prompt:
  assumes "steady s v" "encode_request_line kvs = text @ [10]" "10 \<notin> set text"
  shows "\<exists>s'. call T s kvs = Some (response_of (fst (srv v text)), s') \<and> steady s' (snd (srv v text))"
proof -
  have s: "\<not> is_closed s" "rel (conn s) v []" "default_timeout s = tmo"
    using assms(1) by (auto simp: steady_def in_step_def)
  from prompt_write [OF s(2), of "text @ [10]"] obtain w t1 where w: "write_line T (conn s) (text @ [10]) = Some (w, t1)"
    by auto
  with ans_write [OF s(2) assms(3)] have w': "w = Ok ()" "rel t1 (snd (srv v text)) [fst (srv v text)]" by auto
  from w'(2) obtain t2 where "read_line T t1 tmo = Some (Ok (fst (srv v text)), t2)" "rel t2 (snd (srv v text)) []"
    by (rule read_prompt)
  with w w' s show ?thesis by (simp add: call_def assms(2) steady_def in_step_def)
qed

lemma perform_prompt:
  assumes "steady s v" "remote q"
  shows "\<exists>s'. perform T q s = Some (fst (rpc srv q v), s') \<and> steady s' (snd (rpc srv q v))"
proof (cases "fields_of q")
  case (Ok kvs)
  let ?text = "butlast (encode_request_line kvs)"
  have "rpc srv q v = (and_then (response_of (fst (srv v ?text))) (reply_of q), snd (srv v ?text))"
    by (simp add: rpc_def Ok case_prod_unfold)
  moreover from call_prompt [OF assms(1), of kvs ?text] request_text [OF assms(2) Ok]
  obtain s' where "call T s kvs = Some (response_of (fst (srv v ?text)), s')" "steady s' (snd (srv v ?text))"
    by auto
  ultimately show ?thesis by (simp add: perform_spec [OF assms(2)] Ok)
next
  case (Err e)
  with assms show ?thesis by (simp add: perform_spec rpc_def)
qed (use fields_of_total in blast)

lemma perform_all_prompt:
  "steady s v \<Longrightarrow> \<forall>q\<in>set qs. remote q \<Longrightarrow> \<exists>s'. perform_all T qs s = Some (rpc_all srv qs v, s')"
proof (induction qs arbitrary: s v)
  case (Cons q qs)
  from perform_prompt [OF Cons.prems(1), of q] Cons.prems(2) obtain s1 where
    "perform T q s = Some (fst (rpc srv q v), s1)" "steady s1 (snd (rpc srv q v))" by auto
  with Cons.IH [of s1] Cons.prems(2) rpc_not_Panic [of srv q v] show ?case by fastforce
qed simp

end

section \<open>Example\<close>

lemma greeting_fits: "fit_line greeting"
  using greeting_short by (simp add: fit_line_def few_bytes)

text \<open>A server with a table that every request creates or drops in turn.\<close>

abbreviation tables_field :: "bool \<Rightarrow> string \<times> json" where
  "tables_field there \<equiv> (''tables'', JArray (if there then [json_str (str ''t'')] else []))"

definition toggling :: "bool server" where
  "toggling = json_server (\<lambda>there j. ([tables_field there], \<not> there))"

lemma wf_tables: "wf_fields [tables_field there]"
  by (simp add: str_def json_str_def is_scalar_def)

lemma toggling_fits: "fit_line (fst (toggling there req))"
proof -
  have "length (answer_with False []) < 100 \<and> (\<forall>b. length (answer_with True [tables_field b]) < 100)"
    by (intro conjI allI, code_simp, rename_tac b, case_tac b; simp only:; code_simp)
  moreover have "fst (toggling there req) \<in> {answer_with False [], answer_with True [tables_field there]}"
    by (auto simp: toggling_def json_server_def split: result.splits)
  ultimately show ?thesis
    using answer_with_spec [OF wf_tables, of True there] answer_with_spec [of "[]" False]
    by (auto simp: fit_line_def few_bytes)
qed

text \<open>Three requests, and what the server makes of them.\<close>

lemma toggled_rpc:
  "rpc toggling Tables there = (Ok (TablesReply \<lparr>tables_of = if there then [str ''t''] else []\<rparr>), \<not> there)"
  "valid_string p \<Longrightarrow> rpc toggling (Load p) there = (Ok Done, \<not> there)"
proof -
  have "decode_tables_response (object_of [(''ok'', JBool True), tables_field there]) =
      Ok \<lparr>tables_of = if there then [str ''t''] else []\<rparr>"
    by (cases there; simp only:; code_simp)
  then show "rpc toggling Tables there = (Ok (TablesReply \<lparr>tables_of = if there then [str ''t''] else []\<rparr>), \<not> there)"
    unfolding toggling_def
    by (subst rpc_json_server [OF _ _ _ wf_tables]) (auto simp del: list.map)
  show "rpc toggling (Load p) there = (Ok Done, \<not> there)" if "valid_string p"
    unfolding toggling_def by (subst rpc_json_server [OF _ _ _ wf_tables]) (auto simp: that simp del: list.map)
qed

abbreviation three_requests :: "request list" where
  "three_requests \<equiv> [Tables, Load [], Tables]"

lemma toggled_program:
  "rpc_all toggling three_requests True =
     [Ok (TablesReply \<lparr>tables_of = [str ''t'']\<rparr>), Ok Done, Ok (TablesReply \<lparr>tables_of = [str ''t'']\<rparr>)]"
  by (simp add: toggled_rpc del: One_nat_def)

end
