(* ===== verification/Typed.thy ===== *)
theory Typed
  imports Rpc Nearest
begin

text \<open>
  The types of what an operation returns, as far as Rust's own types do not say it: strings hold Unicode
  scalar values, and no cell is a NaN, whatever bytes a server sends. So every result can be passed back
  as a parameter, but for the infinities an overflowing literal gives.
\<close>

section \<open>Cells\<close>

fun typed_val :: "val \<Rightarrow> bool" where
  "typed_val (Text s) \<longleftrightarrow> valid_string s"
| "typed_val (Real f) \<longleftrightarrow> mag f \<le> inf_mag"
| "typed_val _ \<longleftrightarrow> True"

text \<open>The words for infinity and NaN do not start like a number.\<close>

lemma magnitude_digit:
  assumes "is_digit c" "magnitude_opt (c # s) = Some k"
  shows "k \<le> inf_mag"
proof (cases "decimal_opt (c # s)")
  case None
  have c: "lower c \<noteq> 105" "lower c \<noteq> 110" using assms(1) by (auto simp: is_digit_def lower_def)
  with None assms(2) show ?thesis by (simp add: magnitude_opt_def Let_def)
next
  case (Some p)
  with assms(2) round_dec_bound show ?thesis by (cases p) (auto simp: magnitude_opt_def)
qed

lemma number_starts:
  assumes "json_number (utf8 s)"
  shows "\<exists>c t. is_digit c \<and> (s = c # t \<or> s = 45 # c # t)"
proof -
  have s: "\<forall>c\<in>set s. c < 128" using json_number_string [OF assms] by blast
  from assms obtain i r where i: "json_int i" "utf8 s = i @ r" by (auto simp: json_number_def)
  then obtain b ds where b: "is_digit_byte b" "i = b # ds \<or> i = 45 # b # ds"
    by (fastforce simp: json_int_def digits1_iff is_digit_byte_def neq_Nil_conv list_all_iff)
  have digit: "is_digit c" if "byte c = b" "c < 128" for c
    using b(1) that by (auto simp: is_digit_byte_def is_digit_def word_le_nat_alt unat_byte)
  have minus: "c = 45" if "byte c = 45" "c < 128" for c
    using arg_cong [OF that(1), of unat] that(2) by (simp add: unat_byte)
  from b(2) i(2) utf8_ascii [OF s] consider "map byte s = b # ds @ r" | "map byte s = 45 # b # ds @ r" by auto
  then show ?thesis
  proof cases
    case 1
    then obtain c t where "s = c # t" "byte c = b" by (auto simp: map_eq_Cons_conv)
    with digit s show ?thesis by auto
  next
    case 2
    then obtain m c t where "s = m # c # t" "byte m = 45" "byte c = b" by (auto simp: map_eq_Cons_conv)
    with digit minus s show ?thesis by fastforce
  qed
qed

lemma real_not_nan:
  assumes "json_number (utf8 (raw n))" "as_f64 n = Some f"
  shows "mag f \<le> inf_mag"
proof -
  from number_starts [OF assms(1)] obtain c t where c: "is_digit c" "raw n = c # t \<or> raw n = 45 # c # t" by blast
  then have "c \<noteq> 45" "c \<noteq> 43" by (auto simp: is_digit_def)
  with assms(2) c(2) obtain neg k where "magnitude_opt (c # t) = Some k" "f = make_f64 neg k"
    by (auto simp: as_f64_def parse_f64_def)
  with magnitude_digit [OF c(1)] mag_make_f64 show ?thesis by simp
qed

lemma typed_cell: "wf_json j \<Longrightarrow> decode_value j = Ok v \<Longrightarrow> typed_val v"
  using real_not_nan by (cases v) (auto simp: decode_value_Ok)

section \<open>Results\<close>

fun typed_reply :: "reply \<Rightarrow> bool" where
  "typed_reply (QueryReply q) \<longleftrightarrow> list_all valid_string (columns q) \<and> list_all (list_all typed_val) (rows q)"
| "typed_reply (ExecReply x) \<longleftrightarrow> True"
| "typed_reply (SnapshotReply x) \<longleftrightarrow> valid_string (path x)"
| "typed_reply (InspectReply x) \<longleftrightarrow> valid_string (data_source x)"
| "typed_reply (TablesReply x) \<longleftrightarrow> list_all valid_string (tables_of x)"
| "typed_reply (SchemaReply x) \<longleftrightarrow> list_all valid_string (schema_of x)"
| "typed_reply (DumpReply x) \<longleftrightarrow> valid_string (sql x)"
| "typed_reply Done \<longleftrightarrow> True"

lemma get_wf:
  assumes "wf_json j" "get j k = Some v"
  shows "wf_json v"
proof (cases j)
  case (JObject ps)
  with assms have "(k, v) \<in> set ps" by (auto dest: map_of_SomeD)
  with assms(1) JObject show ?thesis by (auto simp: list_all_iff)
qed (use assms in \<open>auto simp: get_def\<close>)

lemma typed_cells: "list_all2 (\<lambda>j v. decode_value j = Ok v) js x \<Longrightarrow> list_all wf_json js \<Longrightarrow> list_all typed_val x"
  by (induction rule: list_all2_induct) (auto intro: typed_cell)

lemma typed_rows:
  "list_all2 (\<lambda>r x. \<exists>js. r = JArray js \<and> list_all2 (\<lambda>j v. decode_value j = Ok v) js x) arr rs \<Longrightarrow>
     list_all wf_json arr \<Longrightarrow> list_all (list_all typed_val) rs"
proof (induction rule: list_all2_induct)
  case (Cons r arr x rs)
  then obtain js where js: "r = JArray js" "list_all2 (\<lambda>j v. decode_value j = Ok v) js x" by blast
  from typed_cells [OF js(2)] Cons.prems js(1) have "list_all typed_val x" by simp
  with Cons show ?case by simp
qed simp

lemma typed_query:
  assumes "wf_json j" "decode_query_response j = Ok q"
  shows "typed_reply (QueryReply q)"
proof -
  from assms(2) obtain arr where q: "get j (str ''columns'') = Some (JArray (map JString (columns q)))"
    "get j (str ''rows'') = Some (JArray arr)"
    "list_all2 (\<lambda>r x. \<exists>js. r = JArray js \<and> list_all2 (\<lambda>j v. decode_value j = Ok v) js x) arr (rows q)"
    by (cases q) (auto simp: decode_query_response_def decode_rows_def decode_row_loop_Ok)
  from get_wf [OF assms(1) q(1)] get_wf [OF assms(1) q(2)] typed_rows [OF q(3)] show ?thesis
    by (simp add: list.pred_map o_def)
qed

lemma typed_reply_of:
  assumes "wf_json j" "reply_of q j = Ok r"
  shows "typed_reply r"
proof -
  have field: "valid_string s" if "get j k = Some (JString s)" for k s
    using get_wf [OF assms(1) that] by simp
  have items: "list_all valid_string ss" if "get j k = Some (JArray (map JString ss))" for k ss
    using get_wf [OF assms(1) that] by (simp add: list.pred_map o_def)
  from assms(2) show ?thesis
  proof (cases q)
    case (Query sq ps)
    with assms(2) obtain x where "decode_query_response j = Ok x" "r = QueryReply x" by auto
    with typed_query [OF assms(1)] show ?thesis by simp
  qed (auto simp: decode_snapshot_response_def decode_inspect_response_def decode_tables_response_def
      decode_schema_response_def decode_dump_response_def decode_exec_response_def simp del: str_def intro: field items)
qed

lemma response_of_wf:
  assumes "response_of line = Ok j"
  shows "wf_json j"
proof -
  from assms obtain x where x: "decode_response_line line = Ok x" "resp_fields x = j"
    by (auto simp: response_of_def split: if_splits option.splits)
  then have "parse line = Ok j"
    by (auto simp: decode_response_line_def Let_def split: if_splits)
  then show ?thesis by (rule parse_wf)
qed

section \<open>Properties\<close>

text \<open>
  C12: What an operation returns is well typed, on any transport and whatever bytes came out of it: every string
  in a result is a sequence of Unicode scalar values, and no cell is a NaN.
\<close>
theorem results_are_typed:
  assumes "remote q" "perform T q s = Some (Ok r, s')"
  shows "typed_reply r"
proof -
  obtain kvs where kvs: "fields_of q = Ok kvs"
    using assms(2) unfolding perform_spec [OF assms(1)] by (cases "fields_of q") auto
  with assms(2) obtain x where x: "call T s kvs = Some (x, s')" "and_then x (reply_of q) = Ok r"
    unfolding perform_spec [OF assms(1)] by auto
  then obtain j where j: "call T s kvs = Some (Ok j, s')" "reply_of q j = Ok r" by (cases x) auto
  from j(1) obtain line where "response_of line = Ok j" by (rule call_Ok)
  with j(2) show ?thesis using response_of_wf typed_reply_of by blast
qed

lemma results_are_typed_witness:
  "\<exists>s'. perform scripted Tables \<lparr>session_hello = session_hello greeted, conn = [answer_with True [tables_field True]],
       default_timeout = None, is_closed = False\<rparr> = Some (Ok (TablesReply \<lparr>tables_of = [str ''t'']\<rparr>), s')
     \<and> typed_reply (TablesReply \<lparr>tables_of = [str ''t'']\<rparr>)"
proof -
  let ?s = "\<lparr>session_hello = session_hello greeted, conn = [answer_with True [tables_field True]],
       default_timeout = None, is_closed = False\<rparr>"
  have "call scripted ?s kvs = Some (Ok (object_of [(''ok'', JBool True), tables_field True]), ?s\<lparr>conn := []\<rparr>)" for kvs
    using response_of_answer_with [OF wf_tables, of True] by (simp add: call_def scripted_def)
  moreover have "decode_tables_response (object_of [(''ok'', JBool True), tables_field True]) = Ok \<lparr>tables_of = [str ''t'']\<rparr>"
    by code_simp
  ultimately have p: "perform scripted Tables ?s = Some (Ok (TablesReply \<lparr>tables_of = [str ''t'']\<rparr>), ?s\<lparr>conn := []\<rparr>)"
    by (simp add: tables_def call_and_def del: list.map str_def)
  from results_are_typed [OF _ p] p show ?thesis by (auto simp del: str_def)
qed

end
