(* ===== verification/Owed.thy ===== *)
theory Owed
  imports SocketProps Rpc
begin

text \<open>
  Answers on their way through a framer: what is buffered and what is still to come are together the
  lines that are owed, and taking a line takes the oldest of them.
\<close>

text \<open>\<open>owed f p outs\<close>: what is buffered and what is pending are together the answers \<open>outs\<close>.\<close>

definition owed :: "framer \<Rightarrow> bytes \<Rightarrow> bytes list \<Rightarrow> bool" where
  "owed f p outs \<longleftrightarrow> framer_ok f \<and> buf f @ p = concat (map (\<lambda>a. a @ [10]) outs) \<and> (\<forall>a\<in>set outs. fit_line a)"

lemma first_line_unique:
  assumes "l @ 10 # x = a @ 10 # y" "10 \<notin> set l" "10 \<notin> set (a :: bytes)"
  shows "l = a \<and> x = y"
proof -
  have "\<forall>b\<in>set l. b \<noteq> 10" "\<forall>b\<in>set a. b \<noteq> 10" using assms(2,3) by auto
  then have "takeWhile (\<lambda>b. b \<noteq> 10) (l @ 10 # x) = l" "takeWhile (\<lambda>b. b \<noteq> 10) (a @ 10 # y) = a"
    using takeWhile_append_stop [of l "\<lambda>b. b \<noteq> 10" "10 # x"] takeWhile_append_stop [of a "\<lambda>b. b \<noteq> 10" "10 # y"]
    by simp_all
  with assms(1) show ?thesis by auto
qed

lemma owed_push: "owed f (chunk @ p) outs \<Longrightarrow> owed (push f chunk) p outs"
  by (simp add: owed_def)

lemma owed_answer: "owed f p outs \<Longrightarrow> fit_line a \<Longrightarrow> owed f (p @ a @ [10]) (outs @ [a])"
  by (auto simp: owed_def simp flip: append_assoc)

lemma owed_take:
  assumes "owed f p (a # outs)" "take_line f = (r, f')"
  shows "r = Ok (Some a) \<and> owed f' p outs \<or> r = Ok None \<and> owed f' p (a # outs)"
proof -
  from assms(1) have f: "framer_ok f" "buf f @ p = a @ 10 # concat (map (\<lambda>a. a @ [10]) outs)" "fit_line a"
    "\<forall>a\<in>set outs. fit_line a" by (auto simp: owed_def)
  note exact = take_line_exact [OF f(1) assms(2)]
  show ?thesis
  proof (cases "10 \<in> set (buf f)")
    case True
    then obtain l where l: "r = Ok (Some l)" using take_line_spec [OF f(1)] assms(2) by auto
    with exact have e: "framer_ok f'" "buf f = l @ 10 # buf f'" "10 \<notin> set l" by auto
    with f(2) have "l @ 10 # (buf f' @ p) = a @ 10 # concat (map (\<lambda>a. a @ [10]) outs)" by simp
    with first_line_unique [OF this e(3)] f(3,4) l e(1) show ?thesis by (auto simp: owed_def fit_line_def)
  next
    case False
    have "length (buf f) \<le> length a"
    proof (rule ccontr)
      assume "\<not> length (buf f) \<le> length a"
      moreover have "buf f = take (length (buf f)) (a @ 10 # concat (map (\<lambda>a. a @ [10]) outs))"
        unfolding f(2) [symmetric] by simp
      ultimately have "10 \<in> set (buf f)"
        by (cases "length (buf f) - length a") (auto simp: take_Cons')
      with False show False ..
    qed
    with f(3) have "\<not> MAX_LINE_BYTES < length (buf f)" by (simp add: fit_line_def)
    with False take_line_spec [OF f(1)] assms(2) have "r = Ok None" by auto
    with exact f show ?thesis by (auto simp: owed_def)
  qed
qed

lemma owed_nothing:
  assumes "owed f p []" "take_line f = (r, f')"
  shows "r = Ok None \<and> owed f' p [] \<and> 10 \<notin> set (buf f')"
  using assms take_line_spec [of f] by (auto simp: owed_def framer_ok_def MAX_LINE_BYTES_def)

lemma take_line_None: "framer_ok f \<Longrightarrow> take_line f = (Ok None, f') \<Longrightarrow> 10 \<notin> set (buf f')"
  by (auto simp: take_line_spec split: if_splits)

end
