(* ===== verification/SocketRpc.thy ===== *)
theory SocketRpc
  imports Owed Client
begin

text \<open>
  A session over a socket is a client of the server behind the stream: the results of its requests are
  those of calling the server's function, however the answers are cut up on the way.
\<close>

section \<open>A stream with a server behind it\<close>

text \<open>
  \<open>vst w\<close> is the state of the server in the world \<open>w\<close>, \<open>pend w\<close> what it has answered and the stream
  has not given out yet. A line written is a request, answered by one line that fits the cap; a read gives
  some of what is pending, or says that it would block or was interrupted.
\<close>

definition serves ::
  "'w stream_ops \<Rightarrow> 'v server \<Rightarrow> ('w \<Rightarrow> 'v) \<Rightarrow> ('w \<Rightarrow> bytes) \<Rightarrow> bool" where
  "serves E srv vst pend \<longleftrightarrow>
     (\<forall>w text r w'. 10 \<notin> set text \<longrightarrow> stream_write_all E w (text @ [10]) = Some (r, w') \<longrightarrow>
        (case srv (vst w) text of (a, v) \<Rightarrow> r = Ok () \<and> vst w' = v \<and> pend w' = pend w @ a @ [10] \<and> fit_line a))
     \<and> (\<forall>w r w'. stream_flush E w = Some (r, w') \<longrightarrow> r = Ok () \<and> vst w' = vst w \<and> pend w' = pend w)
     \<and> (\<forall>w. vst (snd (stream_now E w)) = vst w \<and> pend (snd (stream_now E w)) = pend w)
     \<and> (\<forall>w r w'. stream_read E w BUF_SIZE = Some (r, w') \<longrightarrow> vst w' = vst w \<and>
          (case r of
             Ok chunk \<Rightarrow> chunk \<noteq> [] \<and> length chunk \<le> BUF_SIZE \<and> pend w = chunk @ pend w'
           | Err e \<Rightarrow> kind e \<in> {WouldBlock, TimedOut, Interrupted} \<and> pend w' = pend w
           | Panic \<Rightarrow> False))"

lemma serves_write:
  "serves E srv vst pend \<Longrightarrow> 10 \<notin> set text \<Longrightarrow> stream_write_all E w (text @ [10]) = Some (r, w') \<Longrightarrow>
     r = Ok () \<and> vst w' = snd (srv (vst w) text) \<and> pend w' = pend w @ fst (srv (vst w) text) @ [10]
     \<and> fit_line (fst (srv (vst w) text))"
  unfolding serves_def case_prod_unfold by blast

lemma serves_flush:
  "serves E srv vst pend \<Longrightarrow> stream_flush E w = Some (r, w') \<Longrightarrow> r = Ok () \<and> vst w' = vst w \<and> pend w' = pend w"
  unfolding serves_def by blast

lemma serves_now: "serves E srv vst pend \<Longrightarrow> stream_now E w = (i, w') \<Longrightarrow> vst w' = vst w \<and> pend w' = pend w"
  unfolding serves_def by (metis snd_conv)

lemma serves_read:
  "serves E srv vst pend \<Longrightarrow> stream_read E w BUF_SIZE = Some (r, w') \<Longrightarrow> vst w' = vst w \<and>
     (case r of
        Ok chunk \<Rightarrow> chunk \<noteq> [] \<and> length chunk \<le> BUF_SIZE \<and> pend w = chunk @ pend w'
      | Err e \<Rightarrow> kind e \<in> {WouldBlock, TimedOut, Interrupted} \<and> pend w' = pend w
      | Panic \<Rightarrow> False)"
  unfolding serves_def by blast

lemma serves_timed_out:
  "serves E srv vst pend \<Longrightarrow> timed_out (stream_now E) dl w = (b, w') \<Longrightarrow> vst w' = vst w \<and> pend w' = pend w"
  by (cases dl) (auto split: prod.splits dest: serves_now)

lemma serves_deadline:
  "serves E srv vst pend \<Longrightarrow> deadline_in (stream_now E) tmo w = (r, w') \<Longrightarrow> vst w' = vst w \<and> pend w' = pend w"
  by (cases tmo) (auto split: prod.splits dest: serves_now)

section \<open>A socket with a server at its end\<close>

definition serving ::
  "'w stream_ops \<Rightarrow> 'v server \<Rightarrow> ('w \<Rightarrow> 'v) \<Rightarrow> ('w \<Rightarrow> bytes) \<Rightarrow> 'w socket \<Rightarrow> 'v \<Rightarrow> bytes list \<Rightarrow> bool" where
  "serving E srv vst pend s v outs \<longleftrightarrow>
     serves E srv vst pend \<and> socket.terminal s = None \<and> vst (stream s) = v \<and> owed (framing s) (pend (stream s)) outs"

lemma serving_fresh:
  "serves E srv vst pend \<Longrightarrow> pend w = hello @ [10] \<Longrightarrow> fit_line hello \<Longrightarrow>
     serving E srv vst pend (from_stream w) (vst w) [hello]"
  by (auto simp: serving_def from_stream_def owed_def new_framer_def framer_ok_def)

lemma serving_write:
  assumes "serving E srv vst pend s v outs" "10 \<notin> set text" "socket_write_line E s (text @ [10]) = Some (r, s')"
  shows "r = Ok () \<and> serving E srv vst pend s' (snd (srv v text)) (outs @ [fst (srv v text)])"
proof -
  from assms(1) have s: "serves E srv vst pend" "socket.terminal s = None" "vst (stream s) = v"
    "owed (framing s) (pend (stream s)) outs" by (auto simp: serving_def)
  from assms(3) obtain r1 w1 where w1: "stream_write_all E (stream s) (text @ [10]) = Some (r1, w1)"
    by (auto simp: socket_write_line_def split: bind_splits)
  note k1 = serves_write [OF s(1) assms(2) w1]
  with assms(3) w1 obtain r2 w2 where w2: "stream_flush E w1 = Some (r2, w2)" "r = map_err from_io r2"
      "s' = s\<lparr>stream := w2\<rparr>"
    by (auto simp: socket_write_line_def split: bind_splits)
  from serves_flush [OF s(1) w2(1)] k1 w2(2,3) s owed_answer [OF s(4)] show ?thesis
    by (simp add: serving_def)
qed

lemma serving_step:
  assumes "serving E srv vst pend s v (a # outs)" "read_step E dl s = Some (r, s')"
  shows "r = None \<and> serving E srv vst pend s' v (a # outs)
    \<or> r = Some (Ok a) \<and> serving E srv vst pend s' v outs
    \<or> r = Some (Err timeout_error) \<and> dl \<noteq> None \<and> serving E srv vst pend s' v (a # outs)"
proof -
  from assms(1) have k: "serves E srv vst pend" "socket.terminal s = None" "vst (stream s) = v"
    "owed (framing s) (pend (stream s)) (a # outs)" by (auto simp: serving_def)
  have taken: "vst w = v \<and> length chunk \<le> BUF_SIZE \<and> (x = Ok (Some a) \<and> owed f (pend w) outs \<or> x = Ok None \<and> owed f (pend w) (a # outs))"
    if rd: "stream_read E (stream s) BUF_SIZE = Some (Ok chunk, w)" and tk: "take_line (push (framing s) chunk) = (x, f)"
    for chunk w x f
  proof -
    from serves_read [OF k(1) rd] k(3) have p: "vst w = v" "length chunk \<le> BUF_SIZE" "pend (stream s) = chunk @ pend w"
      by auto
    from owed_take [OF owed_push tk] k(4) p show ?thesis by simp
  qed
  have looked: "vst w' = vst w \<and> pend w' = pend w \<and> (dl = None \<longrightarrow> \<not> b)"
    if "timed_out (stream_now E) dl w = (b, w')" for w b w'
    using serves_timed_out [OF k(1) that] that by (cases dl) auto
  from assms(2) show ?thesis
  proof (cases rule: read_step_cases)
    case eof
    with serves_read [OF k(1) eof(4)] show ?thesis by simp
  next
    case (line chunk line)
    from taken [OF line(4,5)] line k show ?thesis by (simp add: serving_def)
  next
    case (more chunk w b)
    from taken [OF more(3,4)] looked [OF more(5)] more k show ?thesis by (auto simp: serving_def)
  next
    case (cap chunk e)
    from taken [OF cap(4,5)] show ?thesis by simp
  next
    case (panic rd)
    from serves_read [OF k(1) panic(3)] panic(4) obtain chunk where chunk: "rd = Ok chunk"
        "fst (take_line (push (framing s) chunk)) = Panic"
      by (cases rd) auto
    then obtain f where "take_line (push (framing s) chunk) = (Panic, f)" by (metis prod.collapse)
    from taken [OF _ this] panic(3) chunk(1) show ?thesis by auto
  next
    case (block e w b)
    from serves_read [OF k(1) block(1)] looked [OF block(5)] block k show ?thesis by (auto simp: serving_def)
  next
    case (intr e)
    from serves_read [OF k(1) intr(1)] intr k show ?thesis by (simp add: serving_def)
  next
    case (fail e)
    from serves_read [OF k(1) fail(1)] fail(2) show ?thesis by simp
  qed
qed

text \<open>A read: a timeout leaves the line that is on its way for the next one. The loop is entered only while the answer is not all there.\<close>

lemma socket_read_loop:
  assumes "socket.terminal s = None" "take_line (framing s) = (Ok None, f)"
  shows "socket_read_line E s tmo =
    (case deadline_in (stream_now E) tmo (stream s) of
       (Ok dl, w) \<Rightarrow> repeat (read_step E dl) (s\<lparr>framing := f, stream := w\<rparr>)
     | (Err e, w) \<Rightarrow> Some (Err e, s\<lparr>framing := f, stream := w\<rparr>)
     | (Panic, w) \<Rightarrow> Some (Panic, s\<lparr>framing := f, stream := w\<rparr>))"
  by (simp add: socket_read_line_def take_or_terminal_def assms)

lemma socket_read_ready:
  assumes "socket.terminal s = None" "take_line (framing s) = (Ok (Some a), f)"
  shows "socket_read_line E s tmo = Some (Ok a, s\<lparr>framing := f\<rparr>)"
  by (simp add: socket_read_line_def take_or_terminal_def assms)

lemma serving_read:
  assumes "serving E srv vst pend s v (a # outs)" "socket_read_line E s tmo = Some (r, s')"
  shows "r = Ok a \<and> serving E srv vst pend s' v outs
    \<or> r = Err timeout_error \<and> tmo \<noteq> None \<and> serving E srv vst pend s' v (a # outs)
    \<or> r = Panic \<and> tmo \<noteq> None \<and> fst (deadline_in (stream_now E) tmo (stream s)) = Panic"
proof -
  from assms(1) have k: "serves E srv vst pend" "socket.terminal s = None" "vst (stream s) = v"
    "owed (framing s) (pend (stream s)) (a # outs)" by (auto simp: serving_def)
  obtain x f where x: "take_line (framing s) = (x, f)" by fastforce
  from owed_take [OF k(4) x] show ?thesis
  proof (elim disjE conjE)
    assume "x = Ok (Some a)" "owed f (pend (stream s)) outs"
    with socket_read_ready [OF k(2)] x assms(2) k show ?thesis by (auto simp: serving_def)
  next
    assume f: "x = Ok None" "owed f (pend (stream s)) (a # outs)"
    obtain d w where d: "deadline_in (stream_now E) tmo (stream s) = (d, w)" by fastforce
    note w = serves_deadline [OF k(1) d]
    note eq = assms(2) [unfolded socket_read_loop [OF k(2) x [unfolded f(1)]] d prod.case]
    show ?thesis
    proof (cases d)
      case (Ok dl)
      with d have dl: "tmo = None \<Longrightarrow> dl = None" by (cases tmo) auto
      from Ok eq have "repeat (read_step E dl) (s\<lparr>framing := f, stream := w\<rparr>) = Some (r, s')" by simp
      then have "r = Ok a \<and> serving E srv vst pend s' v outs
          \<or> r = Err timeout_error \<and> dl \<noteq> None \<and> serving E srv vst pend s' v (a # outs)"
      proof (rule repeat_invariant [where P = "\<lambda>s. serving E srv vst pend s v (a # outs)"])
        show "serving E srv vst pend (s\<lparr>framing := f, stream := w\<rparr>) v (a # outs)"
          using k w f(2) by (simp add: serving_def)
      next
        fix s s'
        assume "serving E srv vst pend s v (a # outs)" "read_step E dl s = Some (None, s')"
        from serving_step [OF this] show "serving E srv vst pend s' v (a # outs)" by simp
      next
        fix s s' x
        assume "serving E srv vst pend s v (a # outs)" "read_step E dl s = Some (Some x, s')"
        from serving_step [OF this]
        show "x = Ok a \<and> serving E srv vst pend s' v outs
            \<or> x = Err timeout_error \<and> dl \<noteq> None \<and> serving E srv vst pend s' v (a # outs)" by simp
      qed
      with dl show ?thesis by blast
    next
      case (Err e)
      with d show ?thesis by (cases tmo) (auto simp: add_instant_def split: prod.splits if_splits)
    next
      case Panic
      with d eq show ?thesis by (cases tmo) auto
    qed
  qed
qed

interpretation socket_rpc: answering "socket_transport E" srv "serving E srv vst pend"
  for E :: "'w stream_ops" and srv :: "'v server" and vst pend
proof unfold_locales
  fix t :: "'w socket" and v req w t' outs
  assume "serving E srv vst pend t v outs" "10 \<notin> set req"
    "write_line (socket_transport E) t (req @ [10]) = Some (w, t')"
  then show "w = Ok () \<and> serving E srv vst pend t' (snd (srv v req)) (outs @ [fst (srv v req)])"
    using serving_write by simp
next
  fix t :: "'w socket" and v a outs tmo r t'
  assume "serving E srv vst pend t v (a # outs)" "read_line (socket_transport E) t tmo = Some (r, t')"
  with serving_read show "r = Ok a \<and> serving E srv vst pend t' v outs \<or> (\<exists>m. r = Err (Timeout m)) \<or> r = Panic"
    using timeout_error_is_Timeout by fastforce
qed

section \<open>A stream that does not stall\<close>

text \<open>
  Writes and flushes return, and so does a read when something is pending; it gives up on it at most
  \<open>lull w\<close> times in a row.
\<close>

definition replies :: "'w stream_ops \<Rightarrow> ('w \<Rightarrow> bytes) \<Rightarrow> ('w \<Rightarrow> nat) \<Rightarrow> bool" where
  "replies E pend lull \<longleftrightarrow>
     (\<forall>w line. stream_write_all E w line \<noteq> None) \<and> (\<forall>w. stream_flush E w \<noteq> None)
     \<and> (\<forall>w. pend w \<noteq> [] \<longrightarrow> stream_read E w BUF_SIZE \<noteq> None)
     \<and> (\<forall>w e w'. pend w \<noteq> [] \<longrightarrow> stream_read E w BUF_SIZE = Some (Err e, w') \<longrightarrow> lull w' < lull w)"

lemma replies_write: "replies E pend lull \<Longrightarrow> socket_write_line E s line \<noteq> None"
proof -
  assume k: "replies E pend lull"
  then obtain r w where w: "stream_write_all E (stream s) line = Some (r, w)" unfolding replies_def by fastforce
  from k obtain r' w' where "stream_flush E w = Some (r', w')" unfolding replies_def by fastforce
  with w show ?thesis by (cases r) (simp_all add: socket_write_line_def)
qed

lemma open_line_pending: "owed f p (a # outs) \<Longrightarrow> 10 \<notin> set (buf f) \<Longrightarrow> p \<noteq> []"
  by (cases p) (auto simp: owed_def)

lemma read_step_open:
  assumes "read_step E dl s = Some (None, s')" "framer_ok (framing s)" "10 \<notin> set (buf (framing s))"
  shows "10 \<notin> set (buf (framing s'))"
  using assms(1)
proof (cases rule: read_step_cases)
  case (more chunk w b)
  from take_line_spec [OF framer_ok_push [OF assms(2), of chunk]] more(4) show ?thesis by (auto split: if_splits)
qed (use assms in auto)

text \<open>
  \<open>in_time E pend lull clk due tmo\<close>: with the timeout \<open>tmo\<close>, all that is pending comes out before the timeout
  is over. \<open>due w\<close> is the time this still takes in the world \<open>w\<close>, and it passes while a read waits; to look
  at the clock costs no patience.
\<close>

definition in_time ::
  "'w stream_ops \<Rightarrow> ('w \<Rightarrow> bytes) \<Rightarrow> ('w \<Rightarrow> nat) \<Rightarrow> ('w \<Rightarrow> instant) \<Rightarrow> ('w \<Rightarrow> duration) \<Rightarrow> duration option \<Rightarrow> bool" where
  "in_time E pend lull clk due tmo \<longleftrightarrow>
     (case tmo of
        None \<Rightarrow> True
      | Some t \<Rightarrow>
          (\<forall>w. due w < t)
          \<and> (\<forall>w r w'. stream_read E w BUF_SIZE = Some (r, w') \<longrightarrow> pend w' \<noteq> [] \<longrightarrow> clk w' + due w' \<le> clk w + due w)
          \<and> (\<forall>w i w'. stream_now E w = (i, w') \<longrightarrow> i = clk w' \<and> lull w' \<le> lull w
               \<and> (pend w \<noteq> [] \<longrightarrow> clk w' + due w' \<le> clk w + due w)))"

text \<open>\<open>before dl w\<close>: the deadline, if there is one, will not be reached while something is pending.\<close>

definition before :: "('w \<Rightarrow> instant) \<Rightarrow> ('w \<Rightarrow> duration) \<Rightarrow> instant option \<Rightarrow> 'w \<Rightarrow> bool" where
  "before clk due dl w \<longleftrightarrow> (\<forall>d. dl = Some d \<longrightarrow> clk w + due w < d)"

lemma in_time_deadline:
  assumes "in_time E pend lull clk due tmo" "deadline_in (stream_now E) tmo w = (r, w')" "clock_lasts (stream_now E) tmo w"
  shows "\<exists>dl. r = Ok dl \<and> before clk due dl w' \<and> (dl = None \<longleftrightarrow> tmo = None)"
proof (cases tmo)
  case (Some t)
  obtain i w1 where i: "stream_now E w = (i, w1)" by fastforce
  from assms(1) Some i have "i = clk w1" "due w1 < t" unfolding in_time_def by auto
  with deadline_in_lasts [OF assms(3,2)] Some i show ?thesis by (auto simp: before_def)
qed (use assms(2) in \<open>simp add: before_def\<close>)

lemma in_time_read:
  assumes "in_time E pend lull clk due tmo" "dl = None \<longleftrightarrow> tmo = None" "before clk due dl w"
    "stream_read E w BUF_SIZE = Some (r, w')" "pend w' \<noteq> []"
  shows "before clk due dl w'"
proof (cases tmo)
  case (Some t)
  with assms(1,4,5) have "clk w' + due w' \<le> clk w + due w" unfolding in_time_def by auto
  with assms(3) show ?thesis unfolding before_def by fastforce
qed (use assms(2) in \<open>simp add: before_def\<close>)

lemma in_time_check:
  assumes "in_time E pend lull clk due tmo" "dl = None \<longleftrightarrow> tmo = None" "before clk due dl w"
    "timed_out (stream_now E) dl w = (b, w')" "pend w \<noteq> []"
  shows "\<not> b \<and> before clk due dl w' \<and> lull w' \<le> lull w"
proof (cases dl)
  case (Some d)
  with assms(2) obtain t where t: "tmo = Some t" by auto
  obtain i w1 where i: "stream_now E w = (i, w1)" by fastforce
  from assms(1) have "\<forall>w i w'. stream_now E w = (i, w') \<longrightarrow> i = clk w' \<and> lull w' \<le> lull w
      \<and> (pend w \<noteq> [] \<longrightarrow> clk w' + due w' \<le> clk w + due w)"
    unfolding in_time_def t option.case by (elim conjE)
  with assms(5) i have "i = clk w1" "lull w1 \<le> lull w" "clk w1 + due w1 \<le> clk w + due w" by blast+
  with assms(3,4) Some i show ?thesis by (auto simp: before_def)
qed (use assms(4) in \<open>simp add: before_def\<close>)

text \<open>
  The loop of a read: each time round what is pending, or the patience with it, goes down. And with what is
  pending in time the loop does not end by a timeout.
\<close>

definition patient_clock :: "'w stream_ops \<Rightarrow> ('w \<Rightarrow> nat) \<Rightarrow> instant option \<Rightarrow> bool" where
  "patient_clock E lull dl \<longleftrightarrow> dl = None \<or> (\<forall>w. lull (snd (stream_now E w)) \<le> lull w)"

lemma in_time_patient: "in_time E pend lull clk due tmo \<Longrightarrow> dl = None \<longleftrightarrow> tmo = None \<Longrightarrow> patient_clock E lull dl"
  by (cases tmo) (auto simp: in_time_def patient_clock_def, metis prod.collapse)

lemma patient_check: "patient_clock E lull dl \<Longrightarrow> timed_out (stream_now E) dl w = (b, w') \<Longrightarrow> lull w' \<le> lull w"
  by (cases dl; cases "stream_now E w") (auto simp: patient_clock_def dest: spec [of _ w])

lemma serving_progress:
  assumes "serving E srv vst pend s v (a # outs)" "10 \<notin> set (buf (framing s))" "replies E pend lull"
    "patient_clock E lull dl" "read_step E dl s = Some (None, s')"
  shows "serving E srv vst pend s' v (a # outs) \<and> 10 \<notin> set (buf (framing s'))
    \<and> (s', s) \<in> measures [\<lambda>s. length (pend (stream s)), \<lambda>s. lull (stream s)]"
proof -
  from assms(1) have ok: "serves E srv vst pend" "framer_ok (framing s)" "owed (framing s) (pend (stream s)) (a # outs)"
    by (auto simp: serving_def owed_def)
  note pending = open_line_pending [OF ok(3) assms(2)]
  have "length (pend (stream s')) < length (pend (stream s))
      \<or> length (pend (stream s')) = length (pend (stream s)) \<and> lull (stream s') < lull (stream s)"
    using assms(5)
  proof (cases rule: read_step_cases)
    case (more chunk w b)
    with serves_read [OF ok(1) more(3)] serves_timed_out [OF ok(1) more(5)] show ?thesis by (cases chunk) auto
  next
    case (block e w b)
    with serves_read [OF ok(1) block(1)] serves_timed_out [OF ok(1) block(5)] patient_check [OF assms(4) block(5)]
      assms(3) pending show ?thesis by (fastforce simp: replies_def)
  next
    case (intr e)
    with serves_read [OF ok(1) intr(1)] pending assms(3) show ?thesis by (auto simp: replies_def)
  qed auto
  with serving_step [OF assms(1,5)] read_step_open [OF assms(5) ok(2) assms(2)] show ?thesis by simp
qed

lemma serving_loop_returns:
  assumes "serving E srv vst pend s v (a # outs)" "10 \<notin> set (buf (framing s))" "replies E pend lull" "patient_clock E lull dl"
  shows "repeat (read_step E dl) s \<noteq> None"
proof (rule repeat_returns [where P = "\<lambda>s. serving E srv vst pend s v (a # outs) \<and> 10 \<notin> set (buf (framing s))"
      and R = "measures [\<lambda>s. length (pend (stream s)), \<lambda>s. lull (stream s)]"])
  fix s
  assume "serving E srv vst pend s v (a # outs) \<and> 10 \<notin> set (buf (framing s))"
  then have "pend (stream s) \<noteq> []" using open_line_pending by (auto simp: serving_def)
  with assms(3) obtain r w where "stream_read E (stream s) BUF_SIZE = Some (r, w)" unfolding replies_def by fastforce
  then show "read_step E dl s \<noteq> None" by (simp add: read_step_def)
next
  fix s s'
  assume "serving E srv vst pend s v (a # outs) \<and> 10 \<notin> set (buf (framing s))" "read_step E dl s = Some (None, s')"
  with serving_progress [OF _ _ assms(3,4), of srv vst s v a outs s']
  show "(serving E srv vst pend s' v (a # outs) \<and> 10 \<notin> set (buf (framing s')))
      \<and> (s', s) \<in> measures [\<lambda>s. length (pend (stream s)), \<lambda>s. lull (stream s)]" by simp
qed (use assms(1,2) in auto)

lemma serving_on_time:
  assumes "serving E srv vst pend s v (a # outs)" "10 \<notin> set (buf (framing s))" "before clk due dl (stream s)"
    "in_time E pend lull clk due tmo" "dl = None \<longleftrightarrow> tmo = None" "read_step E dl s = Some (r, s')"
  shows "r = Some (Ok a) \<or> r = None \<and> before clk due dl (stream s')"
proof -
  from assms(1) have ok: "serves E srv vst pend" "framer_ok (framing s)" "owed (framing s) (pend (stream s)) (a # outs)"
    by (auto simp: serving_def owed_def)
  note pending = open_line_pending [OF ok(3) assms(2)]
  note reads = in_time_read [OF assms(4,5,3)]
  have checked: "\<not> b \<and> before clk due dl (stream s')"
    if "stream_read E (stream s) BUF_SIZE = Some (x, w)" "timed_out (stream_now E) dl w = (b, stream s')" "pend w \<noteq> []" for x w b
    using in_time_check [OF assms(4,5) reads [OF that(1,3)] that(2,3)] by simp
  from assms(6) show ?thesis
  proof (cases rule: read_step_cases)
    case (more chunk w b)
    have "10 \<notin> set (buf (framing s'))"
      using take_line_spec [OF framer_ok_push [OF ok(2), of chunk]] more(4) by (auto split: if_splits)
    moreover have "owed (framing s') (pend w) (a # outs)"
      using owed_take [OF owed_push more(4)] serves_read [OF ok(1) more(3)] ok(3) by auto
    ultimately have "pend w \<noteq> []" using open_line_pending by blast
    with checked [OF more(3,5)] more(6) show ?thesis by simp
  next
    case (block e w b)
    with serves_read [OF ok(1) block(1)] pending have "pend w \<noteq> []" by auto
    with checked [OF block(1,5)] block(6) show ?thesis by simp
  next
    case (intr e)
    with serves_read [OF ok(1) intr(1)] pending reads [OF intr(1)] show ?thesis by auto
  qed (use serving_step [OF assms(1,6)] serves_read [OF ok(1)] owed_take [OF owed_push] ok(3) in
      \<open>fastforce simp: timeout_error_def eof_error_def\<close>)+
qed

lemma serving_answers:
  assumes "serving E srv vst pend s v (a # outs)" "10 \<notin> set (buf (framing s))" "before clk due dl (stream s)"
    "replies E pend lull" "in_time E pend lull clk due tmo" "dl = None \<longleftrightarrow> tmo = None"
  shows "\<exists>s'. repeat (read_step E dl) s = Some (Ok a, s')"
proof -
  let ?P = "\<lambda>s. serving E srv vst pend s v (a # outs) \<and> 10 \<notin> set (buf (framing s)) \<and> before clk due dl (stream s)"
  note patient = in_time_patient [OF assms(5,6)]
  from serving_loop_returns [OF assms(1,2,4) patient] obtain x s' where
    x: "repeat (read_step E dl) s = Some (x, s')" by auto
  then have "x = Ok a"
  proof (rule repeat_invariant [where P = ?P])
    show "?P s2" if "?P s1" "read_step E dl s1 = Some (None, s2)" for s1 s2
      using that serving_progress [OF _ _ assms(4) patient, of srv vst s1 v a outs s2]
        serving_on_time [OF _ _ _ assms(5,6) that(2), of srv vst v a outs] by auto
    show "y = Ok a" if "?P s1" "read_step E dl s1 = Some (Some y, s2)" for s1 s2 y
      using that(1) serving_on_time [OF _ _ _ assms(5,6) that(2), of srv vst v a outs] by auto
  qed (use assms(1-3) in simp)
  with x show ?thesis by simp
qed

lemma serving_prompt:
  assumes "serving E srv vst pend s v (a # outs)" "replies E pend lull" "in_time E pend lull clk due tmo"
    "clock_lasts (stream_now E) tmo (stream s)"
  shows "\<exists>s'. socket_read_line E s tmo = Some (Ok a, s')"
proof -
  from assms(1) have k: "serves E srv vst pend" "socket.terminal s = None" "vst (stream s) = v"
    "owed (framing s) (pend (stream s)) (a # outs)" by (auto simp: serving_def)
  obtain x f where x: "take_line (framing s) = (x, f)" by fastforce
  from owed_take [OF k(4) x] show ?thesis
  proof (elim disjE conjE)
    assume f: "x = Ok None" "owed f (pend (stream s)) (a # outs)"
    obtain d w where d: "deadline_in (stream_now E) tmo (stream s) = (d, w)" by fastforce
    from in_time_deadline [OF assms(3) d assms(4)] obtain dl where dl: "d = Ok dl" "before clk due dl w" "dl = None \<longleftrightarrow> tmo = None"
      by blast
    from k f(2) serves_deadline [OF k(1) d] have "serving E srv vst pend (s\<lparr>framing := f, stream := w\<rparr>) v (a # outs)"
      by (simp add: serving_def)
    moreover have "10 \<notin> set (buf f)"
      using k(4) take_line_spec [of "framing s"] x f(1) by (auto simp: owed_def split: if_splits)
    ultimately show ?thesis
      using serving_answers [of E srv vst pend "s\<lparr>framing := f, stream := w\<rparr>" v a outs, OF _ _ _ assms(2,3) dl(3)] dl
        socket_read_loop [OF k(2) x [unfolded f(1)], of E tmo] d by simp
  qed (use socket_read_ready [OF k(2)] x in simp)
qed

abbreviation prompt_socket where
  "prompt_socket E srv vst pend lull clk due tmo \<equiv>
     \<lambda>s v outs. serving E srv vst pend s v outs \<and> replies E pend lull \<and> in_time E pend lull clk due tmo
       \<and> (\<forall>w. clock_lasts (stream_now E) tmo w)"

interpretation socket_prompt: prompt "socket_transport E" srv "prompt_socket E srv vst pend lull clk due tmo" tmo
  for E :: "'w stream_ops" and srv :: "'v server" and vst pend lull clk due tmo
proof unfold_locales
  fix t :: "'w socket" and v req w t' outs
  assume "prompt_socket E srv vst pend lull clk due tmo t v outs" "10 \<notin> set req"
    "write_line (socket_transport E) t (req @ [10]) = Some (w, t')"
  then show "w = Ok () \<and> prompt_socket E srv vst pend lull clk due tmo t' (snd (srv v req)) (outs @ [fst (srv v req)])"
    using socket_rpc.ans_write [of E srv vst pend t v outs req w t'] by simp
next
  fix t :: "'w socket" and v a outs limit r t'
  assume "prompt_socket E srv vst pend lull clk due tmo t v (a # outs)"
    "read_line (socket_transport E) t limit = Some (r, t')"
  then show "r = Ok a \<and> prompt_socket E srv vst pend lull clk due tmo t' v outs
      \<or> (\<exists>m. r = Err (Timeout m)) \<or> r = Panic"
    using socket_rpc.ans_read [of E srv vst pend t v a outs limit r t'] by auto
next
  fix t :: "'w socket" and v outs line
  assume "prompt_socket E srv vst pend lull clk due tmo t v outs"
  then show "write_line (socket_transport E) t line \<noteq> None"
    using replies_write [of E pend lull t line] by simp
next
  fix t :: "'w socket" and v a outs
  assume "prompt_socket E srv vst pend lull clk due tmo t v (a # outs)"
  then show "\<exists>t'. read_line (socket_transport E) t tmo = Some (Ok a, t')"
    using serving_prompt [of E srv vst pend t v a outs lull clk due tmo] by simp
qed

section \<open>Properties\<close>

text \<open>
  C1: Total correctness of a session over a socket: on a stream that does not stall, with a server behind it
  that has greeted and whose answers come out within the timeout - or without a timeout -, connecting succeeds, and
  every program of requests comes back with exactly the results of calling the server's function on them,
  one after the other - however the answers arrive, in whatever pieces, with whatever pauses.
\<close>
theorem socket_session_in_time:
  assumes "serves E srv vst pend" "replies E pend lull" "in_time E pend lull clk due (resolve opts)"
    "\<And>w. clock_lasts (stream_now E) (resolve opts) w" "pend w = hello @ [10]" "fit_line hello"
    "decode_hello hello = Ok h" "protocol h = PROTOCOL" "\<forall>q\<in>set qs. remote q"
  shows "\<exists>s w' s'. connect_socket E opts w = Some (Ok s, w') \<and> session_hello s = h
    \<and> perform_all (socket_transport E) qs s = Some (rpc_all srv qs (vst w), s')"
proof -
  from serving_fresh [of E srv vst pend w hello] assms
  have "prompt_socket E srv vst pend lull clk due (resolve opts) (from_stream w) (vst w) [hello]" by simp
  from socket_prompt.new_prompt [OF this assms(7,8)] obtain s c where
    "session_new (socket_transport E) (from_stream w) (resolve opts) = Some (Ok s, c)" "session_hello s = h"
    "socket_prompt.steady E srv vst pend lull clk due (resolve opts) s (vst w)" by blast
  with socket_prompt.perform_all_prompt [OF this(3) assms(9)] show ?thesis
    by (auto simp: connect_socket_def greet_def)
qed

text \<open>Without a timeout nothing has to be known of the time.\<close>

lemma in_time_never [simp]: "in_time E pend lull clk due None"
  by (simp add: in_time_def)

lemma socket_session_total:
  assumes "serves E srv vst pend" "replies E pend lull" "pend w = hello @ [10]" "fit_line hello"
    "decode_hello hello = Ok h" "protocol h = PROTOCOL" "resolve opts = None" "\<forall>q\<in>set qs. remote q"
  shows "\<exists>s w' s'. connect_socket E opts w = Some (Ok s, w') \<and> session_hello s = h
    \<and> perform_all (socket_transport E) qs s = Some (rpc_all srv qs (vst w), s')"
proof -
  from serving_fresh [of E srv vst pend w hello] assms
  have "prompt_socket E srv vst pend lull undefined undefined None (from_stream w) (vst w) [hello]" by simp
  from socket_prompt.new_prompt [OF this assms(5,6)] obtain s c where
    "session_new (socket_transport E) (from_stream w) None = Some (Ok s, c)" "session_hello s = h"
    "socket_prompt.steady E srv vst pend lull undefined undefined None s (vst w)" by blast
  with socket_prompt.perform_all_prompt [OF this(3) assms(8)] assms(7) show ?thesis
    by (auto simp: connect_socket_def greet_def)
qed

text \<open>
  C3: With any timeouts, on a stream that may stall: the results of a session over a socket are those of
  the server's function, in order, until at most one timeout; after it every request is refused, so no
  answer is ever taken for that of another request. A panic ends the results (that of a deadline past the end of
  the clock is one the code can reach).
\<close>
theorem socket_session_served:
  assumes "serves E srv vst pend" "pend w = hello @ [10]" "fit_line hello"
    "connect_socket E opts w = Some (Ok s, w')" "\<forall>q\<in>set qs. remote q"
    "perform_all (socket_transport E) qs s = Some (rs, s')"
  shows "served srv (vst w) qs rs"
proof -
  from assms(4) obtain c where "session_new (socket_transport E) (from_stream w) (resolve opts) = Some (Ok s, c)"
    by (auto simp: connect_socket_def greet_def)
  with serving_fresh [OF assms(1-3)] have "socket_rpc.in_step E srv vst pend s (vst w)"
    by (rule socket_rpc.new_in_step)
  from socket_rpc.perform_all_served [OF this assms(5,6)] show ?thesis .
qed

section \<open>Example\<close>

text \<open>
  A stream to a server that gives one byte at a time and is interrupted before every one. Its world:
  the server's state, what is pending, and whether the next read is interrupted.
\<close>

definition drip :: "(bool \<times> bytes \<times> bool) stream_ops" where
  "drip =
     \<lparr>stream_read = (\<lambda>(v, p, calm) n.
        if calm then (case p of [] \<Rightarrow> None | b # bs \<Rightarrow> Some (Ok [b], (v, bs, False)))
        else Some (Err \<lparr>kind = Interrupted, io_text = []\<rparr>, (v, p, True))),
      stream_write_all = (\<lambda>(v, p, calm) line.
        case toggling v (butlast line) of (a, v') \<Rightarrow> Some (Ok (), (v', p @ a @ [10], calm))),
      stream_flush = (\<lambda>w. Some (Ok (), w)),
      stream_now = (\<lambda>w. (0, w))\<rparr>"

lemma drip_serves: "serves drip toggling fst (\<lambda>(v, p, calm). p)"
proof -
  have "fit_line (fst (toggling v req))" for v req by (rule toggling_fits)
  then show ?thesis
    unfolding serves_def case_prod_unfold
    by (auto simp: drip_def BUF_SIZE_def case_prod_unfold split: list.splits if_splits)
qed

lemma drip_replies: "replies drip (\<lambda>(v, p, calm). p) (\<lambda>(v, p, calm). if calm then 0 else 1)"
  by (auto simp: replies_def drip_def split: list.splits if_splits prod.splits)

abbreviation no_timeout :: socket_options where
  "no_timeout \<equiv> with_sock_timeout socket_options_new None"

lemma socket_session_total_witness:
  "\<exists>s w s'. connect_socket drip no_timeout (True, greeting @ [10], False) = Some (Ok s, w)
    \<and> perform_all (socket_transport drip) three_requests s =
        Some ([Ok (TablesReply \<lparr>tables_of = [str ''t'']\<rparr>), Ok Done, Ok (TablesReply \<lparr>tables_of = [str ''t'']\<rparr>)], s')"
  using socket_session_total [OF drip_serves drip_replies _ greeting_fits decode_greeting,
      of "(True, greeting @ [10], False)" no_timeout three_requests]
  unfolding fst_conv toggled_program
  by (simp add: greeted_def PROTOCOL_def resolve_def with_sock_timeout_def del: perform_all.simps str_def) blast

text \<open>
  A stream whose server takes ten seconds for every answer, and then gives it byte by byte; the world has the time.
\<close>

definition slow :: "(bool \<times> bytes \<times> bool \<times> instant) stream_ops" where
  "slow =
     \<lparr>stream_read = (\<lambda>(v, p, calm, time) n.
        if calm then (case p of [] \<Rightarrow> None | b # bs \<Rightarrow> Some (Ok [b], (v, bs, True, time)))
        else Some (Err \<lparr>kind = WouldBlock, io_text = []\<rparr>, (v, p, True, time + 10 * 10 ^ 9))),
      stream_write_all = (\<lambda>(v, p, calm, time) line.
        case toggling v (butlast line) of (a, v') \<Rightarrow> Some (Ok (), (v', p @ a @ [10], False, time))),
      stream_flush = (\<lambda>w. Some (Ok (), w)),
      stream_now = (\<lambda>(v, p, calm, time). (min time (2 ^ 62), (v, p, calm, time)))\<rparr>"

abbreviation slow_pend :: "bool \<times> bytes \<times> bool \<times> instant \<Rightarrow> bytes" where
  "slow_pend \<equiv> \<lambda>(v, p, calm, time). p"

abbreviation slow_lull :: "bool \<times> bytes \<times> bool \<times> instant \<Rightarrow> nat" where
  "slow_lull \<equiv> \<lambda>(v, p, calm, time). if calm then 0 else 1"

lemma slow_serves: "serves slow toggling fst slow_pend"
proof -
  have "fit_line (fst (toggling v req))" for v req by (rule toggling_fits)
  then show ?thesis
    unfolding serves_def case_prod_unfold
    by (auto simp: slow_def BUF_SIZE_def case_prod_unfold split: list.splits if_splits)
qed

lemma slow_replies: "replies slow slow_pend slow_lull"
  by (auto simp: replies_def slow_def split: list.splits if_splits prod.splits)

lemma slow_in_time:
  "in_time slow slow_pend slow_lull (\<lambda>(v, p, calm, time). min time (2 ^ 62))
     (\<lambda>(v, p, calm, time). if calm then 0 else 10 * 10 ^ 9) (Some DEFAULT_TIMEOUT)"
  unfolding in_time_def option.case
  by (auto simp: slow_def DEFAULT_TIMEOUT_def INSTANT_END_def split: list.splits if_splits prod.splits)

lemma slow_lasts: "clock_lasts (stream_now slow) (resolve socket_options_new) w"
  by (cases w) (auto simp: clock_lasts_def slow_def resolve_def socket_options_new_def DEFAULT_TIMEOUT_def INSTANT_END_def)

lemma socket_session_in_time_witness:
  "\<exists>s w s'. connect_socket slow socket_options_new (True, greeting @ [10], False, 7) = Some (Ok s, w)
    \<and> perform_all (socket_transport slow) three_requests s =
        Some ([Ok (TablesReply \<lparr>tables_of = [str ''t'']\<rparr>), Ok Done, Ok (TablesReply \<lparr>tables_of = [str ''t'']\<rparr>)], s')"
proof -
  have "resolve socket_options_new = Some DEFAULT_TIMEOUT" by (simp add: resolve_def socket_options_new_def)
  with slow_in_time socket_session_in_time [OF slow_serves slow_replies _ slow_lasts _ greeting_fits decode_greeting,
      of _ _ "(True, greeting @ [10], False, 7)" three_requests]
  show ?thesis
    unfolding fst_conv toggled_program
    by (simp add: greeted_def PROTOCOL_def del: perform_all.simps str_def) blast
qed

lemma socket_session_served_witness:
  "\<exists>s w rs s'. connect_socket drip no_timeout (True, greeting @ [10], False) = Some (Ok s, w)
    \<and> perform_all (socket_transport drip) three_requests s = Some (rs, s') \<and> served toggling True three_requests rs"
proof -
  let ?w = "(True, greeting @ [10], False)"
  have "prompt_socket drip toggling fst (\<lambda>(v, p, calm). p) (\<lambda>(v, p, calm). if calm then 0 else 1)
      undefined undefined None (from_stream ?w) True [greeting]"
    using serving_fresh [OF drip_serves, of ?w greeting] greeting_fits drip_replies by simp
  from socket_prompt.new_prompt [OF this decode_greeting] obtain s c where
    s: "session_new (socket_transport drip) (from_stream ?w) None = Some (Ok s, c)"
      "socket_prompt.steady drip toggling fst (\<lambda>(v, p, calm). p) (\<lambda>(v, p, calm). if calm then 0 else 1)
        undefined undefined None s True"
    by (auto simp: greeted_def PROTOCOL_def)
  then have c: "connect_socket drip no_timeout ?w = Some (Ok s, stream c)"
    by (simp add: connect_socket_def greet_def resolve_def with_sock_timeout_def)
  from socket_prompt.perform_all_prompt [OF s(2), of three_requests] obtain rs s' where
    rs: "perform_all (socket_transport drip) three_requests s = Some (rs, s')" by auto
  have "served toggling True three_requests rs"
    using socket_session_served [OF drip_serves _ greeting_fits c _ rs] by simp
  with c rs show ?thesis by blast
qed

end
