(* ===== verification/ChildRpc.thy ===== *)
theory ChildRpc
  imports Owed ReaderThread Client
begin

text \<open>
  A session over a child process is a client of the server that runs in it: the answers go through the
  child's output, the reader thread and the channel, interleaved as they may be, and come back as the
  results of the requests they answer.
\<close>

section \<open>The thread on its own\<close>

text \<open>What happens to a pipe while the caller does something else.\<close>

definition quiet :: "pipe \<Rightarrow> pipe \<Rightarrow> bool" where
  "quiet = (\<lambda>p p'. pipe_step p p' \<and> received p' = received p \<and> dropped p' = dropped p)\<^sup>*\<^sup>*"

text \<open>\<open>gives p i p'\<close>: meanwhile the caller takes the item \<open>i\<close> out of the channel.\<close>

definition gives :: "pipe \<Rightarrow> item \<Rightarrow> pipe \<Rightarrow> bool" where
  "gives p i p' \<longleftrightarrow> (\<exists>p1. quiet p p1 \<and> slot p1 = Some i \<and> quiet (p1\<lparr>slot := None, received := received p1 @ [i]\<rparr>) p')"

text \<open>
  \<open>flows p outs\<close>: the lines \<open>outs\<close>, and nothing else, are on their way: in the slot, in the hands of
  the thread, in its framer, or still to be read.
\<close>

fun in_hand :: "thread \<Rightarrow> framer \<Rightarrow> bytes list \<Rightarrow> bool" where
  "in_hand Reading f ls \<longleftrightarrow> ls = [] \<and> 10 \<notin> set (buf f)"
| "in_hand Taking f ls \<longleftrightarrow> ls = []"
| "in_hand (Sending (Line l)) f ls \<longleftrightarrow> ls = [l]"
| "in_hand (Sending (Terminal e)) f ls \<longleftrightarrow> False"
| "in_hand Ended f ls \<longleftrightarrow> False"

definition flows :: "pipe \<Rightarrow> bytes list \<Rightarrow> bool" where
  "flows p outs \<longleftrightarrow> \<not> dropped p \<and>
     (\<exists>cs sl th rest. source p = map Ok cs \<and> [] \<notin> set cs \<and> slot_items p = map Line sl
        \<and> in_hand (thread p) (lines_in p) th \<and> owed (lines_in p) (concat cs) rest \<and> outs = sl @ th @ rest)"

lemma flowsI:
  "\<not> dropped p \<Longrightarrow> source p = map Ok cs \<Longrightarrow> [] \<notin> set cs \<Longrightarrow> slot_items p = map Line sl \<Longrightarrow>
     in_hand (thread p) (lines_in p) th \<Longrightarrow> owed (lines_in p) (concat cs) later \<Longrightarrow> outs = sl @ th @ later \<Longrightarrow> flows p outs"
  unfolding flows_def by blast

lemma flows_step:
  assumes "pipe_step p p'" "received p' = received p" "dropped p' = dropped p" "flows p outs"
  shows "flows p' outs"
proof -
  from assms(4) obtain cs sl th rest where k: "\<not> dropped p" "source p = map Ok cs" "[] \<notin> set cs"
    "slot_items p = map Line sl" "in_hand (thread p) (lines_in p) th" "owed (lines_in p) (concat cs) rest"
    "outs = sl @ th @ rest" by (auto simp: flows_def)
  from assms(1) show ?thesis
  proof cases
    case (read r rs q f)
    with k(2) obtain c cs' where c: "cs = c # cs'" "r = Ok c" "rs = map Ok cs'" by auto
    with read(4) k(3) have q: "q = Taking" "f = push (lines_in p) c" by (auto split: if_splits)
    have "owed f (concat cs') rest" using owed_push [of "lines_in p" c] k(6) c(1) q(2) by simp
    with read k c q show ?thesis
      by (intro flowsI [where cs = cs' and sl = sl and th = "[]" and later = rest]) auto
  next
    case (take_one q f)
    obtain x g where x: "take_line (lines_in p) = (x, g)" by fastforce
    show ?thesis
    proof (cases rest)
      case Nil
      with owed_nothing [OF _ x] k(6) take_one(3) x have "q = Reading" "f = g" "owed g (concat cs) []" "10 \<notin> set (buf g)"
        by (auto simp: after_take_def)
      with take_one k Nil show ?thesis
        by (intro flowsI [where cs = cs and sl = sl and th = "[]" and later = "[]"]) auto
    next
      case (Cons a rest')
      from owed_take [OF k(6) [unfolded Cons] x] show ?thesis
      proof (elim disjE conjE)
        assume "x = Ok (Some a)" "owed g (concat cs) rest'"
        with take_one k Cons x show ?thesis
          by (intro flowsI [where cs = cs and sl = sl and th = "[a]" and later = rest']) (auto simp: after_take_def)
      next
        assume n: "x = Ok None" "owed g (concat cs) (a # rest')"
        then have "10 \<notin> set (buf g)" using take_line_None x k(6) by (auto simp: owed_def)
        with take_one k Cons x n show ?thesis
          by (intro flowsI [where cs = cs and sl = sl and th = "[]" and later = rest]) (auto simp: after_take_def)
      qed
    qed
  next
    case (send i)
    with k(5) obtain l where l: "i = Line l" "th = [l]" by (cases i) auto
    with send k show ?thesis
      by (intro flowsI [where cs = cs and sl = "[l]" and th = "[]" and later = rest]) auto
  qed (use assms(2,3) k(1) in auto)
qed

lemma flows_quiet: "quiet p p' \<Longrightarrow> flows p outs \<Longrightarrow> flows p' outs"
  unfolding quiet_def by (induction rule: rtranclp_induct) (use flows_step in blast)+

lemma flows_recv:
  assumes "flows p outs" "slot p = Some i"
  obtains a outs' where "outs = a # outs'" "i = Line a" "flows (p\<lparr>slot := None, received := received p @ [i]\<rparr>) outs'"
proof -
  from assms(1) obtain cs sl th rest where k: "\<not> dropped p" "source p = map Ok cs" "[] \<notin> set cs"
    "slot_items p = map Line sl" "in_hand (thread p) (lines_in p) th" "owed (lines_in p) (concat cs) rest"
    "outs = sl @ th @ rest" by (auto simp: flows_def)
  with assms(2) obtain a where "sl = [a]" "i = Line a" by (cases sl) auto
  with k show ?thesis
    by (intro that [of a "th @ rest"]) (auto simp: flows_def)
qed

lemma flows_gives:
  assumes "gives p i p'" "flows p outs"
  obtains a outs' where "outs = a # outs'" "i = Line a" "flows p' outs'"
proof -
  from assms(1) obtain p1 where p1: "quiet p p1" "slot p1 = Some i"
    "quiet (p1\<lparr>slot := None, received := received p1 @ [i]\<rparr>) p'" by (auto simp: gives_def)
  from flows_quiet [OF p1(1) assms(2)] p1(2) obtain a outs' where "outs = a # outs'" "i = Line a"
    "flows (p1\<lparr>slot := None, received := received p1 @ [i]\<rparr>) outs'" by (rule flows_recv)
  with flows_quiet [OF p1(3)] show ?thesis using that by blast
qed

lemma flows_answer:
  assumes "flows p outs" "fit_line a" "concat cs = a @ [10]" "[] \<notin> set cs"
  shows "flows (p\<lparr>source := source p @ map Ok cs\<rparr>) (outs @ [a])"
proof -
  from assms(1) obtain cs' sl th rest where k: "\<not> dropped p" "source p = map Ok cs'" "[] \<notin> set cs'"
    "slot_items p = map Line sl" "in_hand (thread p) (lines_in p) th" "owed (lines_in p) (concat cs') rest"
    "outs = sl @ th @ rest" by (auto simp: flows_def)
  from owed_answer [OF k(6) assms(2)] k assms(3,4) show ?thesis
    by (intro flowsI [where cs = "cs' @ cs" and sl = sl and th = th and later = "rest @ [a]"]) auto
qed

lemma flows_greeting:
  "concat cs = hello @ [10] \<Longrightarrow> [] \<notin> set cs \<Longrightarrow> fit_line hello \<Longrightarrow> flows (spawn (map Ok cs)) [hello]"
  by (intro flowsI [where cs = cs and sl = "[]" and th = "[]" and later = "[hello]"]) (auto simp: spawn_def new_framer_def owed_def framer_ok_def)

lemma flows_alive: "flows p outs \<Longrightarrow> thread p \<noteq> Ended"
  by (auto simp: flows_def)

text \<open>While an answer is on its way, something can still happen.\<close>

lemma flows_moves:
  assumes "flows p (a # outs)"
  shows "\<exists>p'. pipe_step p p' \<and> \<not> dropped p'"
proof (rule ccontr)
  assume stuck: "\<not> ?thesis"
  from assms obtain cs sl th rest where k: "\<not> dropped p" "source p = map Ok cs"
    "slot_items p = map Line sl" "in_hand (thread p) (lines_in p) th" "owed (lines_in p) (concat cs) rest"
    "a # outs = sl @ th @ rest" by (auto simp: flows_def)
  from pipe_at_rest [OF k(1) stuck] flows_alive [OF assms] have
    p: "slot p = None" "thread p = Reading" "source p = []" by auto
  with k have "rest = a # outs" "10 \<notin> set (buf (lines_in p))" "cs = []" by auto
  with k(5) show False by (auto simp: owed_def)
qed

section \<open>A child with a server in it\<close>

text \<open>
  \<open>vst w\<close> is the state of the server, \<open>pp w\<close> the pipe from its output to the caller. A line written
  is a request, answered by one line that fits the cap, which the child puts out in some pieces and
  the thread may read as it likes; the calls of the caller leave the pipe to the thread, and a
  receive takes what is in the slot, or finds the thread ended.
\<close>

definition child_serves ::
  "('w, 'k) process_ops \<Rightarrow> 'v server \<Rightarrow> ('w \<Rightarrow> 'v) \<Rightarrow> ('w \<Rightarrow> pipe) \<Rightarrow> bool" where
  "child_serves E srv vst pp \<longleftrightarrow>
     (\<forall>w req r w'. 10 \<notin> set req \<longrightarrow> stdin_write_all E w (req @ [10]) = Some (r, w') \<longrightarrow>
        (case srv (vst w) req of (a, v) \<Rightarrow> r = Ok () \<and> vst w' = v \<and> fit_line a
           \<and> (\<exists>p cs. quiet (pp w) p \<and> concat cs = a @ [10] \<and> [] \<notin> set cs
                \<and> quiet (p\<lparr>source := source p @ map Ok cs\<rparr>) (pp w'))))
     \<and> (\<forall>w r w'. stdin_flush E w = Some (r, w') \<longrightarrow> r = Ok () \<and> vst w' = vst w \<and> quiet (pp w) (pp w'))
     \<and> (\<forall>w i w'. now (channel E) w = (i, w') \<longrightarrow> vst w' = vst w \<and> quiet (pp w) (pp w'))
     \<and> (\<forall>w x w'. \<not> dropped (pp w) \<longrightarrow> recv (channel E) w = Some (x, w') \<longrightarrow> vst w' = vst w \<and>
          (case x of Some i \<Rightarrow> gives (pp w) i (pp w') | None \<Rightarrow> quiet (pp w) (pp w') \<and> thread (pp w') = Ended))
     \<and> (\<forall>w t x w'. \<not> dropped (pp w) \<longrightarrow> recv_timeout (channel E) w t = (x, w') \<longrightarrow> vst w' = vst w \<and>
          (case x of
             Ok i \<Rightarrow> gives (pp w) i (pp w')
           | Err RecvTimeout \<Rightarrow> quiet (pp w) (pp w')
           | Err Disconnected \<Rightarrow> quiet (pp w) (pp w') \<and> thread (pp w') = Ended
           | Panic \<Rightarrow> False))"

lemma child_write:
  "child_serves E srv vst pp \<Longrightarrow> 10 \<notin> set req \<Longrightarrow> stdin_write_all E w (req @ [10]) = Some (r, w') \<Longrightarrow>
     r = Ok () \<and> vst w' = snd (srv (vst w) req) \<and> fit_line (fst (srv (vst w) req))
     \<and> (\<exists>p cs. quiet (pp w) p \<and> concat cs = fst (srv (vst w) req) @ [10] \<and> [] \<notin> set cs
          \<and> quiet (p\<lparr>source := source p @ map Ok cs\<rparr>) (pp w'))"
  unfolding child_serves_def case_prod_unfold by blast

lemma child_flush:
  "child_serves E srv vst pp \<Longrightarrow> stdin_flush E w = Some (r, w') \<Longrightarrow> r = Ok () \<and> vst w' = vst w \<and> quiet (pp w) (pp w')"
  unfolding child_serves_def by blast

lemma child_now:
  "child_serves E srv vst pp \<Longrightarrow> now (channel E) w = (i, w') \<Longrightarrow> vst w' = vst w \<and> quiet (pp w) (pp w')"
  unfolding child_serves_def by blast

lemma child_recv:
  "child_serves E srv vst pp \<Longrightarrow> \<not> dropped (pp w) \<Longrightarrow> recv (channel E) w = Some (x, w') \<Longrightarrow> vst w' = vst w \<and>
     (case x of Some i \<Rightarrow> gives (pp w) i (pp w') | None \<Rightarrow> quiet (pp w) (pp w') \<and> thread (pp w') = Ended)"
  unfolding child_serves_def by blast

lemma child_recv_timeout:
  "child_serves E srv vst pp \<Longrightarrow> \<not> dropped (pp w) \<Longrightarrow> recv_timeout (channel E) w t = (x, w') \<Longrightarrow> vst w' = vst w \<and>
     (case x of
        Ok i \<Rightarrow> gives (pp w) i (pp w')
      | Err RecvTimeout \<Rightarrow> quiet (pp w) (pp w')
      | Err Disconnected \<Rightarrow> quiet (pp w) (pp w') \<and> thread (pp w') = Ended
      | Panic \<Rightarrow> False)"
  unfolding child_serves_def by blast

lemma quiet_trans: "quiet p q \<Longrightarrow> quiet q r \<Longrightarrow> quiet p r"
  unfolding quiet_def by (rule rtranclp_trans)

lemma quiet_refl [simp]: "quiet p p"
  by (simp add: quiet_def)

lemma child_clock:
  assumes "child_serves E srv vst pp"
  shows "timed_out (now (channel E)) dl w = (b, w') \<Longrightarrow> vst w' = vst w \<and> quiet (pp w) (pp w')"
    "deadline_in (now (channel E)) tmo w = (d, w') \<Longrightarrow> vst w' = vst w \<and> quiet (pp w) (pp w')"
  using assms by (cases dl; auto split: prod.splits dest: child_now)
    (use assms in \<open>cases tmo; auto split: prod.splits dest: child_now\<close>)

text \<open>
  \<open>awaiting E srv vst pp w v outs\<close>: in the world \<open>w\<close> the server is in state \<open>v\<close> and \<open>outs\<close> is on its way.
\<close>

definition awaiting ::
  "('w, 'k) process_ops \<Rightarrow> 'v server \<Rightarrow> ('w \<Rightarrow> 'v) \<Rightarrow> ('w \<Rightarrow> pipe) \<Rightarrow> 'w \<Rightarrow> 'v \<Rightarrow> bytes list \<Rightarrow> bool" where
  "awaiting E srv vst pp w v outs \<longleftrightarrow> child_serves E srv vst pp \<and> vst w = v \<and> flows (pp w) outs"

lemma awaiting_receive:
  assumes "awaiting E srv vst pp w v outs" "receive (channel E) dl w = Some (x, w')"
  shows "(\<exists>a outs'. outs = a # outs' \<and> x = Ok (Line a) \<and> awaiting E srv vst pp w' v outs')
    \<or> x = Err RecvTimeout \<and> dl \<noteq> None \<and> awaiting E srv vst pp w' v outs"
proof -
  from assms(1) have k: "child_serves E srv vst pp" "vst w = v" "flows (pp w) outs" by (auto simp: awaiting_def)
  have given: "\<exists>a outs'. outs = a # outs' \<and> i = Line a \<and> flows p outs'" if "gives q i p" "flows q outs" for i p q
    using flows_gives [OF that] by metis
  have nd: "flows p outs \<Longrightarrow> \<not> dropped p" for p by (simp add: flows_def)
  show ?thesis
  proof (cases dl)
    case None
    with assms(2) obtain y where y: "recv (channel E) w = Some (y, w')" "x = ok_or y Disconnected"
      by (auto simp: receive_def)
    note r = child_recv [OF k(1) nd [OF k(3)] y(1)]
    show ?thesis
    proof (cases y)
      case None
      with r flows_quiet [OF _ k(3)] flows_alive show ?thesis by auto
    next
      case (Some i)
      with r y given [OF _ k(3)] k show ?thesis by (auto simp: awaiting_def)
    qed
  next
    case (Some d)
    obtain i w1 where i: "now (channel E) w = (i, w1)" by fastforce
    with assms(2) Some have r: "recv_timeout (channel E) w1 (d - i) = (x, w')" by (simp add: receive_def)
    from child_now [OF k(1) i] k flows_quiet have w1: "vst w1 = v" "flows (pp w1) outs" by auto
    note r' = child_recv_timeout [OF k(1) nd [OF w1(2)] r]
    show ?thesis
    proof (cases x)
      case (Ok i)
      with r' given [OF _ w1(2)] k w1 show ?thesis by (auto simp: awaiting_def)
    next
      case (Err e)
      with r' w1 k flows_quiet [OF _ w1(2)] flows_alive Some show ?thesis
        by (cases e) (auto simp: awaiting_def)
    qed (use r' in simp)
  qed
qed

lemma awaiting_step:
  assumes "awaiting E srv vst pp w v (a # outs)" "recv_step (channel E) dl (w, rd) = Some (r, w', rd')"
  shows "rd' = rd \<and> (r = None \<and> awaiting E srv vst pp w' v (a # outs)
    \<or> r = Some (Ok a) \<and> awaiting E srv vst pp w' v outs
    \<or> r = Some (Err timeout_error) \<and> dl \<noteq> None \<and> awaiting E srv vst pp w' v (a # outs))"
  using assms(2)
proof (cases rule: recv_step_cases)
  case (time w1 b)
  from awaiting_receive [OF assms(1) time(1)] have w1: "dl \<noteq> None" "awaiting E srv vst pp w1 v (a # outs)" by auto
  from w1(2) have k: "child_serves E srv vst pp" "vst w1 = v" "flows (pp w1) (a # outs)" by (auto simp: awaiting_def)
  from child_clock(1) [OF k(1) time(2)] k flows_quiet have "awaiting E srv vst pp w' v (a # outs)"
    by (auto simp: awaiting_def)
  with time w1(1) show ?thesis by auto
qed (use awaiting_receive [OF assms(1)] in fastforce)+

lemma awaiting_read:
  assumes "awaiting E srv vst pp w v (a # outs)" "terminal rd = None"
    "reader_read_line (channel E) (w, rd) tmo = Some (r, w', rd')"
  shows "r = Ok a \<and> awaiting E srv vst pp w' v outs \<and> rd' = rd
    \<or> r = Err timeout_error \<and> awaiting E srv vst pp w' v (a # outs) \<and> rd' = rd \<or> r = Panic"
proof -
  from assms(1) have k: "child_serves E srv vst pp" "vst w = v" "flows (pp w) (a # outs)" by (auto simp: awaiting_def)
  obtain d w1 where d: "deadline_in (now (channel E)) tmo w = (d, w1)" by fastforce
  from child_clock(2) [OF k(1) d] k flows_quiet have w1: "awaiting E srv vst pp w1 v (a # outs)"
    by (auto simp: awaiting_def)
  note eq = assms(3) [unfolded reader_read_line_def prod.case assms(2) option.case d]
  show ?thesis
  proof (cases d)
    case (Ok dl)
    with eq have "repeat (recv_step (channel E) dl) (w1, rd) = Some (r, w', rd')" by simp
    then have "r = Ok a \<and> awaiting E srv vst pp (fst (w', rd')) v outs \<and> snd (w', rd') = rd
        \<or> r = Err timeout_error \<and> awaiting E srv vst pp (fst (w', rd')) v (a # outs) \<and> snd (w', rd') = rd"
    proof (rule repeat_invariant [where P = "\<lambda>s. awaiting E srv vst pp (fst s) v (a # outs) \<and> snd s = rd"])
      fix s s'
      assume "awaiting E srv vst pp (fst s) v (a # outs) \<and> snd s = rd" "recv_step (channel E) dl s = Some (None, s')"
      with awaiting_step [of E srv vst pp "fst s" v a outs dl "snd s" None "fst s'" "snd s'"]
      show "awaiting E srv vst pp (fst s') v (a # outs) \<and> snd s' = rd" by auto
    next
      fix s s' x
      assume "awaiting E srv vst pp (fst s) v (a # outs) \<and> snd s = rd" "recv_step (channel E) dl s = Some (Some x, s')"
      with awaiting_step [of E srv vst pp "fst s" v a outs dl "snd s" "Some x" "fst s'" "snd s'"]
      show "x = Ok a \<and> awaiting E srv vst pp (fst s') v outs \<and> snd s' = rd
          \<or> x = Err timeout_error \<and> awaiting E srv vst pp (fst s') v (a # outs) \<and> snd s' = rd" by auto
    qed (use w1 in simp)
    then show ?thesis by auto
  next
    case (Err e)
    with d show ?thesis by (cases tmo) (auto simp: add_instant_def split: prod.splits if_splits)
  next
    case Panic
    with eq show ?thesis by simp
  qed
qed

definition child_serving ::
  "('w, 'k) process_ops \<Rightarrow> 'v server \<Rightarrow> ('w \<Rightarrow> 'v) \<Rightarrow> ('w \<Rightarrow> pipe) \<Rightarrow> 'w direct \<Rightarrow> 'v \<Rightarrow> bytes list \<Rightarrow> bool" where
  "child_serving E srv vst pp s v outs \<longleftrightarrow>
     stdin s \<and> (\<exists>rd. line_reader s = Some rd \<and> terminal rd = None) \<and> awaiting E srv vst pp (world s) v outs"

lemma child_serving_write:
  assumes "child_serving E srv vst pp s v outs" "10 \<notin> set req" "direct_write_line E s (req @ [10]) = Some (r, s')"
  shows "r = Ok () \<and> child_serving E srv vst pp s' (snd (srv v req)) (outs @ [fst (srv v req)])"
proof -
  from assms(1) have k: "stdin s" "child_serves E srv vst pp" "vst (world s) = v" "flows (pp (world s)) outs"
    by (auto simp: child_serving_def awaiting_def)
  from assms(3) k(1) obtain r1 w1 where w1: "stdin_write_all E (world s) (req @ [10]) = Some (r1, w1)"
    by (auto simp: direct_write_line_def split: bind_splits)
  from child_write [OF k(2) assms(2) w1] k(3) obtain p cs where
    p: "r1 = Ok ()" "vst w1 = snd (srv v req)" "fit_line (fst (srv v req))" "quiet (pp (world s)) p"
      "concat cs = fst (srv v req) @ [10]" "[] \<notin> set cs" "quiet (p\<lparr>source := source p @ map Ok cs\<rparr>) (pp w1)" by auto
  from flows_quiet [OF p(7) flows_answer [OF flows_quiet [OF p(4) k(4)] p(3,5,6)]]
  have f: "flows (pp w1) (outs @ [fst (srv v req)])" .
  from assms(3) k(1) w1 p(1) obtain r2 w2 where w2: "stdin_flush E w1 = Some (r2, w2)" "r = map_err from_io r2"
      "s' = s\<lparr>world := w2\<rparr>"
    by (auto simp: direct_write_line_def split: bind_splits)
  from child_flush [OF k(2) w2(1)] flows_quiet [OF _ f] p(2) w2(2,3) k(1,2) assms(1) show ?thesis
    by (auto simp: child_serving_def awaiting_def)
qed

lemma child_serving_read:
  assumes "child_serving E srv vst pp s v (a # outs)" "direct_read_line E s tmo = Some (r, s')"
  shows "r = Ok a \<and> child_serving E srv vst pp s' v outs
    \<or> r = Err timeout_error \<and> child_serving E srv vst pp s' v (a # outs) \<or> r = Panic"
proof -
  from assms(1) obtain rd where k: "line_reader s = Some rd" "terminal rd = None"
    "awaiting E srv vst pp (world s) v (a # outs)" by (auto simp: child_serving_def)
  from assms(2) k(1) obtain w' rd' where
    "reader_read_line (channel E) (world s, rd) tmo = Some (r, w', rd')" "s' = s\<lparr>world := w', line_reader := Some rd'\<rparr>"
    by (auto simp: direct_read_line_def)
  with awaiting_read [OF k(3,2) this(1)] k assms(1) show ?thesis by (auto simp: child_serving_def)
qed

interpretation child_rpc: answering "direct_transport E" srv "child_serving E srv vst pp"
  for E :: "('w, 'k) process_ops" and srv :: "'v server" and vst pp
proof unfold_locales
  fix t :: "'w direct" and v req w t' outs
  assume "child_serving E srv vst pp t v outs" "10 \<notin> set req"
    "write_line (direct_transport E) t (req @ [10]) = Some (w, t')"
  then show "w = Ok () \<and> child_serving E srv vst pp t' (snd (srv v req)) (outs @ [fst (srv v req)])"
    using child_serving_write by simp
next
  fix t :: "'w direct" and v a outs tmo r t'
  assume "child_serving E srv vst pp t v (a # outs)" "read_line (direct_transport E) t tmo = Some (r, t')"
  with child_serving_read show "r = Ok a \<and> child_serving E srv vst pp t' v outs \<or> (\<exists>m. r = Err (Timeout m)) \<or> r = Panic"
    using timeout_error_is_Timeout by fastforce
qed

section \<open>A child that does not stall\<close>

text \<open>
  Writes and flushes return, and a receive without a timeout waits forever only when the thread comes
  to rest with nothing to do.
\<close>

definition child_lively :: "('w, 'k) process_ops \<Rightarrow> ('w \<Rightarrow> pipe) \<Rightarrow> bool" where
  "child_lively E pp \<longleftrightarrow>
     (\<forall>w line. stdin_write_all E w line \<noteq> None) \<and> (\<forall>w. stdin_flush E w \<noteq> None)
     \<and> (\<forall>w. \<not> dropped (pp w) \<longrightarrow> recv (channel E) w = None \<longrightarrow>
          (\<exists>p. quiet (pp w) p \<and> (\<nexists>p'. pipe_step p p' \<and> \<not> dropped p')))"

lemma lively_write:
  assumes "child_lively E pp" "stdin s"
  shows "direct_write_line E s line \<noteq> None"
proof -
  from assms(1) obtain r w where w: "stdin_write_all E (world s) line = Some (r, w)"
    unfolding child_lively_def by fastforce
  from assms(1) obtain r' w' where "stdin_flush E w = Some (r', w')" unfolding child_lively_def by fastforce
  with w assms(2) show ?thesis by (cases r) (simp_all add: direct_write_line_def)
qed

lemma lively_recv:
  assumes "child_lively E pp" "awaiting E srv vst pp w v (a # outs)"
  shows "recv (channel E) w \<noteq> None"
proof
  assume "recv (channel E) w = None"
  moreover from assms(2) have f: "flows (pp w) (a # outs)" "\<not> dropped (pp w)" by (auto simp: awaiting_def flows_def)
  ultimately obtain p where "quiet (pp w) p" "\<nexists>p'. pipe_step p p' \<and> \<not> dropped p'"
    using assms(1) unfolding child_lively_def by blast
  with flows_moves [OF flows_quiet [OF _ f(1)]] show False by blast
qed

text \<open>
  \<open>child_in_time E pp clk c lull due tmo\<close>: by the clock \<open>clk\<close>, to look at which takes at most \<open>c\<close>, what is on its way
  comes within \<open>due w\<close>. A receive may give up early (\<open>recv_timeout\<close> is documented to), \<open>lull w\<close> times
  at most and while the item still has time to come; otherwise a receive that is given the time \<open>due w\<close>
  gives up only when the thread comes to rest with nothing to do. The timeout \<open>tmo\<close> leaves that much.
\<close>

definition child_in_time ::
  "('w, 'k) process_ops \<Rightarrow> ('w \<Rightarrow> pipe) \<Rightarrow> ('w \<Rightarrow> instant) \<Rightarrow> duration \<Rightarrow> ('w \<Rightarrow> nat) \<Rightarrow> ('w \<Rightarrow> duration) \<Rightarrow>
     duration option \<Rightarrow> bool" where
  "child_in_time E pp clk c lull due tmo \<longleftrightarrow>
     (case tmo of
        None \<Rightarrow> True
      | Some t \<Rightarrow>
          (\<forall>w. due w + (2 * lull w + 1) * c \<le> t) \<and> clock_ok (now (channel E)) clk c
          \<and> (\<forall>w i w'. now (channel E) w = (i, w') \<longrightarrow> lull w' \<le> lull w \<and> due w' \<le> due w)
          \<and> (\<forall>w d w'. \<not> dropped (pp w) \<longrightarrow> due w \<le> d \<longrightarrow> recv_timeout (channel E) w d = (Err RecvTimeout, w') \<longrightarrow>
               (\<exists>p. quiet (pp w) p \<and> (\<nexists>p'. pipe_step p p' \<and> \<not> dropped p'))
               \<or> lull w' < lull w \<and> 0 < due w' \<and> clk w' + due w' \<le> clk w + due w))"

lemma child_in_time_never [simp]: "child_in_time E pp clk c lull due None"
  by (simp add: child_in_time_def)

text \<open>A receive within the time gives the line that is awaited, or gives up early, with time left.\<close>

lemma awaited_not_at_rest:
  "flows p (a # outs) \<Longrightarrow> quiet p q \<Longrightarrow> \<exists>p'. pipe_step q p' \<and> \<not> dropped p'"
  using flows_moves flows_quiet by blast

lemma receive_in_time:
  assumes "awaiting E srv vst pp w v (a # outs)" "child_in_time E pp clk c lull due (Some t)"
    "clk w + due w + (2 * lull w + 1) * c \<le> dl"
  obtains w' where "receive (channel E) (Some dl) w = Some (Ok (Line a), w')"
  | w' w'' where "receive (channel E) (Some dl) w = Some (Err RecvTimeout, w')"
      "timed_out (now (channel E)) (Some dl) w' = (False, w'')" "awaiting E srv vst pp w'' v (a # outs)"
      "lull w'' < lull w" "clk w'' + due w'' + (2 * lull w'' + 1) * c \<le> dl"
proof -
  from assms(2) have k: "clock_ok (now (channel E)) clk c"
    "\<And>w i w'. now (channel E) w = (i, w') \<Longrightarrow> lull w' \<le> lull w \<and> due w' \<le> due w"
    "\<And>w d w'. \<not> dropped (pp w) \<Longrightarrow> due w \<le> d \<Longrightarrow> recv_timeout (channel E) w d = (Err RecvTimeout, w') \<Longrightarrow>
       (\<exists>p. quiet (pp w) p \<and> (\<nexists>p'. pipe_step p p' \<and> \<not> dropped p'))
       \<or> lull w' < lull w \<and> 0 < due w' \<and> clk w' + due w' \<le> clk w + due w"
    unfolding child_in_time_def option.case by blast+
  obtain i w1 where i: "now (channel E) w = (i, w1)" by fastforce
  have i_le: "clk w1 = i" "i \<le> clk w + c" using clock_okD [where clock = "now (channel E)", OF k(1) i] by auto
  note w1 = k(2) [OF i]
  have "c \<le> (2 * lull w + 1) * c" by simp
  then have enough: "due w1 \<le> dl - i" using w1 i_le assms(3) by linarith
  obtain x w2 where x: "recv_timeout (channel E) w1 (dl - i) = (x, w2)" by fastforce
  with i have rc: "receive (channel E) (Some dl) w = Some (x, w2)" by (simp add: receive_def)
  note got = awaiting_receive [OF assms(1) rc]
  show ?thesis
  proof (cases "x = Err RecvTimeout")
    case False
    with got rc that(1) show ?thesis by auto
  next
    case True
    with got have w2: "awaiting E srv vst pp w2 v (a # outs)" by simp
    from assms(1) have s: "child_serves E srv vst pp" "flows (pp w) (a # outs)" by (auto simp: awaiting_def)
    from child_now [OF s(1) i] flows_quiet s(2) have f: "flows (pp w1) (a # outs)" by blast
    have early: "lull w2 < lull w1" "0 < due w2" "clk w2 + due w2 \<le> clk w1 + due w1"
      using k(3) [OF _ enough x [unfolded True]] f awaited_not_at_rest [OF f] unfolding flows_def by blast+
    obtain i' w3 where i': "now (channel E) w2 = (i', w3)" by fastforce
    have w3: "clk w3 = i'" "i' \<le> clk w2 + c" "lull w3 \<le> lull w2" "due w3 \<le> due w2"
      using clock_okD [where clock = "now (channel E)", OF k(1) i'] k(2) [OF i'] by auto
    from early(1) w1 w3(3) have "Suc (lull w3) \<le> lull w" by simp
    then have "(2 * lull w3 + 3) * c \<le> (2 * lull w + 1) * c" by (intro mult_le_mono1) simp
    then have left: "clk w2 + due w2 + c + (2 * lull w3 + 1) * c \<le> dl"
      using assms(3) early(3) i_le w1 by (simp add: algebra_simps)
    have "awaiting E srv vst pp w3 v (a # outs)"
      using w2 child_now [OF s(1) i'] flows_quiet by (auto simp: awaiting_def)
    moreover have "timed_out (now (channel E)) (Some dl) w2 = (False, w3)"
      using i' w3(2) left early(2) by simp
    ultimately show ?thesis
      using that(2) [of w2 w3] rc True w3 left early(1) w1 by simp
  qed
qed

lemma repeat_in_time:
  assumes "awaiting E srv vst pp w v (a # outs)" "child_in_time E pp clk c lull due (Some t)"
    "clk w + due w + (2 * lull w + 1) * c \<le> dl"
  shows "\<exists>w'. repeat (recv_step (channel E) (Some dl)) (w, rd) = Some (Ok a, w', rd)"
  using assms(1,3)
proof (induction "lull w" arbitrary: w rule: less_induct)
  case less
  from receive_in_time [OF less.prems(1) assms(2) less.prems(2)] show ?case
  proof cases
    case (1 w')
    then show ?thesis by (simp add: Loops.repeat.simps [of _ "(w, rd)"] recv_step_def)
  next
    case (2 w' w'')
    with less.hyps [OF 2(4,3,5)] show ?thesis
      by (simp add: Loops.repeat.simps [of _ "(w, rd)"] recv_step_def)
  qed
qed

lemma lively_read:
  assumes "child_lively E pp" "child_in_time E pp clk c lull due tmo" "awaiting E srv vst pp w v (a # outs)" "terminal rd = None"
    "clock_lasts (now (channel E)) tmo w"
  shows "\<exists>w'. reader_read_line (channel E) (w, rd) tmo = Some (Ok a, w', rd)"
proof -
  from assms(3) have k: "child_serves E srv vst pp" "vst w = v" "flows (pp w) (a # outs)" by (auto simp: awaiting_def)
  obtain d w1 where d: "deadline_in (now (channel E)) tmo w = (d, w1)" by fastforce
  from child_clock(2) [OF k(1) d] k flows_quiet have w1: "awaiting E srv vst pp w1 v (a # outs)" by (auto simp: awaiting_def)
  show ?thesis
  proof (cases tmo)
    case None
    from lively_recv [OF assms(1) w1] obtain y w' where "recv (channel E) w1 = Some (y, w')" by auto
    then have y: "receive (channel E) None w1 = Some (ok_or y Disconnected, w')" by (simp add: receive_def)
    from awaiting_receive [OF w1 this] y have "receive (channel E) None w1 = Some (Ok (Line a), w')" by auto
    moreover from d None have "d = Ok None" by simp
    ultimately show ?thesis
      using d by (simp add: reader_read_line_def assms(4) Loops.repeat.simps recv_step_def)
  next
    case (Some t)
    then obtain i where i: "now (channel E) w = (i, w1)" "d = Ok (Some (i + t))"
      using deadline_in_lasts [OF assms(5) d] d by (cases "now (channel E) w") auto
    from assms(2) Some have "due w1 + (2 * lull w1 + 1) * c \<le> t" "clk w1 = i"
      using clock_okD [where clock = "now (channel E)", OF _ i(1)] unfolding child_in_time_def by auto
    then have "clk w1 + due w1 + (2 * lull w1 + 1) * c \<le> i + t" by linarith
    from repeat_in_time [OF w1 assms(2) [unfolded Some] this] d i(2) show ?thesis
      by (simp add: reader_read_line_def assms(4))
  qed
qed

abbreviation prompt_child where
  "prompt_child E srv vst pp clk c lull due tmo \<equiv>
     \<lambda>s v outs. child_serving E srv vst pp s v outs \<and> child_lively E pp \<and> child_in_time E pp clk c lull due tmo
       \<and> (\<forall>w. clock_lasts (now (channel E)) tmo w)"

interpretation child_prompt: prompt "direct_transport E" srv "prompt_child E srv vst pp clk c lull due tmo" tmo
  for E :: "('w, 'k) process_ops" and srv :: "'v server" and vst pp clk c lull due tmo
proof unfold_locales
  fix t :: "'w direct" and v req w t' outs
  assume "prompt_child E srv vst pp clk c lull due tmo t v outs" "10 \<notin> set req"
    "write_line (direct_transport E) t (req @ [10]) = Some (w, t')"
  then show "w = Ok () \<and> prompt_child E srv vst pp clk c lull due tmo t' (snd (srv v req)) (outs @ [fst (srv v req)])"
    using child_rpc.ans_write [of E srv vst pp t v outs req w t'] by simp
next
  fix t :: "'w direct" and v a outs limit r t'
  assume "prompt_child E srv vst pp clk c lull due tmo t v (a # outs)"
    "read_line (direct_transport E) t limit = Some (r, t')"
  then show "r = Ok a \<and> prompt_child E srv vst pp clk c lull due tmo t' v outs
      \<or> (\<exists>m. r = Err (Timeout m)) \<or> r = Panic"
    using child_rpc.ans_read [of E srv vst pp t v a outs limit r t'] by auto
next
  fix t :: "'w direct" and v outs line
  assume "prompt_child E srv vst pp clk c lull due tmo t v outs"
  then show "write_line (direct_transport E) t line \<noteq> None"
    using lively_write [of E pp t line] by (simp add: child_serving_def)
next
  fix t :: "'w direct" and v a outs
  assume k: "prompt_child E srv vst pp clk c lull due tmo t v (a # outs)"
  then obtain rd where "line_reader t = Some rd" "terminal rd = None" by (auto simp: child_serving_def)
  with k lively_read [of E pp clk c lull due tmo srv vst "world t" v a outs rd]
  show "\<exists>t'. read_line (direct_transport E) t tmo = Some (Ok a, t')"
    by (auto simp: child_serving_def direct_read_line_def)
qed

section \<open>Properties\<close>

text \<open>The transport that \<open>connect_with\<close> starts.\<close>

abbreviation start_with ::
  "('w, 'k) process_ops \<Rightarrow> bytes \<Rightarrow> bytes list \<Rightarrow> 'k connect_options \<Rightarrow> 'w \<Rightarrow> ('w direct, error) result \<times> 'w" where
  "start_with E cmd args opts w \<equiv> start E cmd args (opt_env opts) (opt_cwd opts)
     (case opt_stderr opts of Some k \<Rightarrow> k | None \<Rightarrow> StderrNull) w"

lemma connect_started:
  "start_with E cmd args opts w = (Ok d, w1) \<Longrightarrow> connect_with E cmd args opts w =
     map_option (\<lambda>(r, t'). (r, world t')) (session_new (direct_transport E) d (connect_timeout opts))"
  by (simp add: connect_with_def)

lemma started:
  assumes "start E cmd args env cwd sink w = (Ok d, w1)"
  shows "world d = w1 \<and> stdin d \<and> line_reader d = Some spawned"
  using assms by (auto simp: start_def Let_def split: prod.splits result.splits)

lemma serving_started:
  assumes "child_serves E srv vst pp" "start E cmd args env cwd sink w = (Ok d, w1)"
    "quiet (spawn (map Ok cs)) (pp w1)" "concat cs = hello @ [10]" "[] \<notin> set cs" "fit_line hello"
  shows "child_serving E srv vst pp d (vst w1) [hello]"
  using started [OF assms(2)] flows_quiet [OF assms(3) flows_greeting [OF assms(4-6)]] assms(1)
  by (simp add: child_serving_def awaiting_def spawned_def)

text \<open>
  C2: Total correctness of a session over a child: when the program has been started, greets and answers, its
  reader thread is not stopped, and the answers are there within the timeout, however often a wait for them
  gives up early - or there is no timeout -, then
  connecting succeeds, and every program of requests comes back with exactly the results of calling the
  server's function on them, one after the other - however the child cuts its output up and the two
  threads interleave.
\<close>
theorem child_session_in_time:
  assumes "child_serves E srv vst pp" "child_lively E pp" "child_in_time E pp clk c lull due (connect_timeout opts)"
    "\<And>w. clock_lasts (now (channel E)) (connect_timeout opts) w" "start_with E cmd args opts w = (Ok d, w1)"
    "quiet (spawn (map Ok cs)) (pp w1)" "concat cs = hello @ [10]" "[] \<notin> set cs" "fit_line hello"
    "decode_hello hello = Ok h" "protocol h = PROTOCOL" "\<forall>q\<in>set qs. remote q"
  shows "\<exists>s w' s'. connect_with E cmd args opts w = Some (Ok s, w') \<and> session_hello s = h
    \<and> perform_all (direct_transport E) qs s = Some (rpc_all srv qs (vst w1), s')"
proof -
  from serving_started [OF assms(1,5-9)] assms(2-4)
  have "prompt_child E srv vst pp clk c lull due (connect_timeout opts) d (vst w1) [hello]" by simp
  from child_prompt.new_prompt [OF this assms(10,11)] obtain s c' where
    s: "session_new (direct_transport E) d (connect_timeout opts) = Some (Ok s, c')" "session_hello s = h"
      "prompt.steady (prompt_child E srv vst pp clk c lull due (connect_timeout opts)) (connect_timeout opts) s (vst w1)" by blast
  from child_prompt.perform_all_prompt [OF s(3) assms(12)] s(1,2) connect_started [OF assms(5)]
  show ?thesis by auto
qed

text \<open>Without a timeout nothing has to be known of the time.\<close>

lemma child_session_total:
  assumes "child_serves E srv vst pp" "child_lively E pp" "start_with E cmd args opts w = (Ok d, w1)"
    "quiet (spawn (map Ok cs)) (pp w1)" "concat cs = hello @ [10]" "[] \<notin> set cs" "fit_line hello"
    "decode_hello hello = Ok h" "protocol h = PROTOCOL" "connect_timeout opts = None" "\<forall>q\<in>set qs. remote q"
  shows "\<exists>s w' s'. connect_with E cmd args opts w = Some (Ok s, w') \<and> session_hello s = h
    \<and> perform_all (direct_transport E) qs s = Some (rpc_all srv qs (vst w1), s')"
proof -
  from serving_started [OF assms(1,3-7)] assms(2)
  have "prompt_child E srv vst pp undefined undefined undefined undefined None d (vst w1) [hello]" by simp
  from child_prompt.new_prompt [OF this assms(8,9)] obtain s c where
    s: "session_new (direct_transport E) d None = Some (Ok s, c)" "session_hello s = h"
      "prompt.steady (prompt_child E srv vst pp undefined undefined undefined undefined None) None s (vst w1)" by blast
  from child_prompt.perform_all_prompt [OF s(3) assms(11)] s(1,2) connect_started [OF assms(3)] assms(10)
  show ?thesis by auto
qed

text \<open>
  C4: With any timeouts, and a child that may stall: the results of a session over a child are those of
  the server's function, in order, until at most one timeout; after it every request is refused, so no
  answer is ever taken for that of another request. A panic ends the results (that of a deadline past the end of
  the clock is one the code can reach).
\<close>
theorem child_session_served:
  assumes "child_serves E srv vst pp" "start_with E cmd args opts w = (Ok d, w1)"
    "quiet (spawn (map Ok cs)) (pp w1)" "concat cs = hello @ [10]" "[] \<notin> set cs" "fit_line hello"
    "connect_with E cmd args opts w = Some (Ok s, w')" "\<forall>q\<in>set qs. remote q"
    "perform_all (direct_transport E) qs s = Some (rs, s')"
  shows "served srv (vst w1) qs rs"
proof -
  from assms(7) obtain c where "session_new (direct_transport E) d (connect_timeout opts) = Some (Ok s, c)"
    by (auto simp: connect_started [OF assms(2)])
  note opened = child_rpc.new_in_step [OF serving_started [OF assms(1-6)] this]
  show ?thesis by (rule child_rpc.perform_all_served [OF opened assms(8,9)])
qed

section \<open>Example\<close>

text \<open>A scheduler: the thread's next step, and its steps until it waits for the caller or its source.\<close>

definition thread_next :: "pipe \<Rightarrow> pipe option" where
  "thread_next p =
     (case thread p of
        Reading \<Rightarrow>
          (case source p of
             [] \<Rightarrow> None
           | r # rs \<Rightarrow> (case after_read (lines_in p) r of
               (q, f) \<Rightarrow> Some (p\<lparr>source := rs, thread := q, lines_in := f\<rparr>)))
      | Taking \<Rightarrow> (case after_take (lines_in p) of (q, f) \<Rightarrow> Some (p\<lparr>thread := q, lines_in := f\<rparr>))
      | Sending x \<Rightarrow>
          if dropped p then Some (p\<lparr>thread := Ended\<rparr>)
          else if slot p = None then Some (p\<lparr>slot := Some x, thread := after_send x\<rparr>) else None
      | Ended \<Rightarrow> None)"

lemma thread_next_step:
  assumes "thread_next p = Some p'"
  shows "pipe_step p p' \<and> received p' = received p \<and> dropped p' = dropped p"
  using assms
  by (cases "thread p")
    (auto simp: thread_next_def intro: pipe_step.intros split: list.splits prod.splits if_splits)

lemma thread_next_None:
  assumes "thread_next p = None" "slot p = None"
  shows "\<nexists>p'. pipe_step p p' \<and> \<not> dropped p'"
  using assms
  by (auto simp: thread_next_def elim!: pipe_stepE split: list.splits prod.splits if_splits)

function settle :: "pipe \<Rightarrow> pipe" where
  "settle p = (case thread_next p of None \<Rightarrow> p | Some p' \<Rightarrow> settle p')"
  by pat_completeness auto
termination settle
proof (relation pipe_order)
  show "wf pipe_order" by (simp add: pipe_order_def)
qed (use thread_next_step pipe_step_order in blast)

declare settle.simps [simp del]

lemma settle_quiet: "quiet p (settle p) \<and> thread_next (settle p) = None"
proof (induction p rule: settle.induct)
  case (1 p)
  show ?case
  proof (cases "thread_next p")
    case (Some p')
    then have "quiet p p'" using thread_next_step [OF Some] by (auto simp: quiet_def)
    with 1 [OF Some] Some show ?thesis by (auto simp: settle.simps [of p] intro: quiet_trans)
  qed (simp add: settle.simps [of p])
qed

text \<open>
  A child whose world is the state of the server, whether the channel is calm, and the pipe: its answers come out
  byte by byte, its thread runs when the caller waits, and after each request the first receive with a
  timeout gives up early.
\<close>

definition hosted :: "((bool \<times> bool) \<times> pipe, unit) process_ops" where
  "hosted =
     \<lparr>channel =
        \<lparr>recv = (\<lambda>(v, p). case slot (settle p) of
             Some i \<Rightarrow> Some (Some i, (v, (settle p)\<lparr>slot := None, received := received (settle p) @ [i]\<rparr>))
           | None \<Rightarrow> if thread (settle p) = Ended then Some (None, (v, settle p)) else None),
         recv_timeout = (\<lambda>((v, calm), p) t. if \<not> calm then (Err RecvTimeout, ((v, True), p)) else case slot (settle p) of
             Some i \<Rightarrow> (Ok i, ((v, calm), (settle p)\<lparr>slot := None, received := received (settle p) @ [i]\<rparr>))
           | None \<Rightarrow> (Err (if thread (settle p) = Ended then Disconnected else RecvTimeout), ((v, calm), settle p))),
         is_finished = (\<lambda>(v, p). (thread p = Ended, (v, p))),
         join_thread = (\<lambda>w. w), now = (\<lambda>w. (0, w)), sleep = (\<lambda>w t. w)\<rparr>,
      spawn_child = (\<lambda>w cmd. (Ok (), w)),
      spawn_reader = (\<lambda>(v, p). (v, spawn [Ok greeting, Ok [10]])),
      spawn_drain = (\<lambda>w k. w), child_id = (\<lambda>w. 1),
      stdin_write_all = (\<lambda>((v, calm), p) line. case toggling v (butlast line) of
          (a, v') \<Rightarrow> Some (Ok (), ((v', False), p\<lparr>source := source p @ map (\<lambda>b. Ok [b]) (a @ [10])\<rparr>))),
      stdin_flush = (\<lambda>w. Some (Ok (), w)), drop_stdin = (\<lambda>w. w),
      try_wait = (\<lambda>w. (Inr (Some (Exited 0)), w)), kill_syscall = (\<lambda>w pid sig. (0, w)),
      kill_child = (\<lambda>w. (Inr (), w)), wait_child = (\<lambda>w. Some (Inr (Exited 0), w)),
      join_drain = (\<lambda>w. Some w), drop_receiver = (\<lambda>(v, p). (v, p\<lparr>dropped := True\<rparr>))\<rparr>"

lemma hosted_serves: "child_serves hosted toggling (fst \<circ> fst) snd"
proof -
  have put: "\<exists>q cs. quiet p q \<and> concat cs = a @ [10] \<and> [] \<notin> set cs
      \<and> quiet (q\<lparr>source := source q @ map Ok cs\<rparr>) (p\<lparr>source := source p @ map (\<lambda>b. Ok [b]) (a @ [10])\<rparr>)" for p a
    by (intro exI [of _ p] exI [of _ "map (\<lambda>b. [b]) (a @ [10])"]) (auto simp: o_def)
  have given: "gives p i ((settle p)\<lparr>slot := None, received := received (settle p) @ [i]\<rparr>)"
    if "slot (settle p) = Some i" for p i
    unfolding gives_def using settle_quiet that by (intro exI [of _ "settle p"]) simp
  show ?thesis
    unfolding child_serves_def case_prod_unfold
    using put given settle_quiet toggling_fits
    by (auto simp: hosted_def case_prod_unfold split: option.splits if_splits)
qed

lemma hosted_lively: "child_lively hosted snd"
proof -
  have "\<exists>q. quiet p q \<and> (\<nexists>p'. pipe_step q p' \<and> \<not> dropped p')" if "slot (settle p) = None" for p
    using settle_quiet thread_next_None that by blast
  then show ?thesis
    by (auto simp: child_lively_def hosted_def case_prod_unfold split: option.splits if_splits)
qed

abbreviation forever :: "unit connect_options" where
  "forever \<equiv> with_timeout connect_options_new None"

lemma hosted_start:
  "\<exists>d. start_with hosted [] [] forever ((True, False), spawn []) = (Ok d, ((True, False), spawn (map Ok [greeting, [10]])))"
  by (simp add: start_def hosted_def Let_def with_timeout_def connect_options_new_def)

lemma forever_timeout: "connect_timeout forever = None"
  by (simp add: connect_timeout_def with_timeout_def)

abbreviation hosted_lull :: "(bool \<times> bool) \<times> pipe \<Rightarrow> nat" where
  "hosted_lull w \<equiv> if snd (fst w) then 0 else 1"

lemma hosted_in_time: "child_in_time hosted snd (\<lambda>_. 0) 0 hosted_lull (\<lambda>_. 1) (Some DEFAULT_TIMEOUT)"
proof -
  have "\<exists>q. quiet p q \<and> (\<nexists>p'. pipe_step q p' \<and> \<not> dropped p')" if "slot (settle p) = None" for p
    using settle_quiet thread_next_None that by blast
  then show ?thesis
    unfolding child_in_time_def option.case
    by (auto simp: hosted_def clock_ok_def DEFAULT_TIMEOUT_def INSTANT_END_def case_prod_unfold split: option.splits if_splits)
qed

lemma hosted_lasts: "clock_lasts (now (channel hosted)) (connect_timeout (connect_options_new :: unit connect_options)) w"
  by (simp add: clock_lasts_def hosted_def connect_timeout_def connect_options_new_def DEFAULT_TIMEOUT_def INSTANT_END_def)

lemma hosted_start_default:
  "\<exists>d. start_with hosted [] [] connect_options_new ((True, False), spawn []) = (Ok d, ((True, False), spawn (map Ok [greeting, [10]])))"
  by (simp add: start_def hosted_def Let_def connect_options_new_def)

lemma greeting_pieces: "concat [greeting, [10]] = greeting @ [10]" "[] \<notin> set [greeting, [10]]"
  using greeting_short by auto

lemma child_session_in_time_witness:
  "\<exists>s w s'. connect_with hosted [] [] connect_options_new ((True, False), spawn []) = Some (Ok s, w)
    \<and> perform_all (direct_transport hosted) three_requests s =
        Some ([Ok (TablesReply \<lparr>tables_of = [str ''t'']\<rparr>), Ok Done, Ok (TablesReply \<lparr>tables_of = [str ''t'']\<rparr>)], s')"
proof -
  from hosted_start_default obtain d where
    d: "start_with hosted [] [] connect_options_new ((True, False), spawn []) = (Ok d, ((True, False), spawn (map Ok [greeting, [10]])))" ..
  have q: "quiet (spawn (map Ok [greeting, [10]])) (snd ((True, False), spawn (map Ok [greeting, [10]])))" by simp
  have "connect_timeout (connect_options_new :: unit connect_options) = Some DEFAULT_TIMEOUT"
    by (simp add: connect_timeout_def connect_options_new_def)
  then have tm: "child_in_time hosted snd (\<lambda>_. 0) 0 hosted_lull (\<lambda>_. 1) (connect_timeout (connect_options_new :: unit connect_options))" using hosted_in_time by simp
  have "protocol (session_hello greeted) = PROTOCOL" "\<forall>q\<in>set three_requests. remote q"
    by (simp_all add: greeted_def PROTOCOL_def)
  from child_session_in_time [OF hosted_serves hosted_lively tm hosted_lasts d q greeting_pieces greeting_fits decode_greeting this]
  show ?thesis unfolding comp_apply fst_conv toggled_program by blast
qed

lemma child_session_total_witness:
  "\<exists>s w s'. connect_with hosted [] [] forever ((True, False), spawn []) = Some (Ok s, w)
    \<and> perform_all (direct_transport hosted) three_requests s =
        Some ([Ok (TablesReply \<lparr>tables_of = [str ''t'']\<rparr>), Ok Done, Ok (TablesReply \<lparr>tables_of = [str ''t'']\<rparr>)], s')"
proof -
  from hosted_start obtain d where
    d: "start_with hosted [] [] forever ((True, False), spawn []) = (Ok d, ((True, False), spawn (map Ok [greeting, [10]])))" ..
  have q: "quiet (spawn (map Ok [greeting, [10]])) (snd ((True, False), spawn (map Ok [greeting, [10]])))" by simp
  have "protocol (session_hello greeted) = PROTOCOL" "\<forall>q\<in>set three_requests. remote q"
    by (simp_all add: greeted_def PROTOCOL_def)
  from child_session_total [OF hosted_serves hosted_lively d q greeting_pieces greeting_fits decode_greeting this(1) forever_timeout this(2)]
  show ?thesis unfolding comp_apply fst_conv toggled_program by blast
qed

lemma child_session_served_witness:
  "\<exists>s w rs s'. connect_with hosted [] [] forever ((True, False), spawn []) = Some (Ok s, w)
    \<and> perform_all (direct_transport hosted) three_requests s = Some (rs, s') \<and> served toggling True three_requests rs"
proof -
  from hosted_start obtain d where
    d: "start_with hosted [] [] forever ((True, False), spawn []) = (Ok d, ((True, False), spawn (map Ok [greeting, [10]])))" ..
  have q: "quiet (spawn (map Ok [greeting, [10]])) (snd ((True, False), spawn (map Ok [greeting, [10]])))" by simp
  have "prompt_child hosted toggling (fst \<circ> fst) snd undefined undefined undefined undefined None d True [greeting]"
    using serving_started [OF hosted_serves d q greeting_pieces greeting_fits] hosted_lively by simp
  from child_prompt.new_prompt [OF this decode_greeting] obtain s c where
    s: "session_new (direct_transport hosted) d None = Some (Ok s, c)"
      "prompt.steady (prompt_child hosted toggling (fst \<circ> fst) snd undefined undefined undefined undefined None) None s True"
    by (auto simp: greeted_def PROTOCOL_def)
  then have c: "connect_with hosted [] [] forever ((True, False), spawn []) = Some (Ok s, world c)"
    by (simp add: connect_started [OF d] forever_timeout)
  from child_prompt.perform_all_prompt [OF s(2), of three_requests] obtain rs s' where
    rs: "perform_all (direct_transport hosted) three_requests s = Some (rs, s')" by auto
  from child_session_served [OF hosted_serves d q greeting_pieces greeting_fits c _ rs] c rs show ?thesis by auto
qed

end
