(* ===== verification/Teardown.thy ===== *)
theory Teardown
  imports Rpc Client
begin

text \<open>
  The life of a child under a session: nothing is done to it until the session ends, and whichever way
  the session ends - closed, overwritten, given up after a timeout, refused at the greeting, dropped -
  the child is shut down in stages, once, and everything that served it is torn down.
\<close>

section \<open>What does not show\<close>

text \<open>Reading and writing are nothing that is done to the child.\<close>

definition talks_quietly :: "('w, 'k) process_ops \<Rightarrow> ('w \<Rightarrow> signal_event list) \<Rightarrow> bool" where
  "talks_quietly E ev \<longleftrightarrow>
     (\<forall>w line r w'. stdin_write_all E w line = Some (r, w') \<longrightarrow> ev w' = ev w)
     \<and> (\<forall>w r w'. stdin_flush E w = Some (r, w') \<longrightarrow> ev w' = ev w)
     \<and> (\<forall>w x w'. recv (channel E) w = Some (x, w') \<longrightarrow> ev w' = ev w)
     \<and> (\<forall>w t x w'. recv_timeout (channel E) w t = (x, w') \<longrightarrow> ev w' = ev w)
     \<and> (\<forall>w i w'. now (channel E) w = (i, w') \<longrightarrow> ev w' = ev w)"

lemma talks_write:
  assumes "talks_quietly E ev" "direct_write_line E s line = Some (r, s')"
  shows "ev (world s') = ev (world s) \<and> stdin s' = stdin s"
  using assms by (auto simp: talks_quietly_def direct_write_line_def split: bind_splits result.splits if_splits)

lemma talks_receive:
  assumes "talks_quietly E ev" "receive (channel E) dl w = Some (x, w')"
  shows "ev w' = ev w"
proof (cases dl)
  case None
  with assms show ?thesis by (auto simp: receive_def talks_quietly_def)
next
  case (Some d)
  obtain i w1 where i: "now (channel E) w = (i, w1)" by fastforce
  with assms(2) Some have "recv_timeout (channel E) w1 (d - i) = (x, w')" by (simp add: receive_def)
  with assms(1) i have "ev w' = ev w1" "ev w1 = ev w" unfolding talks_quietly_def by blast+
  then show ?thesis by simp
qed

lemma talks_clock:
  assumes "talks_quietly E ev"
  shows "timed_out (now (channel E)) dl w = (b, w') \<Longrightarrow> ev w' = ev w"
    "deadline_in (now (channel E)) tmo w = (d, w') \<Longrightarrow> ev w' = ev w"
  using assms by (cases dl; auto simp: talks_quietly_def split: prod.splits)
    (use assms in \<open>cases tmo; auto simp: talks_quietly_def split: prod.splits\<close>)

lemma talks_recv_step:
  assumes "talks_quietly E ev" "recv_step (channel E) dl s = Some (x, s')"
  shows "ev (fst s') = ev (fst s)"
proof -
  obtain w rd w' rd' where s: "s = (w, rd)" "s' = (w', rd')" by (cases s; cases s') auto
  from assms(2) [unfolded s] show ?thesis
  proof (cases rule: recv_step_cases)
    case (time w1 b)
    with talks_receive [OF assms(1) time(1)] talks_clock(1) [OF assms(1) time(2)] s show ?thesis by simp
  qed (use talks_receive [OF assms(1)] s in auto)
qed

lemma talks_read:
  assumes "talks_quietly E ev" "direct_read_line E s tmo = Some (r, s')"
  shows "ev (world s') = ev (world s) \<and> stdin s' = stdin s"
proof (cases "line_reader s")
  case (Some rd)
  with assms(2) obtain w' rd' where rd: "reader_read_line (channel E) (world s, rd) tmo = Some (r, w', rd')"
      "s' = s\<lparr>world := w', line_reader := Some rd'\<rparr>"
    by (auto simp: direct_read_line_def)
  obtain d w1 where d: "deadline_in (now (channel E)) tmo (world s) = (d, w1)" by fastforce
  note w1 = talks_clock(2) [OF assms(1) d]
  have "ev w' = ev (world s)"
  proof (cases "reader.terminal rd = None \<and> (\<exists>dl. d = Ok dl)")
    case True
    then obtain dl where "repeat (recv_step (channel E) dl) (w1, rd) = Some (r, w', rd')"
      using rd(1) d by (auto simp: reader_read_line_def)
    then have "ev (fst (w', rd')) = ev w1"
      by (rule repeat_invariant [where P = "\<lambda>s. ev (fst s) = ev w1"])
         (auto dest: talks_recv_step [OF assms(1)])
    with w1 show ?thesis by simp
  next
    case False
    with rd(1) d w1 show ?thesis by (cases d) (auto simp: reader_read_line_def split: option.splits)
  qed
  with rd(2) show ?thesis by simp
qed (use assms in \<open>simp add: direct_read_line_def\<close>)

section \<open>Closing does not fail\<close>

lemma wait_for_not_Err: "wait_for E t w \<noteq> Some (Err e, w')"
  by (auto simp: wait_for_def split: prod.splits result.splits option.splits)

lemma escalate_not_Err: "escalate E t w = Some (r, w') \<Longrightarrow> r \<noteq> Err e"
  by (auto simp: escalate_def wait_for_not_Err split: bind_splits if_splits)

lemma reader_join_not_Err: "reader_join E s t = Some (r, s') \<Longrightarrow> r \<noteq> Err e"
  by (auto simp: reader_join_def split: prod.splits result.splits option.splits bind_splits if_splits)

lemma direct_close_Ok_or_Panic:
  assumes "direct_close E s t = Some (r, s')"
  shows "r = Ok () \<or> r = Panic"
  using assms
proof (cases rule: direct_close_cases)
  case (shut w1 status)
  then have "r \<noteq> Err e" for e
    by (auto simp: join_threads_def dest: reader_join_not_Err split: bind_splits option.splits if_splits)
  then show ?thesis by (cases r) auto
next
  case (failed x w1)
  with assms escalate_not_Err [OF failed(1)] show ?thesis
    by (cases x) (auto simp: direct_close_def split: if_splits)
qed simp

section \<open>The invariant\<close>

text \<open>\<open>torn_down ev d\<close>: the child has been shut down in stages, and nothing is left.\<close>

definition torn_down :: "('w \<Rightarrow> signal_event list) \<Rightarrow> 'w direct \<Rightarrow> bool" where
  "torn_down ev d \<longleftrightarrow> (\<exists>es\<in>stages. ev (world d) = StdinClosed # es)
     \<and> \<not> stdin d \<and> line_reader d = None \<and> \<not> stderr_thread d"

definition untouched :: "('w \<Rightarrow> signal_event list) \<Rightarrow> 'w direct \<Rightarrow> bool" where
  "untouched ev d \<longleftrightarrow> ev (world d) = [] \<and> stdin d"

definition cared_for :: "('w \<Rightarrow> signal_event list) \<Rightarrow> 'w direct session \<Rightarrow> bool" where
  "cared_for ev s \<longleftrightarrow> (if is_closed s then torn_down ev (conn s) else untouched ev (conn s))"

lemma untouched_close:
  assumes "observes E ev" "untouched ev d" "direct_close E d t = Some (r, d')" "r \<noteq> Panic"
  shows "torn_down ev d'"
proof -
  have "r = Ok ()" using direct_close_Ok_or_Panic [OF assms(3)] assms(4) by simp
  with direct_close_stages [OF assms(1)] assms(2,3) show ?thesis
    by (fastforce simp: untouched_def torn_down_def)
qed

lemma untouched_write:
  "talks_quietly E ev \<Longrightarrow> untouched ev d \<Longrightarrow> direct_write_line E d line = Some (r, d') \<Longrightarrow> untouched ev d'"
  using talks_write by (fastforce simp: untouched_def)

lemma untouched_read:
  "talks_quietly E ev \<Longrightarrow> untouched ev d \<Longrightarrow> direct_read_line E d tmo = Some (r, d') \<Longrightarrow> untouched ev d'"
  using talks_read by (fastforce simp: untouched_def)

lemma after_close_not_Panic: "after_close c r \<noteq> Panic \<Longrightarrow> c \<noteq> Panic"
  by (cases c) auto

lemma cared_for_call:
  assumes "observes E ev" "talks_quietly E ev"
  shows "call_keeps (direct_transport E) (cared_for ev)"
  unfolding call_keeps_def
proof (intro allI impI)
  fix s kvs r s'
  assume P: "cared_for ev s" and c: "call (direct_transport E) s kvs = Some (r, s')" and np: "r \<noteq> Panic"
  show "cared_for ev s'"
  proof (cases "is_closed s")
    case True
    with P c show ?thesis by (simp add: call_def)
  next
    case False
    with P have u: "untouched ev (conn s)" by (simp add: cared_for_def)
    from c False obtain w t1 where w: "direct_write_line E (conn s) (encode_request_line kvs) = Some (w, t1)"
      by (auto simp: call_def split: bind_splits)
    note u1 = untouched_write [OF assms(2) u w]
    note eq = c [unfolded call_def if_not_P [OF False] direct_transport_simps w bind.bind_lunit prod.case]
    show ?thesis
    proof (cases w)
      case (Ok x)
      with eq obtain rr t2 where rd: "direct_read_line E t1 (default_timeout s) = Some (rr, t2)"
        by (auto split: bind_splits)
      note u2 = untouched_read [OF assms(2) u1 rd]
      show ?thesis
      proof (cases "\<exists>m. rr = Err (Timeout m)")
        case True
        then obtain m where "rr = Err (Timeout m)" ..
        with eq Ok rd obtain cl t3 where cl: "direct_close E t2 CLOSE_TIMEOUT = Some (cl, t3)"
            "r = after_close cl (Err (Timeout m))" "s' = s\<lparr>conn := t3, is_closed := True\<rparr>"
          by (auto split: bind_splits)
        have "cl \<noteq> Panic" using after_close_not_Panic np cl(2) by blast
        from untouched_close [OF assms(1) u2 cl(1) this] cl(3) show ?thesis by (simp add: cared_for_def)
      next
        case no: False
        with eq Ok rd u2 False np show ?thesis
          by (cases rr) (auto simp: cared_for_def split: error.splits)
      qed
    qed (use eq u1 False in \<open>auto simp: cared_for_def\<close>)
  qed
qed

lemma cared_for_close:
  assumes "observes E ev" "talks_quietly E ev" "cared_for ev s"
    "close_session (direct_transport E) s = Some (r, s')" "r \<noteq> Panic"
  shows "cared_for ev s' \<and> is_closed s'"
proof (cases "is_closed s")
  case True
  with assms(3,4) show ?thesis by (simp add: close_session_def)
next
  case False
  with assms(3) have u: "untouched ev (conn s)" by (simp add: cared_for_def)
  let ?line = "encode_request_line [(''op'', json_str (str ''close''))]"
  from assms(4) False obtain w t1 where w: "direct_write_line E (conn s) ?line = Some (w, t1)"
    by (auto simp: close_session_def split: bind_splits)
  note u1 = untouched_write [OF assms(2) u w]
  note eq = assms(4) [unfolded close_session_def if_not_P [OF False] direct_transport_simps w bind.bind_lunit prod.case]
  with assms(5) have np: "w \<noteq> Panic" by (auto split: if_splits)
  with eq obtain x t2 where x: "(if is_ok w then direct_read_line E t1 (Some CLOSE_TIMEOUT) else Some (Err Closed, t1)) = Some (x, t2)"
    by (auto split: bind_splits)
  then have u2: "untouched ev t2"
    using u1 untouched_read [OF assms(2) u1] by (auto split: if_splits)
  from eq np x assms(5) obtain c t3 where c: "direct_close E t2 CLOSE_TIMEOUT = Some (c, t3)" "r = after_close c (Ok ())"
      "s' = s\<lparr>conn := t3, is_closed := True\<rparr>"
    by (auto split: bind_splits if_splits)
  with untouched_close [OF assms(1) u2 c(1)] after_close_not_Panic assms(5) show ?thesis
    by (auto simp: cared_for_def)
qed

lemma cared_for_program:
  assumes "observes E ev" "talks_quietly E ev" "cared_for ev s"
    "perform_all (direct_transport E) qs s = Some (rs, s')" "Panic \<notin> set rs"
  shows "cared_for ev s'"
  using assms(3-5)
proof (rule perform_all_invariant)
  fix s q r s'
  assume "cared_for ev s" "perform (direct_transport E) q s = Some (r, s')" "r \<noteq> Panic"
  then show "cared_for ev s'"
  proof (rule perform_invariant [OF _ _ _ cared_for_call [OF assms(1,2)]])
    show "cared_for ev s2"
      if "cared_for ev s1" "close_session (direct_transport E) s1 = Some (x, s2)" "x \<noteq> Panic" for s1 x s2
      using cared_for_close [OF assms(1,2) that] by simp
    show "cared_for ev (set_timeout s1 t)" if "cared_for ev s1" for s1 t
      using that by (simp add: cared_for_def)
  qed
qed

lemma session_new_cares:
  assumes "observes E ev" "talks_quietly E ev" "untouched ev d"
    "session_new (direct_transport E) d tmo = Some (r, d')" "r \<noteq> Panic"
  shows "case r of Ok s \<Rightarrow> cared_for ev s \<and> conn s = d' | _ \<Rightarrow> torn_down ev d'"
proof -
  from assms(4) obtain x d1 where x: "direct_read_line E d tmo = Some (x, d1)"
    by (auto simp: session_new_def split: bind_splits)
  note u1 = untouched_read [OF assms(2,3) x]
  note eq = assms(4) [unfolded session_new_def direct_transport_simps x bind.bind_lunit prod.case]
  have fail: "torn_down ev d' \<and> (\<exists>e. r = Err e)"
    if "(do { (c, t2) \<leftarrow> direct_close E d1 CLOSE_TIMEOUT; Some (after_close c (Err e), t2) }) = Some (r, d')" for e
  proof -
    from that obtain c where c: "direct_close E d1 CLOSE_TIMEOUT = Some (c, d')" "r = after_close c (Err e)"
      by (auto split: bind_splits)
    then have "c \<noteq> Panic" using after_close_not_Panic assms(5) by blast
    with untouched_close [OF assms(1) u1 c(1)] c(2) show ?thesis by (cases c) auto
  qed
  show ?thesis
  proof (cases "and_then x decode_hello")
    case (Ok h)
    show ?thesis
    proof (cases "protocol h = PROTOCOL")
      case True
      with eq Ok u1 show ?thesis by (auto simp: cared_for_def)
    next
      case False
      with eq Ok fail show ?thesis by fastforce
    qed
  next
    case (Err e)
    with eq fail show ?thesis by fastforce
  next
    case Panic
    with eq assms(5) show ?thesis by auto
  qed
qed

section \<open>Properties\<close>

text \<open>
  C5: No child is left behind. Opening a session on a child either fails, and has then shut the child down; or,
  through any program of requests, nothing is done to the child as long as the session is open, and once
  it has been closed - by a close, a successful overwrite or a timeout - the child has been shut down
  in stages, exactly once. Dropping the session brings that about in every case.
\<close>
theorem no_child_left_behind:
  assumes "observes E ev" "talks_quietly E ev" "stdin d" "ev (world d) = []"
    "session_new (direct_transport E) d tmo = Some (r, d')" "r \<noteq> Panic"
  shows "case r of
      Ok s \<Rightarrow> \<forall>qs rs s1 x s2. perform_all (direct_transport E) qs s = Some (rs, s1) \<longrightarrow> Panic \<notin> set rs \<longrightarrow>
        (if is_closed s1 then torn_down ev (conn s1) else ev (world (conn s1)) = [])
        \<and> (drop_session (direct_transport E) s1 = Some (x, s2) \<longrightarrow> x \<noteq> Panic \<longrightarrow> torn_down ev (conn s2))
    | _ \<Rightarrow> torn_down ev d'"
proof -
  have u: "untouched ev d" using assms(3,4) by (simp add: untouched_def)
  note new = session_new_cares [OF assms(1,2) u assms(5,6)]
  show ?thesis
  proof (cases r)
    case (Ok s)
    with new have s: "cared_for ev s" by simp
    have "(if is_closed s1 then torn_down ev (conn s1) else ev (world (conn s1)) = [])
        \<and> (drop_session (direct_transport E) s1 = Some (x, s2) \<longrightarrow> x \<noteq> Panic \<longrightarrow> torn_down ev (conn s2))"
      if "perform_all (direct_transport E) qs s = Some (rs, s1)" "Panic \<notin> set rs" for qs rs s1 x s2
      using cared_for_program [OF assms(1,2) s that] cared_for_close [OF assms(1,2), of s1 x s2]
      by (auto simp: cared_for_def untouched_def drop_session_def)
    with Ok show ?thesis by simp
  qed (use new in simp_all)
qed

section \<open>Example\<close>

text \<open>A child that greets, and exits once its input is closed.\<close>

definition obliging :: "(nat \<times> signal_event list, unit) process_ops" where
  "obliging = greeter\<lparr>try_wait := (\<lambda>(n, ev).
     if StdinClosed \<in> set ev then (Inr (Some (Exited 0)), (n + 1, ev @ [ExitSeen])) else (Inr None, (n + 1, ev)))\<rparr>"

lemma obliging_observes: "observes obliging snd"
  by (auto simp: observes_def obliging_def greeter_def stubborn_def quiet_channel_def)

lemma obliging_talks: "talks_quietly obliging snd"
  by (auto simp: talks_quietly_def obliging_def greeter_def stubborn_def quiet_channel_def)

definition obliging_session :: "(nat \<times> signal_event list) client" where
  "obliging_session = \<lparr>session_hello = session_hello greeted, conn = running, default_timeout = Some 5, is_closed = False\<rparr>"

lemma obliging_opens:
  "session_new (direct_transport obliging) running (Some 5) = Some (Ok obliging_session, running)"
proof -
  have "direct_read_line obliging running (Some 5) = Some (Ok greeting, running)"
    by (simp add: obliging_def greeter_def stubborn_def quiet_channel_def running_def direct_read_line_def
        reader_read_line_def spawned_def add_instant_def INSTANT_END_def Loops.repeat.simps recv_step_def receive_def)
  then show ?thesis
    by (simp add: session_new_def decode_greeting obliging_session_def) (simp add: greeted_def PROTOCOL_def)
qed

lemma obliging_closes:
  "\<exists>s1. perform_all (direct_transport obliging) [SetTimeout (Some 7), CloseIt] obliging_session = Some ([Ok Done, Ok Done], s1)
    \<and> is_closed s1"
  by (simp add: obliging_session_def close_session_def direct_write_line_def direct_read_line_def obliging_def greeter_def
      stubborn_def quiet_channel_def running_def reader_read_line_def spawned_def add_instant_def INSTANT_END_def
      Loops.repeat.simps recv_step_def receive_def direct_close_def escalate_def wait_for_def wait_bounded_def
      wait_step_def join_threads_def reader_join_def join_wait_step_def CLOSE_TIMEOUT_def)

lemma no_child_left_behind_witness:
  "\<exists>s1. perform_all (direct_transport obliging) [SetTimeout (Some 7), CloseIt] obliging_session = Some ([Ok Done, Ok Done], s1)
    \<and> torn_down snd (conn s1)"
proof -
  obtain s1 where s1: "perform_all (direct_transport obliging) [SetTimeout (Some 7), CloseIt] obliging_session
      = Some ([Ok Done, Ok Done], s1)" "is_closed s1"
    using obliging_closes by blast
  have "torn_down snd (conn s1)"
    using no_child_left_behind [OF obliging_observes obliging_talks _ _ obliging_opens] s1
    by (auto simp: running_def simp del: perform_all.simps)
  with s1(1) show ?thesis by blast
qed

end
