(* ===== verification/JsonTests.thy ===== *)
theory JsonTests
  imports Decode
begin

text \<open>
  The crate's own unit tests of Base64 and of JSON (the \<open>tests\<close> modules of \<open>base64.rs\<close> and \<open>json.rs\<close>), assertion
  by assertion, as statements about the model. Where the general theorems relate the model to itself and to the
  grammar, these relate it to what the crate's authors expect of the code: the same inputs, the same outputs. Short
  inputs are evaluated; long ones are trees that are written and read back by the round trip.
\<close>

section \<open>Vocabulary\<close>

text \<open>\<open>b"..."\<close>, \<open>r.is_err()\<close>, \<open>matches!(r, Err(Error::Protocol(m)) if f(m))\<close>, an assertion about
  \<open>r.unwrap()\<close>, and \<open>starts_with\<close> and \<open>contains\<close> of a string.\<close>

definition bytes_of :: "string \<Rightarrow> bytes" where
  "bytes_of s = map of_char s"

fun is_err :: "('a, 'e) result \<Rightarrow> bool" where
  "is_err (Err e) \<longleftrightarrow> True"
| "is_err _ \<longleftrightarrow> False"

fun fails_with :: "('a, error) result \<Rightarrow> (rstring \<Rightarrow> bool) \<Rightarrow> bool" where
  "fails_with (Err (Protocol m)) f \<longleftrightarrow> f m"
| "fails_with _ f \<longleftrightarrow> False"

fun unwraps :: "('a, 'e) result \<Rightarrow> ('a \<Rightarrow> bool) \<Rightarrow> bool" where
  "unwraps (Ok x) f \<longleftrightarrow> f x"
| "unwraps _ f \<longleftrightarrow> False"

definition starts_with :: "rstring \<Rightarrow> string \<Rightarrow> bool" where
  "starts_with s p \<longleftrightarrow> take (length p) s = str p"

definition has_part :: "rstring \<Rightarrow> string \<Rightarrow> bool" where
  "has_part m s \<longleftrightarrow> list_ex (\<lambda>i. starts_with (drop i m) s) [0..<Suc (length m)]"

text \<open>Written trees are parsed by the round trip instead of step by step.\<close>

lemma parse_written: "wf_json v \<Longrightarrow> utf8 (write_json v) = bs \<Longrightarrow> parse bs = Ok v"
  using parse_write by blast

section \<open>Base64\<close>

definition empty_round_trips :: bool where
  "empty_round_trips \<longleftrightarrow> encode [] = [] \<and> decode [] = Ok []"

lemma empty_round_trips: empty_round_trips
  by code_simp

definition known_vectors :: bool where
  "known_vectors \<longleftrightarrow>
     encode (bytes_of ''hi'') = str ''aGk='' \<and> decode (str ''aGk='') = Ok (bytes_of ''hi'')
     \<and> encode (bytes_of ''hello'') = str ''aGVsbG8='' \<and> decode (str ''aGVsbG8='') = Ok (bytes_of ''hello'')
     \<and> encode (bytes_of ''foobar'') = str ''Zm9vYmFy'' \<and> decode (str ''Zm9vYmFy'') = Ok (bytes_of ''foobar'')"

lemma known_vectors: known_vectors
  by code_simp

definition round_trips_every_byte_value :: bool where
  "round_trips_every_byte_value \<longleftrightarrow> (let data = map of_nat [0..<256] in decode (encode data) = Ok data)"

lemma round_trips_every_byte_value: round_trips_every_byte_value
  by (simp add: round_trips_every_byte_value_def Let_def decode_encode del: upt_Suc)

definition rejects_bad_length :: bool where
  "rejects_bad_length \<longleftrightarrow> is_err (decode (str ''a'')) \<and> is_err (decode (str ''ab'')) \<and> is_err (decode (str ''abc''))
     \<and> is_err (decode (str ''abcde''))"

lemma rejects_bad_length: rejects_bad_length
  by code_simp

definition rejects_invalid_characters :: bool where
  "rejects_invalid_characters \<longleftrightarrow> is_err (decode (str ''a b='')) \<and> is_err (decode (str (''a'' @ [CHR 0x0A] @ ''Gk='')))
     \<and> is_err (decode (str ''a!k=''))"

lemma rejects_invalid_characters: rejects_invalid_characters
  by code_simp

definition rejects_misplaced_padding :: bool where
  "rejects_misplaced_padding \<longleftrightarrow> is_err (decode (str ''=Gk='')) \<and> is_err (decode (str ''aG=k''))"

lemma rejects_misplaced_padding: rejects_misplaced_padding
  by code_simp

definition rejects_padding_in_non_final_block :: bool where
  "rejects_padding_in_non_final_block \<longleftrightarrow> is_err (decode (str ''aGk=aGk=''))"

lemma rejects_padding_in_non_final_block: rejects_padding_in_non_final_block
  by code_simp

section \<open>JSON\<close>

definition num :: "string \<Rightarrow> json" where
  "num s = JNumber (NumberToken (str s))"

definition parses_literals :: bool where
  "parses_literals \<longleftrightarrow> parse (bytes_of ''null'') = Ok JNull \<and> parse (bytes_of ''true'') = Ok (JBool True)
     \<and> parse (bytes_of ''false'') = Ok (JBool False)"

lemma parses_literals: parses_literals
  by code_simp

definition parses_whitespace_around_value :: bool where
  "parses_whitespace_around_value \<longleftrightarrow>
     parse (bytes_of (''  '' @ [CHR 0x09, CHR 0x0A] @ '' 42 '' @ [CHR 0x0D, CHR 0x0A])) = Ok (num ''42'')"

lemma parses_whitespace_around_value: parses_whitespace_around_value
  by code_simp

definition rejects_trailing_garbage :: bool where
  "rejects_trailing_garbage \<longleftrightarrow> is_err (parse (bytes_of ''42 43'')) \<and> is_err (parse (bytes_of ''{}x''))"

lemma rejects_trailing_garbage: rejects_trailing_garbage
  by code_simp

definition number_tokens_are_kept_verbatim :: bool where
  "number_tokens_are_kept_verbatim \<longleftrightarrow> parse (bytes_of ''88'') = Ok (num ''88'') \<and> parse (bytes_of ''88.0'') = Ok (num ''88.0'')
     \<and> parse (bytes_of ''88'') \<noteq> parse (bytes_of ''88.0'')"

lemma number_tokens_are_kept_verbatim: number_tokens_are_kept_verbatim
  by code_simp

text \<open>Number tokens, and trees written and read back.\<close>

lemma wf_num: "parse (bytes_of s) = Ok (num s) \<Longrightarrow> wf_json (num s)"
  by (rule parse_wf)

lemma wf_nums [simp]:
  "wf_json (num ''1'')" "wf_json (num ''2'')" "wf_json (num ''3'')" "wf_json (num ''9'')" "wf_json (num ''100'')"
  "wf_json (num ''999'')" "wf_json (num ''2.5'')"
  by (rule wf_num, code_simp)+

lemma parses: "wf_json v \<Longrightarrow> utf8 (write_json v) = bytes_of s \<Longrightarrow> parse (bytes_of s) = Ok v"
  by (rule parse_written)

definition key :: "string \<Rightarrow> json \<Rightarrow> rstring \<times> json" where
  "key k v = (str k, v)"

definition object_preserves_key_order :: bool where
  "object_preserves_key_order \<longleftrightarrow>
     unwraps (parse (bytes_of ''{\"b\":1,\"a\":2,\"c\":3}''))
       (\<lambda>v. map_option (map fst) (as_object v) = Some [str ''b'', str ''a'', str ''c''])"

lemma object_preserves_key_order: object_preserves_key_order
proof -
  have "parse (bytes_of ''{\"b\":1,\"a\":2,\"c\":3}'')
      = Ok (JObject [(str ''b'', num ''1''), (str ''a'', num ''2''), (str ''c'', num ''3'')])"
    by (rule parses, simp add: valid_string_def is_scalar_def, code_simp)
  then show ?thesis by (simp add: object_preserves_key_order_def)
qed

definition rejects_bareword_nan_and_infinity :: bool where
  "rejects_bareword_nan_and_infinity \<longleftrightarrow> is_err (parse (bytes_of ''NaN'')) \<and> is_err (parse (bytes_of ''Infinity''))
     \<and> is_err (parse (bytes_of ''-Infinity''))"

lemma rejects_bareword_nan_and_infinity: rejects_bareword_nan_and_infinity
  by code_simp

definition rejects_malformed_numbers :: bool where
  "rejects_malformed_numbers \<longleftrightarrow> is_err (parse (bytes_of ''01'')) \<and> is_err (parse (bytes_of ''+1''))
     \<and> is_err (parse (bytes_of ''1.'')) \<and> is_err (parse (bytes_of ''1e'')) \<and> is_err (parse (bytes_of ''.5''))"

lemma rejects_malformed_numbers: rejects_malformed_numbers
  by code_simp

definition rejects_trailing_commas :: bool where
  "rejects_trailing_commas \<longleftrightarrow> is_err (parse (bytes_of ''[1,2,]'')) \<and> is_err (parse (bytes_of ''{\"a\":1,}''))"

lemma rejects_trailing_commas: rejects_trailing_commas
  by code_simp

definition rejects_comments :: bool where
  "rejects_comments \<longleftrightarrow> is_err (parse (bytes_of ''1 // comment'')) \<and> is_err (parse (bytes_of ''/* c */ 1''))"

lemma rejects_comments: rejects_comments
  by code_simp

definition string_rejects_unescaped_control_char :: bool where
  "string_rejects_unescaped_control_char \<longleftrightarrow>
     (let s = bytes_of ''\"a''; s = s @ [1]; s = s @ bytes_of ''b\"'' in is_err (parse s))"

lemma string_rejects_unescaped_control_char: string_rejects_unescaped_control_char
  by code_simp

text \<open>Code equations over the integers: evaluation writes a natural number in unary.\<close>

lemma hex4_fits: "unat (v :: u16) * 16 + unat (d :: u8) < 2 ^ 16 \<longleftrightarrow> uint v * 16 + uint d < 2 ^ 16"
  using of_nat_less_iff [of "unat v * 16 + unat d" "2 ^ 16", where ?'a = int] by simp

lemma hex4_loop_code [code]:
  "hex4_loop 0 v p = Ok (v, p)"
  "hex4_loop (Suc n) v p =
     (case bump_byte p of
        (None, p1) \<Rightarrow> Err (err (str ''unexpected end of '' @ [92, 117] @ str '' escape'') p1)
      | (Some b, p1) \<Rightarrow>
          (case hex_value b of
             None \<Rightarrow> Err (err (str ''invalid hex digit in '' @ [92, 117] @ str '' escape'') p1)
           | Some digit \<Rightarrow>
               if uint v * 16 + uint digit < 2 ^ 16
               then hex4_loop n (v * 16 + ucast digit) p1
               else Panic))"
  by (simp_all only: hex4_loop.simps hex4_fits)

lemma char_from_u32_code [code]:
  "char_from_u32 w =
     (if uint w < 0xD800 \<or> 0xE000 \<le> uint w \<and> uint w < 0x110000 then Some (unat w) else None)"
  by (simp only: char_from_u32_def is_scalar_def uint_nat of_nat_less_numeral_iff numeral_nat_le_iff)

definition string_escapes_round_trip :: bool where
  "string_escapes_round_trip \<longleftrightarrow>
     parse (bytes_of (''\"a'' @ [CHR 0x5C] @ ''\"b'' @ [CHR 0x5C, CHR 0x5C] @ ''c'' @ [CHR 0x5C] @ ''/d'' @ [CHR 0x5C] @ ''be''
                      @ [CHR 0x5C] @ ''ff'' @ [CHR 0x5C] @ ''ng'' @ [CHR 0x5C] @ ''rh'' @ [CHR 0x5C] @ ''ti\"''))
     = Ok (JString (str ''a\"b'' @ [92] @ str ''c/d'' @ [8] @ str ''e'' @ [12] @ str ''f'' @ [10] @ str ''g'' @ [13]
                    @ str ''h'' @ [9] @ str ''i''))"

lemma body_ascii:
  "unat b = c \<Longrightarrow> 32 \<le> c \<Longrightarrow> c < 128 \<Longrightarrow> c \<noteq> 34 \<Longrightarrow> c \<noteq> 92 \<Longrightarrow> string_body s bs \<Longrightarrow>
     string_body (c # s) (b # bs)"
  using sb_char [of c s bs] by (auto simp: is_scalar_def encode_ascii byte_def)

lemma parse_string_body: "string_body s b \<Longrightarrow> parse (34 # b @ [34]) = Ok (JString s)"
  by (simp only: parse_iff) (intro json_text_value jv_string)

lemma string_escapes_round_trip: string_escapes_round_trip
  unfolding string_escapes_round_trip_def
  using parse_string_body [of "str ''a\"b'' @ [92] @ str ''c/d'' @ [8] @ str ''e'' @ [12] @ str ''f'' @ [10] @ str ''g'' @ [13]
      @ str ''h'' @ [9] @ str ''i''"
      "bytes_of (''a'' @ [CHR 0x5C] @ ''\"b'' @ [CHR 0x5C, CHR 0x5C] @ ''c'' @ [CHR 0x5C] @ ''/d'' @ [CHR 0x5C] @ ''be''
                      @ [CHR 0x5C] @ ''ff'' @ [CHR 0x5C] @ ''ng'' @ [CHR 0x5C] @ ''rh'' @ [CHR 0x5C] @ ''ti'')"]
  by (simp add: bytes_of_def body_ascii sb_escape sb_end simple_escapes_def)

definition string_u_escape_and_surrogate_pair :: bool where
  "string_u_escape_and_surrogate_pair \<longleftrightarrow>
     parse (bytes_of (''\"'' @ [CHR 0x5C] @ ''u00e9\"'')) = Ok (JString [0xE9])
     \<and> parse (bytes_of (''\"'' @ [CHR 0x5C] @ ''ud83d'' @ [CHR 0x5C] @ ''ude00\"'')) = Ok (JString [0x1F600])"

lemma hex4_d83d: "hex4 [100, 56, 51, 100] 0xD83D" and hex4_de00: "hex4 [100, 101, 48, 48] 0xDE00"
  by (simp_all add: hex4_iff hex_value_def)

lemma string_u_escape_and_surrogate_pair: string_u_escape_and_surrogate_pair
proof -
  have "string_body [0x1F600] [92, 117, 100, 56, 51, 100, 92, 117, 100, 101, 48, 48]"
    using sb_pair [OF hex4_d83d _ _ hex4_de00 _ _ sb_end] by simp
  then have "json_value (JString [0x1F600]) (34 # [92, 117, 100, 56, 51, 100, 92, 117, 100, 101, 48, 48] @ [34])"
    by (rule jv_string)
  from json_text_value [OF this] have "parse (bytes_of (''\"'' @ [CHR 0x5C] @ ''ud83d'' @ [CHR 0x5C] @ ''ude00\"''))
      = Ok (JString [0x1F600])"
    by (simp add: parse_iff bytes_of_def)
  moreover have "parse (bytes_of (''\"'' @ [CHR 0x5C] @ ''u00e9\"'')) = Ok (JString [0xE9])"
    by code_simp
  ultimately show ?thesis by (simp only: string_u_escape_and_surrogate_pair_def)
qed

definition string_rejects_unpaired_surrogate :: bool where
  "string_rejects_unpaired_surrogate \<longleftrightarrow>
     is_err (parse (bytes_of (''\"'' @ [CHR 0x5C] @ ''ud83d\"'')))
     \<and> is_err (parse (bytes_of (''\"'' @ [CHR 0x5C] @ ''ude00\"'')))"

lemma string_rejects_unpaired_surrogate: string_rejects_unpaired_surrogate
  by code_simp

definition write_number_is_verbatim :: bool where
  "write_number_is_verbatim \<longleftrightarrow> write_json (num ''9223372036854775807'') = str ''9223372036854775807''
     \<and> write_json (num ''88.0'') = str ''88.0''"

lemma write_number_is_verbatim: write_number_is_verbatim
  by (simp add: write_number_is_verbatim_def num_def write_json_def)

definition write_escapes_control_characters_as_u_escape :: bool where
  "write_escapes_control_characters_as_u_escape \<longleftrightarrow>
     (let v = JString (str ''a'' @ [1] @ str ''b'') in write_json v = str (''\"a'' @ [CHR 0x5C] @ ''u0001b\"''))"

lemma write_escapes_control_characters_as_u_escape: write_escapes_control_characters_as_u_escape
  by code_simp

definition write_object_preserves_order_and_is_compact :: bool where
  "write_object_preserves_order_and_is_compact \<longleftrightarrow>
     (let v = JObject [(str ''op'', json_str (str ''query'')), (str ''sql'', json_str (str ''SELECT 1''))]
      in write_json v = str ''{\"op\":\"query\",\"sql\":\"SELECT 1\"}'')"

lemma write_object_preserves_order_and_is_compact: write_object_preserves_order_and_is_compact
  by code_simp

definition parse_then_write_is_byte_exact_for_numbers :: bool where
  "parse_then_write_is_byte_exact_for_numbers \<longleftrightarrow>
     list_all (\<lambda>token. unwraps (parse (bytes_of token)) (\<lambda>v. write_json v = str token))
       [''0'', ''-0'', ''88.0'', ''-88.0'', ''1e21'', ''5e-7'', ''9e999'', ''-9e999'']"

lemma parse_then_write_is_byte_exact_for_numbers: parse_then_write_is_byte_exact_for_numbers
  by code_simp

text \<open>The source text between the quotes: three characters of three bytes each.\<close>

definition nihongo :: rstring where
  "nihongo = [0x65E5, 0x672C, 0x8A9E]"

definition non_ascii_passes_through_utf8 :: bool where
  "non_ascii_passes_through_utf8 \<longleftrightarrow>
     unwraps (parse (utf8 ([34] @ nihongo @ [34])))
       (\<lambda>v. v = JString nihongo \<and> write_json v = [34] @ nihongo @ [34])"

lemma non_ascii_passes_through_utf8: non_ascii_passes_through_utf8
proof -
  have w: "write_json (JString nihongo) = [34] @ nihongo @ [34]"
    by (simp add: nihongo_def write_json_def write_string_def write_char_def)
  then have "parse (utf8 ([34] @ nihongo @ [34])) = Ok (JString nihongo)"
    by (intro parse_written) (simp_all add: nihongo_def is_scalar_def)
  with w show ?thesis by (simp add: non_ascii_passes_through_utf8_def)
qed

definition nested_structures :: bool where
  "nested_structures \<longleftrightarrow>
     (let src = ''{\"op\":\"query\",\"params\":[1,2.5,\"x\",null,true,[1,2]]}''
      in unwraps (parse (bytes_of src)) (\<lambda>v. write_json v = str src))"

lemma nested_structures: nested_structures
proof -
  define v where "v = JObject [(str ''op'', json_str (str ''query'')),
    (str ''params'', JArray [num ''1'', num ''2.5'', json_str (str ''x''), JNull, JBool True, JArray [num ''1'', num ''2'']])]"
  have w: "write_json v = str ''{\"op\":\"query\",\"params\":[1,2.5,\"x\",null,true,[1,2]]}''"
    unfolding v_def by code_simp
  have "parse (utf8 (write_json v)) = Ok v"
    by (rule parse_write) (simp add: v_def json_str_def is_scalar_def)
  moreover have "utf8 (write_json v) = bytes_of ''{\"op\":\"query\",\"params\":[1,2.5,\"x\",null,true,[1,2]]}''"
    unfolding w by code_simp
  ultimately show ?thesis using w by (simp only: nested_structures_def Let_def) simp
qed

fun nest :: "nat \<Rightarrow> json" where
  "nest 0 = num ''1''"
| "nest (Suc n) = JArray [nest n]"

lemma write_nest: "write_value (nest n) out = out @ replicate n 91 @ [49] @ replicate n 93"
  by (induction n arbitrary: out) (simp_all add: num_def replicate_append_same replicate_app_Cons_same)

lemma wf_nest: "wf_json (nest n)"
  by (induction n) simp_all

definition deeply_nested_array_does_not_stack_overflow_at_modest_depth :: bool where
  "deeply_nested_array_does_not_stack_overflow_at_modest_depth \<longleftrightarrow>
     (let depth = 200; s = replicate depth (CHR ''['') @ ''1'' @ replicate depth (CHR '']'')
      in is_ok (parse (bytes_of s)))"

lemma deeply_nested_array_does_not_stack_overflow_at_modest_depth:
  deeply_nested_array_does_not_stack_overflow_at_modest_depth
proof -
  have "utf8 (write_json (nest n)) = bytes_of (replicate n (CHR ''['') @ ''1'' @ replicate n (CHR '']''))" for n
    by (subst utf8_ascii) (auto simp: write_json_def write_nest bytes_of_def)
  from parse_written [OF wf_nest this] show ?thesis
    by (simp only: deeply_nested_array_does_not_stack_overflow_at_modest_depth_def Let_def is_ok.simps)
qed

section \<open>Integers at the edge\<close>

lemma json_i64: "wf_json (num s) \<Longrightarrow> utf8 (str s) = bytes_of s \<Longrightarrow> parse (bytes_of s) = Ok (num s)"
  by (intro parse_written) (simp_all add: num_def write_json_def)

lemma byte_of_char: "byte (of_char c) = of_char c"
  by (simp add: byte_def of_char_def)

lemma bytes_of_ascii: "list_all (\<lambda>c. of_char c < (128 :: nat)) s \<Longrightarrow> utf8 (str s) = bytes_of s"
  by (subst utf8_ascii) (auto simp: str_def bytes_of_def list_all_iff byte_of_char)

lemma digits_parse:
  assumes "digits1 (bytes_of s)" "hd (bytes_of s) \<noteq> 48" "list_all (\<lambda>c. of_char c < (128 :: nat)) s"
  shows "parse (bytes_of s) = Ok (num s)" "parse (bytes_of (CHR ''-'' # s)) = Ok (num (CHR ''-'' # s))"
proof -
  have "json_number (bytes_of s)" "json_number (45 # bytes_of s)"
    using json_intI [OF assms(1,2)] by (auto intro: json_number_int)
  then show "parse (bytes_of s) = Ok (num s)" "parse (bytes_of (CHR ''-'' # s)) = Ok (num (CHR ''-'' # s))"
    using bytes_of_ascii [of s] bytes_of_ascii [of "CHR ''-'' # s"] assms(3)
      json_i64 [of s] json_i64 [of "CHR ''-'' # s"] by (simp_all add: num_def bytes_of_def)
qed

definition integer_boundaries_round_trip_exactly :: bool where
  "integer_boundaries_round_trip_exactly \<longleftrightarrow>
     unwraps (parse (bytes_of ''9223372036854775807''))
       (\<lambda>v. Option.bind (as_number v) as_i64 = Some INT64_MAX)
     \<and> unwraps (parse (bytes_of ''-9223372036854775808''))
       (\<lambda>v. Option.bind (as_number v) as_i64 = Some INT64_MIN)"

lemma int64_texts:
  "as_i64 (NumberToken (str ''9223372036854775807'')) = Some INT64_MAX"
  "as_i64 (NumberToken (str ''-9223372036854775808'')) = Some INT64_MIN"
  "as_i64 (NumberToken (str ''9223372036854775808'')) = None"
  by (simp_all add: as_i64_def parse_i64_def int_opt_def digits_opt_def digits_value_def is_digit_def
      INT64_MAX_def INT64_MIN_def)

lemma integer_boundaries_round_trip_exactly: integer_boundaries_round_trip_exactly
proof -
  have "parse (bytes_of ''9223372036854775807'') = Ok (num ''9223372036854775807'')"
    by (rule digits_parse(1)) (simp_all add: digits1_iff bytes_of_def is_digit_byte_def)
  moreover have "parse (bytes_of ''-9223372036854775808'') = Ok (num ''-9223372036854775808'')"
    by (rule digits_parse(2)) (simp_all add: digits1_iff bytes_of_def is_digit_byte_def)
  ultimately show ?thesis by (simp add: integer_boundaries_round_trip_exactly_def num_def int64_texts del: str_simps)
qed

definition out_of_range_integer_token_has_no_i64_value :: bool where
  "out_of_range_integer_token_has_no_i64_value \<longleftrightarrow>
     unwraps (parse (bytes_of ''9223372036854775808'')) (\<lambda>v. map_option as_i64 (as_number v) = Some None)"

lemma out_of_range_integer_token_has_no_i64_value: out_of_range_integer_token_has_no_i64_value
proof -
  have "parse (bytes_of ''9223372036854775808'') = Ok (num ''9223372036854775808'')"
    by (rule digits_parse(1)) (simp_all add: digits1_iff bytes_of_def is_digit_byte_def)
  then show ?thesis by (simp add: out_of_range_integer_token_has_no_i64_value_def num_def int64_texts del: str_simps)
qed

section \<open>Reals past the largest\<close>

lemma log2n_ge: "2 ^ k \<le> n \<Longrightarrow> k \<le> log2n n"
proof -
  assume k: "2 ^ k \<le> n"
  then have "0 < n" by (metis less_le_trans zero_less_numeral zero_less_power)
  from log2n_bounds [OF this] k have "(2 :: nat) ^ k < 2 ^ Suc (log2n n)" by linarith
  then show ?thesis by (simp add: less_Suc_eq_le del: power_Suc)
qed

lemma round_dec_overflow:
  assumes "2 ^ 1024 \<le> d * 10 ^ n"
  shows "round_dec d (int n) = inf_mag"
proof -
  have big: "(2 :: nat) ^ (1024 + 1074) \<le> d * 10 ^ n * denom"
    using mult_right_mono [OF assms, of denom] by (simp only: power_add denom_def)
  then have l: "2098 \<le> log2n (d * 10 ^ n * denom div 1)" using log2n_ge by simp
  have half: "2 ^ 52 \<le> round_half_even x (1 * 2 ^ s)"
    if "x = d * 10 ^ n * denom" "s = log2n (x div 1) - 52" for x s
  proof -
    have "0 < x" using big that by (metis less_le_trans zero_less_numeral zero_less_power)
    from log2n_bounds [OF this] have "2 ^ log2n x \<le> x" by blast
    moreover have "log2n x = 52 + s" using that l by simp
    ultimately have "2 ^ 52 * 2 ^ s \<le> x" by (simp only: power_add)
    then have "2 ^ 52 \<le> x div 2 ^ s" by (simp add: less_eq_div_iff_mult_less_eq)
    then show ?thesis by (simp add: round_half_even_def Let_def)
  qed
  have "2046 * 2 ^ 52 \<le> (log2n (d * 10 ^ n * denom div 1) - 52) * 2 ^ 52"
    using l by (intro mult_right_mono) simp_all
  with half [OF refl refl] have "inf_mag \<le> (log2n (d * 10 ^ n * denom div 1) - 52) * 2 ^ 52
      + round_half_even (d * 10 ^ n * denom) (1 * 2 ^ (log2n (d * 10 ^ n * denom div 1) - 52))"
    unfolding inf_mag_def by linarith
  then show ?thesis by (simp add: round_dec_def round_frac_def Let_def min_def)
qed

lemma parse_9e999:
  "parse_f64 (str ''9e999'') = Some (make_f64 False inf_mag)"
  "parse_f64 (str ''-9e999'') = Some (make_f64 True inf_mag)"
proof -
  have "(2 :: nat) ^ (3 * 999) \<le> 10 ^ 999" unfolding power_mult by (rule power_mono) simp_all
  moreover have "(2 :: nat) ^ 1024 \<le> 2 ^ (3 * 999)" by (rule power_increasing) simp_all
  ultimately have "(2 :: nat) ^ 1024 \<le> 9 * 10 ^ 999" by linarith
  from round_dec_overflow [OF this] have r: "round_dec 9 999 = inf_mag" unfolding of_nat_numeral .
  have "decimal_opt (str ''9e999'') = Some (9, 999)"
    by (simp add: decimal_opt_def is_digit_def int_opt_def digits_opt_def digits_value_def)
  with r have m: "magnitude_opt [57, 101, 57, 57, 57] = Some inf_mag" by (simp add: magnitude_opt_def)
  then show "parse_f64 (str ''9e999'') = Some (make_f64 False inf_mag)"
    "parse_f64 (str ''-9e999'') = Some (make_f64 True inf_mag)"
    by (simp_all add: parse_f64_def)
qed

definition INFINITY :: f64 where
  "INFINITY = 0x7FF0000000000000"

definition NEG_INFINITY :: f64 where
  "NEG_INFINITY = 0xFFF0000000000000"

definition NAN :: f64 where
  "NAN = 0x7FF8000000000000"

lemma make_inf: "make_f64 False inf_mag = INFINITY" "make_f64 True inf_mag = NEG_INFINITY"
  by (simp_all add: make_f64_def inf_mag_def INFINITY_def NEG_INFINITY_def)

definition real_overflow_saturates_to_infinity_without_erroring :: bool where
  "real_overflow_saturates_to_infinity_without_erroring \<longleftrightarrow>
     unwraps (parse (bytes_of ''9e999'')) (\<lambda>v. Option.bind (as_number v) as_f64 = Some INFINITY)
     \<and> unwraps (parse (bytes_of ''-9e999''))
       (\<lambda>v. Option.bind (as_number v) as_f64 = Some NEG_INFINITY)"

lemma real_overflow_saturates_to_infinity_without_erroring: real_overflow_saturates_to_infinity_without_erroring
proof -
  have "parse (bytes_of ''9e999'') = Ok (num ''9e999'')" "parse (bytes_of ''-9e999'') = Ok (num ''-9e999'')"
    by code_simp+
  then show ?thesis
    by (simp add: real_overflow_saturates_to_infinity_without_erroring_def num_def as_f64_def parse_9e999 make_inf
        del: str_simps)
qed

end
