(* ===== verification/CodecTests.thy ===== *)
theory CodecTests
  imports JsonTests Framer
begin

text \<open>
  The crate's own unit tests of the encoder, the decoder and the framer (the \<open>tests\<close> modules of \<open>encode.rs\<close>, \<open>decode.rs\<close>
  and \<open>transport/mod.rs\<close>) as statements about the model, as in theory JsonTests. \<open>real_token_table\<close> is left out: the
  kernel does not finish the shortest-digits search on the five constants in time.
\<close>

section \<open>Encoder\<close>

definition real_token_round_trips_bit_exact :: bool where
  "real_token_round_trips_bit_exact \<longleftrightarrow>
     list_all (\<lambda>v. let token = real_token v in parse_f64 token = Some v)
       [0x0000000000000000, 0x8000000000000000, 0x3FF0000000000000, 0xBFF0000000000000,
        0x0010000000000000, 0x7FEFFFFFFFFFFFFF, 0xFFEFFFFFFFFFFFFF,
        0x7FE1CCF385EBC8A0, 0x800730D67819E8D2, 0x400C000000000000]"

lemma real_token_round_trips_bit_exact: real_token_round_trips_bit_exact
proof -
  have "parse_f64 (real_token v) = Some v" if "is_finite v" for v
    using as_f64_real_token [OF that] by (simp add: as_f64_def)
  then show ?thesis
    by (simp add: real_token_round_trips_bit_exact_def is_finite_def mag_def inf_mag_def)
qed

definition non_finite_real_is_rejected :: bool where
  "non_finite_real_is_rejected \<longleftrightarrow>
     fails_with (encode_value (Real NAN)) (\<lambda>m. has_part m ''finite'')
     \<and> is_err (encode_value (Real INFINITY)) \<and> is_err (encode_value (Real NEG_INFINITY))"

lemma contains_append:
  "has_part (p @ str s @ q) s"
proof -
  have "starts_with (drop (length p) (p @ str s @ q)) s" by (simp add: starts_with_def str_def)
  then show ?thesis unfolding has_part_def list_ex_iff by (intro bexI [of _ "length p"]) simp_all
qed

lemma not_finite: "\<not> is_finite NAN" "\<not> is_finite INFINITY" "\<not> is_finite NEG_INFINITY"
  by (simp_all add: is_finite_def mag_def inf_mag_def NAN_def INFINITY_def NEG_INFINITY_def)

lemma non_finite_real_is_rejected: non_finite_real_is_rejected
  using contains_append [of "str ''REAL param must be ''" "''finite''"
      "str '' (san-db-ox rejects NaN/Inf in params): '' @ debug_f64 NAN"]
  by (simp add: non_finite_real_is_rejected_def not_finite)

definition integer_encodes_as_bare_digits :: bool where
  "integer_encodes_as_bare_digits \<longleftrightarrow>
     unwraps (encode_value (Integer INT64_MAX)) (\<lambda>j. write_json j = str ''9223372036854775807'')
     \<and> unwraps (encode_value (Integer INT64_MIN)) (\<lambda>j. write_json j = str ''-9223372036854775808'')"

lemma integer_encodes_as_bare_digits: integer_encodes_as_bare_digits
  by (simp add: integer_encodes_as_bare_digits_def write_json_def show_i64_def show_int_def INT64_MAX_def INT64_MIN_def
      show_nat.simps)

definition empty_blob_encodes_as_single_empty_string_element :: bool where
  "empty_blob_encodes_as_single_empty_string_element \<longleftrightarrow>
     unwraps (encode_value (Blob [])) (\<lambda>j. write_json j = str ''[\"\"]'')"

lemma empty_blob_encodes_as_single_empty_string_element: empty_blob_encodes_as_single_empty_string_element
  by code_simp

definition empty_params_omits_the_field :: bool where
  "empty_params_omits_the_field \<longleftrightarrow> encode_params [] = Ok None"

lemma empty_params_omits_the_field: empty_params_omits_the_field
  by code_simp

definition param_error_is_wrapped_with_index :: bool where
  "param_error_is_wrapped_with_index \<longleftrightarrow>
     (let params = [Integer 1, Real NAN]
      in fails_with (encode_params params) (\<lambda>m. starts_with m ''params[1]:''))"

lemma param_error_is_wrapped_with_index: param_error_is_wrapped_with_index
  by (simp add: param_error_is_wrapped_with_index_def encode_params_def not_finite param_error_def starts_with_def
      show_nat.simps)

definition request_line_ends_with_exactly_one_newline :: bool where
  "request_line_ends_with_exactly_one_newline \<longleftrightarrow>
     (let line = encode_request_line [(''op'', json_str (str ''query'')), (''sql'', json_str (str ''SELECT 1''))]
      in from_utf8 line = Ok (str ''{\"op\":\"query\",\"sql\":\"SELECT 1\"}'' @ [10]))"

lemma request_line_ends_with_exactly_one_newline: request_line_ends_with_exactly_one_newline
proof -
  have "write_json (JObject [(str ''op'', json_str (str ''query'')), (str ''sql'', json_str (str ''SELECT 1''))])
      = str ''{\"op\":\"query\",\"sql\":\"SELECT 1\"}''"
    by code_simp
  moreover have "valid_string (str ''{\"op\":\"query\",\"sql\":\"SELECT 1\"}'')"
    by (simp add: is_scalar_def)
  ultimately show ?thesis
    using from_utf8_at_utf8 [of "str ''{\"op\":\"query\",\"sql\":\"SELECT 1\"}'' @ [10]"]
    by (simp add: request_line_ends_with_exactly_one_newline_def encode_request_line_def Let_def from_utf8_def is_scalar_def
        del: str_simps)
qed

section \<open>Decoder\<close>

lemma small_i64 [simp]:
  "as_i64 (NumberToken (str ''1'')) = Some 1" "as_i64 (NumberToken (str ''2'')) = Some 2"
  "as_i64 (NumberToken (str ''3'')) = Some 3" "as_i64 (NumberToken (str ''9'')) = Some 9"
  "as_i64 (NumberToken (str ''100'')) = Some 100" "as_i64 (NumberToken (str ''999'')) = Some 999"
  by (simp_all add: as_i64_def parse_i64_def int_opt_def digits_opt_def digits_value_def is_digit_def)

lemmas tree_simps = json_str_def num_def is_scalar_def

definition hello_ok :: bool where
  "hello_ok \<longleftrightarrow>
     decode_hello (bytes_of ''{\"protocol\":1,\"version\":\"v0.1.1\",\"product\":\"SanDBox\"}'')
     = Ok \<lparr>protocol = 1, hello_version = str ''v0.1.1'', product = str ''SanDBox''\<rparr>"

lemma decode_hello_fields:
  assumes "parse line = Ok (JObject [(str ''protocol'', JNumber (NumberToken n)), (str ''version'', JString v),
      (str ''product'', JString p)])" "as_i64 (NumberToken n) = Some i"
  shows "decode_hello line = Ok \<lparr>protocol = i, hello_version = v, product = p\<rparr>"
  using assms by (simp add: decode_hello_def required_int_def required_str_def required_def del: str_simps)

lemma hello_ok: hello_ok
  unfolding hello_ok_def
proof (rule decode_hello_fields)
  show "parse (bytes_of ''{\"protocol\":1,\"version\":\"v0.1.1\",\"product\":\"SanDBox\"}'')
      = Ok (JObject [(str ''protocol'', JNumber (NumberToken (str ''1''))), (str ''version'', JString (str ''v0.1.1'')),
          (str ''product'', JString (str ''SanDBox''))])"
    unfolding num_def [symmetric] by (rule parses, simp add: is_scalar_def, code_simp)
qed (rule small_i64)

definition hello_does_not_validate_protocol_number :: bool where
  "hello_does_not_validate_protocol_number \<longleftrightarrow>
     unwraps (decode_hello (bytes_of ''{\"protocol\":999,\"version\":\"x\",\"product\":\"SanDBox\"}''))
       (\<lambda>h. protocol h = 999)"

lemma hello_does_not_validate_protocol_number: hello_does_not_validate_protocol_number
proof -
  have "parse (bytes_of ''{\"protocol\":999,\"version\":\"x\",\"product\":\"SanDBox\"}'')
      = Ok (JObject [(str ''protocol'', JNumber (NumberToken (str ''999''))), (str ''version'', JString (str ''x'')),
          (str ''product'', JString (str ''SanDBox''))])"
    unfolding num_def [symmetric] by (rule parses, simp add: is_scalar_def, code_simp)
  from decode_hello_fields [OF this small_i64(6)] show ?thesis
    by (simp add: hello_does_not_validate_protocol_number_def)
qed

definition hello_missing_field_and_invalid_json :: bool where
  "hello_missing_field_and_invalid_json \<longleftrightarrow>
     is_err (decode_hello (bytes_of ''{\"protocol\":1,\"version\":\"x\"}''))
     \<and> is_err (decode_hello (bytes_of ''not json'')) \<and> is_err (decode_hello (bytes_of ''[1,2,3]''))"

lemma hello_missing_field_and_invalid_json: hello_missing_field_and_invalid_json
proof -
  have "parse (bytes_of ''{\"protocol\":1,\"version\":\"x\"}'')
      = Ok (JObject [(str ''protocol'', JNumber (NumberToken (str ''1''))), (str ''version'', JString (str ''x''))])"
    unfolding num_def [symmetric] by (rule parses, simp add: is_scalar_def, code_simp)
  moreover have "is_err (decode_hello (bytes_of ''not json''))" "is_err (decode_hello (bytes_of ''[1,2,3]''))"
    by code_simp+
  ultimately show ?thesis
    by (simp add: hello_missing_field_and_invalid_json_def decode_hello_def required_int_def required_str_def required_def
        del: str_simps)
qed

definition response_ok_true_carries_every_field :: bool where
  "response_ok_true_carries_every_field \<longleftrightarrow>
     unwraps (decode_response_line (bytes_of ''{\"ok\":true,\"columns\":[\"a\"],\"rows\":[],\"extra\":\"x\"}''))
       (\<lambda>r. resp_ok r \<and> Option.bind (get (resp_fields r) (str ''extra'')) as_str = Some (str ''x''))"

lemma response_ok_true_carries_every_field: response_ok_true_carries_every_field
proof -
  have "parse (bytes_of ''{\"ok\":true,\"columns\":[\"a\"],\"rows\":[],\"extra\":\"x\"}'')
      = Ok (JObject [(str ''ok'', JBool True), (str ''columns'', JArray [JString (str ''a'')]), (str ''rows'', JArray []),
          (str ''extra'', JString (str ''x''))])"
    by (rule parses, simp add: is_scalar_def, code_simp)
  then show ?thesis
    by (simp add: response_ok_true_carries_every_field_def decode_response_line_def Let_def del: str_simps)
qed

definition response_ok_false_with_and_without_error_object :: bool where
  "response_ok_false_with_and_without_error_object \<longleftrightarrow>
     unwraps (decode_response_line (bytes_of ''{\"ok\":false,\"error\":{\"code\":\"bad_request\",\"message\":\"nope\"}}''))
       (\<lambda>r. \<not> resp_ok r
          \<and> (case response_error (resp_fields r) of Some e \<Rightarrow> is_code e (str ''bad_request'') | None \<Rightarrow> False))
     \<and> unwraps (decode_response_line (bytes_of ''{\"ok\":false}''))
       (\<lambda>r. \<not> resp_ok r \<and> response_error (resp_fields r) = None)"

lemma response_ok_false_with_and_without_error_object: response_ok_false_with_and_without_error_object
proof -
  have "parse (bytes_of ''{\"ok\":false,\"error\":{\"code\":\"bad_request\",\"message\":\"nope\"}}'')
      = Ok (JObject [(str ''ok'', JBool False), (str ''error'', JObject [(str ''code'', JString (str ''bad_request'')),
          (str ''message'', JString (str ''nope''))])])"
    by (rule parses, simp add: is_scalar_def, code_simp)
  moreover have "parse (bytes_of ''{\"ok\":false}'') = Ok (JObject [(str ''ok'', JBool False)])"
    by (rule parses, simp add: is_scalar_def, code_simp)
  ultimately show ?thesis
    by (simp add: response_ok_false_with_and_without_error_object_def decode_response_line_def Let_def response_error_def
        is_code_iff del: str_simps)
qed

definition blob_array_wrong_length_rejected :: bool where
  "blob_array_wrong_length_rejected \<longleftrightarrow>
     is_err (decode_value (JArray []))
     \<and> is_err (decode_value (JArray [json_str (str ''a''), json_str (str ''b'')]))"

lemma blob_array_wrong_length_rejected: blob_array_wrong_length_rejected
  by code_simp

definition bool_in_cell_rejected :: bool where
  "bool_in_cell_rejected \<longleftrightarrow> is_err (decode_value (JBool True))"

lemma bool_in_cell_rejected: bool_in_cell_rejected
  by code_simp

definition rows_not_array_and_row_not_array_rejected_with_index :: bool where
  "rows_not_array_and_row_not_array_rejected_with_index \<longleftrightarrow>
     is_err (decode_rows JNull)
     \<and> fails_with (decode_rows (JArray [JNull])) (\<lambda>m. has_part m ''rows[0]'')"

lemma rows_not_array_and_row_not_array_rejected_with_index: rows_not_array_and_row_not_array_rejected_with_index
  by code_simp

lemma required_get: "get v (str k) = Some f \<Longrightarrow> required v k = Ok f"
  by simp

definition decode_query_exec_snapshot :: bool where
  "decode_query_exec_snapshot \<longleftrightarrow>
     unwraps (parse (bytes_of ''{\"ok\":true,\"columns\":[\"x\"],\"rows\":[[1]]}''))
       (\<lambda>v. decode_query_response v = Ok \<lparr>columns = [str ''x''], rows = [[Integer 1]]\<rparr>)
     \<and> unwraps (parse (bytes_of ''{\"ok\":true,\"rows_affected\":2,\"last_insert_id\":9}''))
       (\<lambda>v. decode_exec_response v = Ok \<lparr>rows_affected = 2, last_insert_id = 9\<rparr>)
     \<and> unwraps (parse (bytes_of ''{\"ok\":true,\"path\":\"snap.bin\"}''))
       (\<lambda>v. decode_snapshot_response v = Ok \<lparr>path = str ''snap.bin''\<rparr>)"

lemma decode_query_exec_snapshot: decode_query_exec_snapshot
proof -
  have "parse (bytes_of ''{\"ok\":true,\"columns\":[\"x\"],\"rows\":[[1]]}'')
      = Ok (JObject [(str ''ok'', JBool True), (str ''columns'', JArray [JString (str ''x'')]),
          (str ''rows'', JArray [JArray [num ''1'']])])"
    by (rule parses, simp add: is_scalar_def, code_simp)
  moreover have "parse (bytes_of ''{\"ok\":true,\"rows_affected\":2,\"last_insert_id\":9}'')
      = Ok (JObject [(str ''ok'', JBool True), (str ''rows_affected'', num ''2''), (str ''last_insert_id'', num ''9'')])"
    by (rule parses, simp add: is_scalar_def, code_simp)
  moreover have "parse (bytes_of ''{\"ok\":true,\"path\":\"snap.bin\"}'')
      = Ok (JObject [(str ''ok'', JBool True), (str ''path'', JString (str ''snap.bin''))])"
    by (rule parses, simp add: is_scalar_def, code_simp)
  moreover have "is_real (NumberToken (str ''1'')) = False"
    by code_simp
  ultimately show ?thesis
    by (simp add: decode_query_exec_snapshot_def decode_query_response_def decode_exec_response_def decode_snapshot_response_def
        required_str_list_def required_str_def required_int_def required_get decode_rows_def num_def del: str_simps)
qed

lemma inspect_fields:
  assumes "as_i64 (NumberToken m) = Some i" "as_i64 (NumberToken n) = Some j"
  shows "decode_inspect_response (JObject [(str ''ok'', JBool b), (str ''has_data'', JBool h),
      (str ''version'', JNumber (NumberToken m)), (str ''data_length'', JNumber (NumberToken n)),
      (str ''source'', JString s), (str ''read_only'', JBool r)])
    = Ok \<lparr>has_data = h, data_version = Some i, data_length = Some j, data_source = s, is_read_only = r\<rparr>"
  using assms
  by (simp add: decode_inspect_response_def required_bool_def required_optional_int_def required_str_def required_get
      del: str_simps)

lemma inspect_nulls:
  "decode_inspect_response (JObject [(str ''ok'', JBool b), (str ''has_data'', JBool h), (str ''version'', JNull),
      (str ''data_length'', JNull), (str ''source'', JString s), (str ''read_only'', JBool r)])
    = Ok \<lparr>has_data = h, data_version = None, data_length = None, data_source = s, is_read_only = r\<rparr>"
  by (simp add: decode_inspect_response_def required_bool_def required_optional_int_def required_str_def required_get
      del: str_simps)

definition decode_inspect_with_and_without_nulls :: bool where
  "decode_inspect_with_and_without_nulls \<longleftrightarrow>
     unwraps (parse (bytes_of ''{\"ok\":true,\"has_data\":true,\"version\":3,\"data_length\":100,\"source\":\"embedded\",\"read_only\":false}''))
       (\<lambda>v. decode_inspect_response v
            = Ok \<lparr>has_data = True, data_version = Some 3, data_length = Some 100, data_source = str ''embedded'',
                  is_read_only = False\<rparr>)
     \<and> unwraps (parse (bytes_of ''{\"ok\":true,\"has_data\":false,\"version\":null,\"data_length\":null,\"source\":\"none\",\"read_only\":true}''))
         (\<lambda>v. decode_inspect_response v
              = Ok \<lparr>has_data = False, data_version = None, data_length = None, data_source = str ''none'',
                    is_read_only = True\<rparr>)"

lemma decode_inspect_with_and_without_nulls: decode_inspect_with_and_without_nulls
proof -
  have "parse (bytes_of ''{\"ok\":true,\"has_data\":true,\"version\":3,\"data_length\":100,\"source\":\"embedded\",\"read_only\":false}'')
      = Ok (JObject [(str ''ok'', JBool True), (str ''has_data'', JBool True), (str ''version'', num ''3''),
          (str ''data_length'', num ''100''), (str ''source'', JString (str ''embedded'')), (str ''read_only'', JBool False)])"
    by (rule parses, simp add: is_scalar_def, code_simp)
  moreover have "parse (bytes_of ''{\"ok\":true,\"has_data\":false,\"version\":null,\"data_length\":null,\"source\":\"none\",\"read_only\":true}'')
      = Ok (JObject [(str ''ok'', JBool True), (str ''has_data'', JBool False), (str ''version'', JNull),
          (str ''data_length'', JNull), (str ''source'', JString (str ''none'')), (str ''read_only'', JBool True)])"
    by (rule parses, simp add: is_scalar_def, code_simp)
  ultimately show ?thesis
    by (simp only: decode_inspect_with_and_without_nulls_def unwraps.simps num_def inspect_nulls
        inspect_fields [OF small_i64(3,5)] simp_thms)
qed

definition decode_tables_schema_dump :: bool where
  "decode_tables_schema_dump \<longleftrightarrow>
     unwraps (parse (bytes_of ''{\"ok\":true,\"tables\":[\"a\",\"b\"]}''))
       (\<lambda>v. decode_tables_response v = Ok \<lparr>tables_of = [str ''a'', str ''b'']\<rparr>)
     \<and> unwraps (parse (bytes_of ''{\"ok\":true,\"schema\":[\"CREATE TABLE a(x)\"]}''))
         (\<lambda>v. decode_schema_response v = Ok \<lparr>schema_of = [str ''CREATE TABLE a(x)'']\<rparr>)
     \<and> unwraps (parse (bytes_of ''{\"ok\":true,\"sql\":\"INSERT INTO a VALUES(1);\"}''))
         (\<lambda>v. decode_dump_response v = Ok \<lparr>sql = str ''INSERT INTO a VALUES(1);''\<rparr>)"

lemma decode_tables_schema_dump: decode_tables_schema_dump
proof -
  have "parse (bytes_of ''{\"ok\":true,\"tables\":[\"a\",\"b\"]}'')
      = Ok (JObject [(str ''ok'', JBool True), (str ''tables'', JArray [JString (str ''a''), JString (str ''b'')])])"
    by (rule parses, simp add: is_scalar_def, code_simp)
  moreover have "parse (bytes_of ''{\"ok\":true,\"schema\":[\"CREATE TABLE a(x)\"]}'')
      = Ok (JObject [(str ''ok'', JBool True), (str ''schema'', JArray [JString (str ''CREATE TABLE a(x)'')])])"
    by (rule parses, simp add: is_scalar_def, code_simp)
  moreover have "parse (bytes_of ''{\"ok\":true,\"sql\":\"INSERT INTO a VALUES(1);\"}'')
      = Ok (JObject [(str ''ok'', JBool True), (str ''sql'', JString (str ''INSERT INTO a VALUES(1);''))])"
    by (rule parses, simp add: is_scalar_def, code_simp)
  ultimately show ?thesis
    by (simp add: decode_tables_schema_dump_def decode_tables_response_def decode_schema_response_def
        decode_dump_response_def required_str_list_def required_str_def required_get del: str_simps)
qed

definition missing_required_field_is_protocol_error :: bool where
  "missing_required_field_is_protocol_error \<longleftrightarrow>
     unwraps (parse (bytes_of ''{\"ok\":true,\"columns\":[\"x\"]}'')) (\<lambda>v. is_err (decode_query_response v))"

lemma missing_required_field_is_protocol_error: missing_required_field_is_protocol_error
proof -
  have "parse (bytes_of ''{\"ok\":true,\"columns\":[\"x\"]}'')
      = Ok (JObject [(str ''ok'', JBool True), (str ''columns'', JArray [JString (str ''x'')])])"
    by (rule parses, simp add: is_scalar_def, code_simp)
  then show ?thesis
    by (simp add: missing_required_field_is_protocol_error_def decode_query_response_def required_str_list_def
        required_def del: str_simps)
qed

definition decode_value_large_integer_and_real :: bool where
  "decode_value_large_integer_and_real \<longleftrightarrow>
     decode_value (num ''9223372036854775807'') = Ok (Integer INT64_MAX)
     \<and> decode_value (num ''88.0'') = Ok (Real 0x4056000000000000)
     \<and> decode_value (num ''9e999'') = Ok (Real INFINITY)"

lemma parse_88: "parse_f64 (str ''88.0'') = Some 0x4056000000000000"
proof -
  have d: "decimal_opt (str ''88.0'') = Some (880, - 1)"
    by (simp add: decimal_opt_def is_digit_def int_opt_def digits_opt_def digits_value_def)
  have k: "scaled 0x4056000000000000 = 88 * denom" by (simp add: scaled_def denom_def)
  have "round_dec 880 (- 1) = round_frac (88 * 10) (1 * 10)" by (simp add: round_dec_def)
  also have "\<dots> = round_frac 88 1" by (rule round_frac_cancel) simp
  also have "\<dots> = round_frac (88 * denom) (1 * denom)"
    by (rule round_frac_cancel [symmetric]) (simp add: denom_def)
  also have "\<dots> = 0x4056000000000000"
    using round_scaled [of "0x4056000000000000"] by (simp add: k inf_mag_def del: denom_def)
  finally have "magnitude_opt (str ''88.0'') = Some 0x4056000000000000" by (simp only: magnitude_opt_def d) simp
  then show ?thesis by (simp add: parse_f64_def make_f64_def)
qed

lemma decode_value_large_integer_and_real: decode_value_large_integer_and_real
proof -
  have "\<not> is_real (NumberToken (str ''9223372036854775807''))" "is_real (NumberToken (str ''88.0''))"
    "is_real (NumberToken (str ''9e999''))"
    by code_simp+
  then show ?thesis
    by (simp add: decode_value_large_integer_and_real_def num_def int64_texts as_f64_def parse_88 parse_9e999 make_inf
        del: str_simps)
qed

section \<open>Framer\<close>

text \<open>\<open>line_is f r\<close>: \<open>take_line\<close> returns \<open>r\<close>; the framer it leaves is \<open>after f\<close>.\<close>

definition line_is :: "framer \<Rightarrow> bytes option \<Rightarrow> bool" where
  "line_is f r \<longleftrightarrow> fst (take_line f) = Ok r"

definition after :: "framer \<Rightarrow> framer" where
  "after f = snd (take_line f)"

lemma framer_new: "buf new_framer = []" "scanned new_framer = 0"
  by (simp_all add: new_framer_def)

lemmas framer_run = line_is_def after_def take_line_spec push_def framer_ok_def framer_new bytes_of_def Let_def
  MAX_LINE_BYTES_def

definition multiple_lines_in_one_chunk :: bool where
  "multiple_lines_in_one_chunk \<longleftrightarrow>
     (let f = push new_framer (bytes_of (''one'' @ [CHR 0x0A] @ ''two'' @ [CHR 0x0A] @ ''thr''));
          f1 = after f;
          f2 = after f1
      in line_is f (Some (bytes_of ''one'')) \<and> line_is f1 (Some (bytes_of ''two'')) \<and> line_is f2 None)"

lemma multiple_lines_in_one_chunk: multiple_lines_in_one_chunk
  by (simp add: multiple_lines_in_one_chunk_def framer_run)

definition one_line_split_across_chunks :: bool where
  "one_line_split_across_chunks \<longleftrightarrow>
     (let f = push new_framer (bytes_of ''hel''); f1 = push (after f) (bytes_of (''lo'' @ [CHR 0x0A]))
      in line_is f None \<and> line_is f1 (Some (bytes_of ''hello'')))"

lemma one_line_split_across_chunks: one_line_split_across_chunks
  by (simp add: one_line_split_across_chunks_def framer_run)

definition lone_cr_does_not_split_a_line :: bool where
  "lone_cr_does_not_split_a_line \<longleftrightarrow>
     (let f = push new_framer (bytes_of (''a'' @ [CHR 0x0D] @ ''b'' @ [CHR 0x0A]))
      in line_is f (Some (bytes_of (''a'' @ [CHR 0x0D] @ ''b''))))"

lemma lone_cr_does_not_split_a_line: lone_cr_does_not_split_a_line
  by (simp add: lone_cr_does_not_split_a_line_def framer_run)

definition exactly_max_line_bytes_is_accepted :: bool where
  "exactly_max_line_bytes_is_accepted \<longleftrightarrow>
     (let line = replicate MAX_LINE_BYTES 120 @ [10]; f = push new_framer line
      in case fst (take_line f) of Ok (Some got) \<Rightarrow> length got = MAX_LINE_BYTES | _ \<Rightarrow> False)"

lemma exactly_max_line_bytes_is_accepted: exactly_max_line_bytes_is_accepted
  by (simp add: exactly_max_line_bytes_is_accepted_def take_line_spec framer_new takeWhile_append takeWhile_replicate)

definition one_byte_over_max_line_bytes_without_newline_is_terminal :: bool where
  "one_byte_over_max_line_bytes_without_newline_is_terminal \<longleftrightarrow>
     is_err (fst (take_line (push new_framer (replicate (MAX_LINE_BYTES + 1) 120))))"

lemma one_byte_over_max_line_bytes_without_newline_is_terminal: one_byte_over_max_line_bytes_without_newline_is_terminal
  by (simp add: one_byte_over_max_line_bytes_without_newline_is_terminal_def take_line_spec framer_new
      del: replicate_Suc)

definition trailing_partial_line_is_retained_not_emitted :: bool where
  "trailing_partial_line_is_retained_not_emitted \<longleftrightarrow>
     (let f = push new_framer (bytes_of (''complete'' @ [CHR 0x0A] @ ''partial''));
          f1 = after f;
          f2 = push (after f1) (bytes_of ('' line'' @ [CHR 0x0A]))
      in line_is f (Some (bytes_of ''complete'')) \<and> line_is f1 None \<and> line_is f2 (Some (bytes_of ''partial line'')))"

lemma trailing_partial_line_is_retained_not_emitted: trailing_partial_line_is_retained_not_emitted
  by (simp add: trailing_partial_line_is_retained_not_emitted_def framer_run)

end
