(* ===== verification/SocketTests.thy ===== *)
theory SocketTests
  imports SocketRpc CodecTests
begin

text \<open>
  The unit tests of \<open>rust/src/transport/socket.rs\<close> as programs over the model. Their network and their clock are
  parameters; a test passes if, in every environment with the stated behaviour, it returns and its
  assertions hold.
\<close>

section \<open>Vocabulary\<close>

definition passes :: "bool option \<Rightarrow> bool" where
  "passes t \<longleftrightarrow> t = Some True"

text \<open>\<open>r.unwrap()\<close> in the middle of a test.\<close>

fun unwrapping :: "('a, 'e) result \<Rightarrow> ('a \<Rightarrow> bool option) \<Rightarrow> bool option" where
  "unwrapping (Ok x) f = f x"
| "unwrapping _ f = Some False"

definition millis :: "nat \<Rightarrow> duration" where
  "millis n = n * 10 ^ 6"

definition seconds :: "nat \<Rightarrow> duration" where
  "seconds n = n * 10 ^ 9"

fun is_timeout :: "('a, error) result \<Rightarrow> bool" where
  "is_timeout (Err (Timeout m)) \<longleftrightarrow> True"
| "is_timeout _ \<longleftrightarrow> False"

lemma is_timeout_error [simp]: "is_timeout (Err timeout_error)"
  by (simp add: timeout_error_def)

section \<open>The echo server of the tests\<close>

definition echo_step :: "'w stream_ops \<Rightarrow> 'w \<Rightarrow> (unit option \<times> 'w) option" where
  "echo_step E w =
     do {
       (r, w1) \<leftarrow> stream_read E w 4096;
       (case r of
          Ok chunk \<Rightarrow>
            if chunk = [] then Some (Some (), w1)
            else
              do {
                (x, w2) \<leftarrow> stream_write_all E w1 chunk;
                Some ((if is_err x then Some () else None), w2)
              }
        | _ \<Rightarrow> Some (Some (), w1))
     }"

definition tcp_echo_server :: "'w stream_ops \<Rightarrow> 'w \<Rightarrow> (unit \<times> 'w) option" where
  "tcp_echo_server E = repeat (echo_step E)"

text \<open>Whenever it stops, what it wrote is what it read.\<close>

lemma echo_server_echoes:
  assumes "\<And>w r w'. stream_read E w 4096 = Some (r, w') \<Longrightarrow>
      heard w' = heard w @ (case r of Ok c \<Rightarrow> c | _ \<Rightarrow> []) \<and> said w' = said w"
    and "\<And>w c x w'. stream_write_all E w c = Some (x, w') \<Longrightarrow> heard w' = heard w \<and> said w' = said w @ c"
    and "tcp_echo_server E w = Some (u, w')" "heard w = said w"
  shows "heard w' = said w'"
  using assms(3) unfolding tcp_echo_server_def
proof (rule repeat_invariant [where P = "\<lambda>w. heard w = said w"])
  have step: "heard s' = said s'" if "heard s = said s" "echo_step E s = Some (r, s')" for s r s'
  proof -
    from that(2) obtain x w1 where x: "stream_read E s 4096 = Some (x, w1)"
      by (auto simp: echo_step_def split: bind_splits)
    note rd = assms(1) [OF x]
    show ?thesis
    proof (cases "\<exists>c. x = Ok c \<and> c \<noteq> []")
      case True
      then obtain c where c: "x = Ok c" "c \<noteq> []" by blast
      with that(2) x obtain y where "stream_write_all E w1 c = Some (y, s')"
        by (auto simp: echo_step_def split: bind_splits)
      from assms(2) [OF this] rd c that(1) show ?thesis by simp
    next
      case False
      with that(2) x have "w1 = s'" by (cases x) (auto simp: echo_step_def split: if_splits)
      with rd False that(1) show ?thesis by (cases x) auto
    qed
  qed
  show "heard s' = said s'" if "heard s = said s" "echo_step E s = Some (None, s')" for s s'
    using step that .
  show "heard s' = said s'" if "heard s = said s" "echo_step E s = Some (Some x, s')" for s s' x
    using step that .
qed (rule assms(4))

text \<open>Seen from the other end, a line is answered by itself. The tests send short ones; what becomes of a line over the cap does not matter.\<close>

definition echo :: "unit server" where
  "echo v line = (if fit_line line then line else [], v)"

section \<open>Echoes\<close>

definition echo_trip :: "'w stream_ops \<Rightarrow> 'w socket \<Rightarrow> string \<Rightarrow> bool option" where
  "echo_trip E t s =
     do {
       (x, t1) \<leftarrow> socket_write_line E t (bytes_of s @ [10]);
       unwrapping x (\<lambda>_.
         do {
           (line, t2) \<leftarrow> socket_read_line E t1 (Some (seconds 5));
           Some (line = Ok (bytes_of s))
         })
     }"

lemma echo_trip_passes:
  assumes "serving E echo vst pend t v []" "replies E pend lull" "in_time E pend lull clk due (Some (seconds 5))"
    "\<And>x t1. socket_write_line E t (bytes_of s @ [10]) = Some (x, t1) \<Longrightarrow>
       clock_lasts (stream_now E) (Some (seconds 5)) (stream t1)" "fit_line (bytes_of s)"
  shows "passes (echo_trip E t s)"
proof -
  from replies_write [OF assms(2)] obtain x t1 where w: "socket_write_line E t (bytes_of s @ [10]) = Some (x, t1)" by fastforce
  from assms(5) have "10 \<notin> set (bytes_of s)" by (simp add: fit_line_def)
  from serving_write [OF assms(1) this w] assms(5) have "x = Ok ()" "serving E echo vst pend t1 v [bytes_of s]"
    by (auto simp: echo_def)
  with w serving_prompt [OF this(2) assms(2,3) assms(4) [OF w]] show ?thesis by (auto simp: echo_trip_def passes_def)
qed

definition tcp_echo_round_trip :: "('w, 'a) net_ops \<Rightarrow> 'w stream_ops \<Rightarrow> 'w \<Rightarrow> bool option" where
  "tcp_echo_round_trip N E w =
     do {
       (r, w1) \<leftarrow> socket_connect_tcp N (Some (seconds 5)) w;
       unwrapping r (\<lambda>t. echo_trip E t ''hello'')
     }"

definition unix_echo_round_trip :: "('w, 'a) net_ops \<Rightarrow> 'w stream_ops \<Rightarrow> bytes \<Rightarrow> 'w \<Rightarrow> bool option" where
  "unix_echo_round_trip N E sock_path w =
     do {
       (r, w1) \<leftarrow> socket_connect_unix N sock_path w;
       unwrapping r (\<lambda>t. echo_trip E t ''hello'')
     }"

definition from_stream_over_a_unix_stream_pair_is_the_tls_seam_without_tls ::
  "'w stream_ops \<Rightarrow> 'w \<Rightarrow> bool option" where
  "from_stream_over_a_unix_stream_pair_is_the_tls_seam_without_tls E a = echo_trip E (from_stream a) ''ping''"

text \<open>A connection that was opened: a fresh transport on the stream.\<close>

lemma connected_fresh:
  "socket_connect_tcp N tmo w = Some (Ok t, w1) \<Longrightarrow> t = from_stream w1"
  "socket_connect_unix N p w = Some (Ok t, w1) \<Longrightarrow> t = from_stream w1"
  by (auto simp: socket_connect_tcp_def socket_connect_unix_def poll_and_wrap_def
      split: bind_splits prod.splits result.splits)

lemma serving_silent: "serves E srv vst pend \<Longrightarrow> pend w = [] \<Longrightarrow> serving E srv vst pend (from_stream w) (vst w) []"
  by (simp add: serving_def from_stream_def owed_def new_framer_def framer_ok_def)

lemma short_words: "fit_line (bytes_of ''hello'')" "fit_line (bytes_of ''ping'')" "fit_line (bytes_of ''partial'')"
  by (simp_all add: fit_line_def bytes_of_def MAX_LINE_BYTES_def)

lemma tcp_echo_round_trip:
  assumes "serves E echo vst pend" "replies E pend lull" "in_time E pend lull clk due (Some (seconds 5))"
    "\<And>x t1. socket_write_line E t (bytes_of ''hello'' @ [10]) = Some (x, t1) \<Longrightarrow>
       clock_lasts (stream_now E) (Some (seconds 5)) (stream t1)"
    "socket_connect_tcp N (Some (seconds 5)) w = Some (Ok t, w1)" "pend w1 = []"
  shows "passes (tcp_echo_round_trip N E w)"
proof -
  have t: "t = from_stream w1" using connected_fresh(1) [OF assms(5)] .
  show ?thesis
    using echo_trip_passes [OF serving_silent [OF assms(1,6)] assms(2-4) [unfolded t] short_words(1)]
    by (simp add: tcp_echo_round_trip_def assms(5) t)
qed

lemma unix_echo_round_trip:
  assumes "serves E echo vst pend" "replies E pend lull" "in_time E pend lull clk due (Some (seconds 5))"
    "\<And>x t1. socket_write_line E t (bytes_of ''hello'' @ [10]) = Some (x, t1) \<Longrightarrow>
       clock_lasts (stream_now E) (Some (seconds 5)) (stream t1)"
    "socket_connect_unix N p w = Some (Ok t, w1)" "pend w1 = []"
  shows "passes (unix_echo_round_trip N E p w)"
proof -
  have t: "t = from_stream w1" using connected_fresh(2) [OF assms(5)] .
  show ?thesis
    using echo_trip_passes [OF serving_silent [OF assms(1,6)] assms(2-4) [unfolded t] short_words(1)]
    by (simp add: unix_echo_round_trip_def assms(5) t)
qed

lemma from_stream_over_a_unix_stream_pair_is_the_tls_seam_without_tls:
  assumes "serves E echo vst pend" "replies E pend lull" "in_time E pend lull clk due (Some (seconds 5))"
    "\<And>x t1. socket_write_line E (from_stream a) (bytes_of ''ping'' @ [10]) = Some (x, t1) \<Longrightarrow>
       clock_lasts (stream_now E) (Some (seconds 5)) (stream t1)" "pend a = []"
  shows "passes (from_stream_over_a_unix_stream_pair_is_the_tls_seam_without_tls E a)"
  using echo_trip_passes [OF serving_silent [OF assms(1,5)] assms(2-4) short_words(2)]
  by (simp add: from_stream_over_a_unix_stream_pair_is_the_tls_seam_without_tls_def)

section \<open>Timeouts\<close>

text \<open>With nothing to come, a read only ends by its timeout.\<close>

lemma silent_step:
  assumes "serving E srv vst pend s v []" "read_step E dl s = Some (r, s')"
  shows "r = None \<and> serving E srv vst pend s' v [] \<or> r = Some (Err timeout_error)"
proof -
  from assms(1) have k: "serves E srv vst pend" "socket.terminal s = None" "vst (stream s) = v"
    "owed (framing s) (pend (stream s)) []" by (auto simp: serving_def)
  from k(4) have empty: "pend (stream s) = []" by (simp add: owed_def)
  have read: "vst w = v \<and> (\<exists>e. x = Err e \<and> kind e \<in> {WouldBlock, TimedOut, Interrupted}) \<and> pend w = []"
    if "stream_read E (stream s) BUF_SIZE = Some (x, w)" for x w
    using serves_read [OF k(1) that] k(3) by (cases x) (use empty in auto)
  from assms(2) show ?thesis
  proof (cases rule: read_step_cases)
    case (block e w b)
    with read [OF block(1)] serves_timed_out [OF k(1) block(5)] k empty show ?thesis by (auto simp: serving_def)
  next
    case (intr e)
    with read [OF intr(1)] k empty show ?thesis by (auto simp: serving_def)
  next
    case (panic rd)
    with read [OF panic(3)] show ?thesis by auto
  qed (use read in fastforce)+
qed

lemma clock_lasts_in: "clock_ok clock clk c \<Longrightarrow> clk w + c + t < INSTANT_END \<Longrightarrow> clock_lasts clock (Some t) w"
  using clock_okD [of clock clk c w "fst (clock w)" "snd (clock w)"] by (simp add: clock_lasts_def)

lemma silent_read:
  assumes "serving E srv vst pend s v []" "socket_read_line E s (Some t) = Some (r, s')"
    "clock_lasts (stream_now E) (Some t) (stream s)"
  shows "r = Err timeout_error"
proof -
  from assms(1) have k: "serves E srv vst pend" "socket.terminal s = None" "vst (stream s) = v"
    "owed (framing s) (pend (stream s)) []" by (auto simp: serving_def)
  obtain x f where x: "take_line (framing s) = (x, f)" by fastforce
  from owed_nothing [OF k(4) x] have f: "x = Ok None" "owed f (pend (stream s)) []" by auto
  obtain i w where i: "stream_now E (stream s) = (i, w)" by fastforce
  then have d: "deadline_in (stream_now E) (Some t) (stream s) = (Ok (Some (i + t)), w)"
    using assms(3) by (simp add: clock_lasts_def add_instant_def)
  from assms(2) have "repeat (read_step E (Some (i + t))) (s\<lparr>framing := f, stream := w\<rparr>) = Some (r, s')"
    using socket_read_loop [OF k(2) x [unfolded f(1)], of E "Some t"] d by simp
  then show ?thesis
  proof (rule repeat_invariant [where P = "\<lambda>s. serving E srv vst pend s v []"])
    show "serving E srv vst pend (s\<lparr>framing := f, stream := w\<rparr>) v []"
      using k f serves_deadline [OF k(1) d] by (simp add: serving_def)
  next
    show "serving E srv vst pend s2 v []"
      if "serving E srv vst pend s1 v []" "read_step E (Some (i + t)) s1 = Some (None, s2)" for s1 s2
      using silent_step [OF that] by simp
    show "y = Err timeout_error"
      if "serving E srv vst pend s1 v []" "read_step E (Some (i + t)) s1 = Some (Some y, s2)" for s1 s2 y
      using silent_step [OF that] by simp
  qed
qed

definition read_timeout_fires :: "('w, 'a) net_ops \<Rightarrow> 'w stream_ops \<Rightarrow> 'w \<Rightarrow> bool option" where
  "read_timeout_fires N E w =
     do {
       (r, w1) \<leftarrow> socket_connect_tcp N (Some (seconds 5)) w;
       unwrapping r (\<lambda>t. map_option (\<lambda>(x, t1). is_timeout x) (socket_read_line E t (Some (millis 50))))
     }"

lemma read_timeout_fires:
  assumes "serves E echo vst pend" "polling E clk patience c d" "clock_lasts (stream_now E) (Some (millis 50)) w1"
    "socket_connect_tcp N (Some (seconds 5)) w = Some (Ok t, w1)" "pend w1 = []"
  shows "passes (read_timeout_fires N E w)"
proof -
  from socket_read_returns [OF assms(2)] obtain x t1 where x: "socket_read_line E t (Some (millis 50)) = Some (x, t1)"
    by blast
  have "t = from_stream w1" using connected_fresh(1) [OF assms(4)] .
  with silent_read [OF serving_silent [OF assms(1,5)], of "millis 50"] x assms(3)
  have "x = Err timeout_error" by (simp add: from_stream_def)
  with x show ?thesis by (simp add: read_timeout_fires_def assms(4) passes_def)
qed

text \<open>The bytes of a line come in two parts; a read in between times out, and the next one has the whole line.\<close>

definition partial_line_survives_a_timeout_and_completes_next_read ::
  "('w, 'a) net_ops \<Rightarrow> 'w stream_ops \<Rightarrow> 'w \<Rightarrow> bool option" where
  "partial_line_survives_a_timeout_and_completes_next_read N E w =
     do {
       (r, w1) \<leftarrow> socket_connect_tcp N (Some (seconds 5)) w;
       unwrapping r (\<lambda>t.
         do {
           (x, t1) \<leftarrow> socket_read_line E t (Some (millis 50));
           if is_timeout x then
             do {
               (line, t2) \<leftarrow> socket_read_line E t1 (Some (seconds 5));
               Some (line = Ok (bytes_of ''partial''))
             }
           else Some False
         })
     }"

text \<open>
  A read that knows its line is not complete before its deadline: \<open>paced\<close> bounds the time of single calls, and
  the stream does not give out its last byte up to the time \<open>late\<close>.
\<close>

definition paced :: "'w stream_ops \<Rightarrow> ('w \<Rightarrow> instant) \<Rightarrow> duration \<Rightarrow> duration \<Rightarrow> bool" where
  "paced E clk c d \<longleftrightarrow> clock_ok (stream_now E) clk c \<and>
     (\<forall>w r w'. stream_read E w BUF_SIZE = Some (r, w') \<longrightarrow> clk w' \<le> clk w + d \<and> \<not> interrupted r)"

definition open_until :: "'w stream_ops \<Rightarrow> ('w \<Rightarrow> bytes) \<Rightarrow> ('w \<Rightarrow> instant) \<Rightarrow> instant \<Rightarrow> bool" where
  "open_until E pend clk late \<longleftrightarrow>
     (\<forall>w chunk w'. stream_read E w BUF_SIZE = Some (Ok chunk, w') \<longrightarrow> pend w' = [] \<longrightarrow> late < clk w')"

lemma open_step:
  assumes "serving E srv vst pend s v [a]" "paced E clk c d" "open_until E pend clk late" "dl + d + c \<le> late"
    "clk (stream s) \<le> dl" "read_step E (Some dl) s = Some (r, s')"
  shows "serving E srv vst pend s' v [a] \<and> clk (stream s') \<le> dl + d + c
    \<and> (r = None \<and> clk (stream s') \<le> dl \<or> r = Some (Err timeout_error))"
proof -
  have clock: "clock_ok (stream_now E) clk c" using assms(2) by (simp add: paced_def)
  have read: "clk w \<le> clk (stream s) + d" "\<not> interrupted x" if "stream_read E (stream s) BUF_SIZE = Some (x, w)" for x w
    using assms(2) that unfolding paced_def by blast+
  have serves: "serves E srv vst pend" using assms(1) by (simp add: serving_def)
  note out = serving_step [OF assms(1,6)]
  from assms(6) show ?thesis
  proof (cases rule: read_step_cases)
    case (line chunk line)
    from out line(1) have "pend (stream s') = []" by (auto simp: serving_def owed_def)
    with line(4) assms(3) read [OF line(4)] assms(4,5) show ?thesis unfolding open_until_def by fastforce
  next
    case (more chunk w b)
    with out read [OF more(3)] timed_out_clock [OF clock more(5)] assms(5) show ?thesis by auto
  next
    case (block e w b)
    with out read [OF block(1)] timed_out_clock [OF clock block(5)] assms(5) show ?thesis by auto
  next
    case (intr e)
    with read [OF intr(1)] show ?thesis by (simp add: interrupted_def)
  next
    case (cap chunk e)
    with read [OF cap(4)] out assms(5) show ?thesis by auto
  qed (use out in \<open>auto simp: eof_error_def timeout_error_def line_cap_error_def from_io_def dest: serves_read [OF serves]\<close>)
qed

lemma open_read:
  assumes "serving E srv vst pend (from_stream w) v [a]" "replies E pend lull" "\<And>dl. patient_clock E lull dl"
    "paced E clk c d" "open_until E pend clk (clk w + t + d + 2 * c)" "clk w + c + t < INSTANT_END"
  shows "\<exists>s. socket_read_line E (from_stream w) (Some t) = Some (Err timeout_error, s) \<and> serving E srv vst pend s v [a]
    \<and> clk (stream s) \<le> clk w + t + d + 2 * c"
proof -
  let ?s = "from_stream w"
  have clock: "clock_ok (stream_now E) clk c" using assms(4) by (simp add: paced_def)
  have k: "serves E srv vst pend" "vst w = v" "owed (framing ?s) (pend w) [a]" "socket.terminal ?s = None"
    using assms(1) by (auto simp: serving_def from_stream_def)
  have x: "take_line (framing ?s) = (Ok None, new_framer)"
    by (simp add: from_stream_def take_line_eq new_framer_def MAX_LINE_BYTES_def)
  obtain i w1 where i: "stream_now E w = (i, w1)" by fastforce
  from clock_okD [OF clock i] have time: "clk w1 = i" "i \<le> clk w + c" by auto
  from i time(2) assms(6) have d: "deadline_in (stream_now E) (Some t) w = (Ok (Some (i + t)), w1)"
    by (simp add: add_instant_def)
  let ?s1 = "?s\<lparr>framing := new_framer, stream := w1\<rparr>"
  have s1: "serving E srv vst pend ?s1 v [a]" "10 \<notin> set (buf (framing ?s1))"
    using k serves_deadline [OF k(1) d] by (auto simp: serving_def from_stream_def new_framer_def)
  from serving_loop_returns [OF s1 assms(2,3)] obtain r s' where
    r: "repeat (read_step E (Some (i + t))) ?s1 = Some (r, s')" by fastforce
  let ?P = "\<lambda>s. serving E srv vst pend s v [a] \<and> clk (stream s) \<le> i + t"
  have "i + t + d + c \<le> clk w + t + d + 2 * c" using time by simp
  note step = open_step [OF _ assms(4,5) this]
  from r have "r = Err timeout_error \<and> serving E srv vst pend s' v [a] \<and> clk (stream s') \<le> i + t + d + c"
  proof (rule repeat_invariant [where P = ?P])
    show "?P s2" if "?P s1" "read_step E (Some (i + t)) s1 = Some (None, s2)" for s1 s2
      using step [of srv vst s1 v a None s2] that by simp
    show "y = Err timeout_error \<and> serving E srv vst pend s2 v [a] \<and> clk (stream s2) \<le> i + t + d + c"
      if "?P s1" "read_step E (Some (i + t)) s1 = Some (Some y, s2)" for s1 s2 y
      using step [of srv vst s1 v a "Some y" s2] that by simp
  qed (use s1 time in simp)
  moreover have "socket_read_line E ?s (Some t) = Some (r, s')"
    using socket_read_loop [OF k(4) x, of E "Some t"] d r by (simp add: from_stream_def)
  ultimately show ?thesis using time by auto
qed

lemma partial_line_survives_a_timeout_and_completes_next_read:
  assumes "serves E srv vst pend" "replies E pend lull" "in_time E pend lull clk due (Some (seconds 5))"
    "paced E clk c d" "open_until E pend clk (clk w1 + millis 50 + d + 2 * c)"
    "clk w1 + millis 50 + d + 3 * c + seconds 5 < INSTANT_END"
    "socket_connect_tcp N (Some (seconds 5)) w = Some (Ok t, w1)" "pend w1 = bytes_of ''partial'' @ [10]"
  shows "passes (partial_line_survives_a_timeout_and_completes_next_read N E w)"
proof -
  have t: "t = from_stream w1" using connected_fresh(1) [OF assms(7)] .
  note s = serving_fresh [OF assms(1,8) short_words(3)]
  have "patient_clock E lull dl" for dl
    using in_time_patient [OF assms(3), of "Some 0"] by (cases dl) (simp_all add: patient_clock_def)
  from open_read [OF s assms(2) this assms(4,5)] assms(6) obtain t1 where
    t1: "socket_read_line E t (Some (millis 50)) = Some (Err timeout_error, t1)"
      "serving E srv vst pend t1 (vst w1) [bytes_of ''partial'']" "clk (stream t1) \<le> clk w1 + millis 50 + d + 2 * c"
    unfolding t by fastforce
  have "clock_ok (stream_now E) clk c" using assms(4) by (simp add: paced_def)
  then have "clock_lasts (stream_now E) (Some (seconds 5)) (stream t1)"
    by (rule clock_lasts_in) (use t1(3) assms(6) in simp)
  from serving_prompt [OF t1(2) assms(2,3) this] t1(1) show ?thesis
    by (auto simp: partial_line_survives_a_timeout_and_completes_next_read_def assms(7) passes_def)
qed

text \<open>
  Such a stream, to an echo: it gives out the first three bytes of a longer line, and the rest after 150
  milliseconds. Its world is what is pending and the time.
\<close>

definition parted :: "(bytes \<times> instant) stream_ops" where
  "parted =
     \<lparr>stream_read = (\<lambda>(p, time) n. Some (
        if 5 < length p then (Ok (take 3 p), (drop 3 p, time))
        else if p = [] \<or> time \<le> millis 150 then (Err \<lparr>kind = WouldBlock, io_text = []\<rparr>, (p, time + millis 20))
        else (Ok p, ([], time)))),
      stream_write_all = (\<lambda>(p, time) line. Some (Ok (), (p @ fst (echo () (butlast line)) @ [10], time))),
      stream_flush = (\<lambda>w. Some (Ok (), w)),
      stream_now = (\<lambda>w. (snd w, w))\<rparr>"

lemma parted_serves: "serves parted echo (\<lambda>w. ()) fst"
  unfolding serves_def by (auto simp: parted_def echo_def fit_line_def BUF_SIZE_def split: if_splits)

lemma parted_replies: "replies parted fst (\<lambda>w. millis 150 + 1 - snd w)"
  by (auto simp: replies_def parted_def millis_def split: if_splits)

lemma parted_in_time:
  "in_time parted fst (\<lambda>w. millis 150 + 1 - snd w) snd (\<lambda>w. millis 170 + 1 - snd w) (Some (seconds 5))"
  unfolding in_time_def option.case by (auto simp: parted_def millis_def seconds_def split: if_splits)

lemma parted_paced: "paced parted snd 0 (millis 20)" "open_until parted fst snd (millis 90)"
  by (auto simp: paced_def open_until_def clock_ok_def interrupted_def parted_def millis_def split: if_splits)

definition quick_net :: "(bytes \<times> instant, unit) net_ops" where
  "quick_net =
     \<lparr>resolve_addrs = (\<lambda>w. Some (Ok [()], w)),
      connect_any = (\<lambda>w as. Some (Ok (), w)),
      connect_one = (\<lambda>w a t. Some (Ok (), w)),
      connect_path = (\<lambda>w p. Some (Ok (), w)),
      set_read_timeout = (\<lambda>w t. (Ok (), w)),
      net_now = (\<lambda>w. (snd w, w))\<rparr>"

lemma quick_connect: "socket_connect_tcp quick_net (Some (seconds 5)) (p, 0) = Some (Ok (from_stream (p, 0)), (p, 0))"
  by (simp add: socket_connect_tcp_def dial_tcp_def dial_addrs_def quick_net_def poll_and_wrap_def add_instant_def
      seconds_def INSTANT_END_def)

lemma partial_line_over_parted:
  "passes (partial_line_survives_a_timeout_and_completes_next_read quick_net parted (bytes_of ''partial'' @ [10], 0))"
proof (rule partial_line_survives_a_timeout_and_completes_next_read
    [OF parted_serves parted_replies parted_in_time parted_paced(1) _ _ quick_connect])
  show "open_until parted fst snd (snd (bytes_of ''partial'' @ [10], 0) + millis 50 + millis 20 + 2 * 0)"
    using parted_paced(2) by (force simp: open_until_def millis_def)
qed (simp_all add: millis_def seconds_def INSTANT_END_def)

lemma tcp_echo_over_parted: "passes (tcp_echo_round_trip quick_net parted ([], 0))"
  by (rule tcp_echo_round_trip [OF parted_serves parted_replies parted_in_time _ quick_connect])
    (auto simp: socket_write_line_def parted_def from_stream_def clock_lasts_def seconds_def INSTANT_END_def split: bind_splits)

section \<open>Connecting\<close>

definition connect_tcp_bounds_the_connection_attempt_by_its_own_timeout :: "('w, 'a) net_ops \<Rightarrow> 'w \<Rightarrow> bool option" where
  "connect_tcp_bounds_the_connection_attempt_by_its_own_timeout N w =
     (case net_now N w of
        (began, w1) \<Rightarrow>
          do {
            (r, w2) \<leftarrow> socket_connect_tcp N (Some (millis 300)) w1;
            Some (is_err r \<and> fst (net_now N w2) - began < seconds 5)
          })"

lemma connect_tcp_bounds_the_connection_attempt_by_its_own_timeout:
  assumes "prompt_connect N clk c d" "d + 3 * c < seconds 2"
    "\<And>w. \<exists>as w'. resolve_addrs N w = Some (Ok as, w') \<and> clk w' \<le> clk w + d"
    "\<And>w a t. \<exists>e w'. connect_one N w a t = Some (Err e, w')"
    "clk w + 2 * c + d + millis 300 < INSTANT_END"
  shows "passes (connect_tcp_bounds_the_connection_attempt_by_its_own_timeout N w)"
proof -
  have clock: "clock_ok (net_now N) clk c" using assms(1) by (simp add: prompt_connect_def)
  obtain began w1 where b: "net_now N w = (began, w1)" by fastforce
  from assms(3) obtain as w2 where r: "resolve_addrs N w1 = Some (Ok as, w2)" "clk w2 \<le> clk w1 + d" by blast
  have fails: "\<exists>e w'. dial_loop N dl as le v = Some (Err e, w')" for dl le v
  proof (induction as arbitrary: le v)
    case (Cons a as)
    obtain i v1 where i: "net_now N v = (i, v1)" by fastforce
    from assms(4) obtain e v2 where "connect_one N v1 a (dl - i) = Some (Err e, v2)" by blast
    with i Cons show ?case by simp
  qed simp
  obtain i w3 where i: "net_now N w2 = (i, w3)" by fastforce
  have "began \<le> clk w + c" "clk w1 = began" "i \<le> clk w2 + c"
    using clock_okD [where clock = "net_now N", OF clock b] clock_okD [where clock = "net_now N", OF clock i] by auto
  with r(2) assms(5) have "i + millis 300 < INSTANT_END" by simp
  note lasts = this
  with i fails have "\<exists>e w'. dial_addrs N as (Some (millis 300)) w2 = Some (Err e, w')"
    by (simp add: dial_addrs_def add_instant_def)
  then obtain e w4 where e: "dial_addrs N as (Some (millis 300)) w2 = Some (Err e, w4)" by blast
  have "clk w3 = i" "i \<le> clk w2 + c" using clock_okD [where clock = "net_now N", OF clock i] by auto
  with dial_loop_time [OF assms(1), of w3 "i + millis 300" as None] e i lasts
  have late: "clk w4 \<le> clk w2 + millis 300 + d + 2 * c"
    by (auto simp: dial_addrs_def add_instant_def split: if_splits)
  from e r(1) have c: "socket_connect_tcp N (Some (millis 300)) w1 = Some (Err e, w4)"
    by (simp add: socket_connect_tcp_def dial_tcp_def)
  obtain ended w5 where w5: "net_now N w4 = (ended, w5)" by fastforce
  have "clk w1 = began" "ended \<le> clk w4 + c"
    using clock_okD [where clock = "net_now N", OF clock b] clock_okD [where clock = "net_now N", OF clock w5] by auto
  with late r(2) assms(2) have "ended - began < seconds 5" by (simp add: seconds_def millis_def)
  with b c w5 show ?thesis
    by (simp add: connect_tcp_bounds_the_connection_attempt_by_its_own_timeout_def passes_def)
qed

end
