(* ===== verification/CloseTime.thy ===== *)
theory CloseTime
  imports DirectProps
begin

text \<open>
  How long \<open>close\<close> of \<open>rust/src/transport/direct.rs\<close> takes as a whole, and what it finds out of a child
  whose death is known: the time of it and the exit status.
\<close>

section \<open>The end of the reader thread\<close>

text \<open>
  The wait for the thread ends at its deadline, or once the thread has finished: \<open>stays\<close> is an invariant
  under which it has from \<open>fin\<close> on, if that is known.
\<close>

definition finishes :: "'w channel_ops \<Rightarrow> ('w \<Rightarrow> instant) \<Rightarrow> ('w \<Rightarrow> bool) \<Rightarrow> instant option \<Rightarrow> bool" where
  "finishes E clk stays fin \<longleftrightarrow>
     (\<forall>w. stays w \<longrightarrow> stays (snd (now E w)) \<and> stays (snd (is_finished E w)))
     \<and> (\<forall>w t. stays w \<longrightarrow> stays (sleep E w t)) \<and> (\<forall>w. stays w \<longrightarrow> stays (join_thread E w))
     \<and> (\<forall>w f. fin = Some f \<longrightarrow> stays w \<longrightarrow> f \<le> clk w \<longrightarrow> fst (is_finished E w))"

lemma finishes_never [simp]: "finishes E clk (\<lambda>w. True) None"
  by (simp add: finishes_def)

lemma finishesD:
  assumes "finishes E clk stays fin" "stays w"
  shows "now E w = (i, w') \<Longrightarrow> stays w'" "is_finished E w = (b, w') \<Longrightarrow> stays w'"
    "stays (sleep E w t)" "stays (join_thread E w)"
    "fin = Some f \<Longrightarrow> is_finished E w = (False, w') \<Longrightarrow> clk w < f"
  using assms unfolding finishes_def by (metis snd_conv, metis snd_conv, blast, blast, metis fst_conv not_le)

definition stop_at :: "instant \<Rightarrow> instant option \<Rightarrow> instant" where
  "stop_at dl fin = (case fin of None \<Rightarrow> dl | Some f \<Rightarrow> min dl f)"

lemma join_wait_step_time:
  assumes "channel_time E clk c d" "finishes E clk stays fin" "stays w" "join_wait_step E dl w = Some (r, w')"
  shows "stays w' \<and> clk w \<le> clk w' \<and> (r = None \<longrightarrow> clk w < stop_at dl fin \<and> clk w' \<le> clk w + 10 ^ 6 + 2 * d + c)
    \<and> (r \<noteq> None \<longrightarrow> clk w' \<le> clk w + d + c)"
proof -
  obtain b w1 where b: "is_finished E w = (b, w1)" by fastforce
  obtain i w2 where i: "now E w1 = (i, w2)" by fastforce
  have w1: "stays w1" "stays w2" using finishesD(2) [OF assms(2,3) b] finishesD(1) [OF assms(2) _ i] by blast+
  have "clk w2 = i \<and> clk w1 \<le> i \<and> i \<le> clk w1 + c"
    by (rule clock_okD [where clock = "now E" and clk = clk and c = c, OF channel_time_simps(1) [OF assms(1)] i])
  with assms(4) channel_time_simps(3) [OF assms(1) b] channel_time_simps(5) [OF assms(1), of w2 "10 ^ 6"] b i w1
    finishesD(3) [OF assms(2) w1(2), of "10 ^ 6"] finishesD(5) [OF assms(2,3)]
  show ?thesis
    by (auto simp: join_wait_step_def stop_at_def split: if_splits option.splits)
qed

lemma reader_join_time:
  assumes "channel_time E clk c d" "finishes E clk stays fin" "stays w" "clk w + c + t < INSTANT_END"
  shows "\<exists>w' rd'. reader_join E (w, rd) t = Some (Ok (), w', rd') \<and> stays w' \<and> clk w \<le> clk w'
    \<and> clk w' \<le> max (clk w + c) (stop_at (clk w + c + t) fin) + 10 ^ 6 + 5 * d + 2 * c"
proof (cases "handle rd")
  case True
  obtain r w1 where r: "deadline_in (now E) (Some t) w = (r, w1)" by fastforce
  note r' = deadline_in_clock [OF channel_time_simps(1) [OF assms(1)] r]
  let ?dl = "clk w1 + t"
  let ?top = "max (clk w + c) (stop_at (clk w + c + t) fin) + 10 ^ 6 + 2 * d + c"
  from r' assms(4) have ok: "r = Ok (Some ?dl)" by auto
  have "stays w1" using r finishesD(1) [OF assms(2,3)] by (auto split: prod.splits)
  let ?P = "\<lambda>v. stays v \<and> clk w \<le> clk v \<and> clk v \<le> ?top"
  have stop: "stop_at ?dl fin \<le> stop_at (clk w + c + t) fin" using r' by (auto simp: stop_at_def split: option.splits)
  have init: "?P w1" using r' \<open>stays w1\<close> by auto
  obtain u w2 where u: "repeat (join_wait_step E ?dl) w1 = Some (u, w2)"
    using reader_join_returns [OF assms(1), of w rd t] r ok True by (auto simp: reader_join_def split: bind_splits)
  then have w2: "stays w2 \<and> clk w \<le> clk w2 \<and> clk w2 \<le> ?top + d + c"
  proof (rule repeat_invariant [where P = ?P])
    show "?P v'" if "?P v" "join_wait_step E ?dl v = Some (None, v')" for v v'
      using join_wait_step_time [OF assms(1,2) _ that(2)] that(1) stop by auto
    show "stays v' \<and> clk w \<le> clk v' \<and> clk v' \<le> ?top + d + c" if "?P v" "join_wait_step E ?dl v = Some (Some x, v')" for v v' x
      using join_wait_step_time [OF assms(1,2) _ that(2)] that(1) by auto
  qed (rule init)
  obtain b w3 where b: "is_finished E w2 = (b, w3)" by fastforce
  have "stays w3" "clk w2 \<le> clk w3" "clk w3 \<le> clk w2 + d"
    using finishesD(2) [OF assms(2) _ b] channel_time_simps(3) [OF assms(1) b] w2 by auto
  with channel_time_simps(4) [OF assms(1), of w3] finishesD(4) [OF assms(2), of w3] w2 r ok u b True
  show ?thesis by (auto simp: reader_join_def)
qed (use assms(3) in \<open>auto simp: reader_join_def\<close>)

section \<open>The whole of a close\<close>

text \<open>
  Every call of \<open>close\<close> other than the waits takes at most \<open>d\<close>, the wait for a child that has been killed and the
  join of the drain included; these two return.
\<close>

definition lasts :: "('w \<Rightarrow> instant) \<Rightarrow> duration \<Rightarrow> 'w \<Rightarrow> 'w \<Rightarrow> bool" where
  "lasts clk d w w' \<longleftrightarrow> clk w \<le> clk w' \<and> clk w' \<le> clk w + d"

definition close_calls :: "('w, 'k) process_ops \<Rightarrow> ('w \<Rightarrow> instant) \<Rightarrow> duration \<Rightarrow> duration \<Rightarrow> bool" where
  "close_calls E clk c d \<longleftrightarrow> process_time E clk c d
     \<and> (\<forall>w. lasts clk d w (drop_stdin E w)) \<and> (\<forall>w p n. lasts clk d w (snd (kill_syscall E w p n)))
     \<and> (\<forall>w. lasts clk d w (snd (kill_child E w))) \<and> (\<forall>w. lasts clk d w (drop_receiver E w))
     \<and> (\<forall>w. \<exists>x w'. wait_child E w = Some (x, w') \<and> lasts clk d w w')
     \<and> (\<forall>w. \<exists>w'. join_drain E w = Some w' \<and> lasts clk d w w')"

lemma terminate_world: "snd (terminate E p w) = snd (kill_syscall E w p 15)"
  by (simp add: terminate_def split_def)

lemma close_callsD:
  assumes "close_calls E clk c d"
  shows "process_time E clk c d" "lasts clk d w (drop_stdin E w)" "lasts clk d w (snd (kill_child E w))"
    "lasts clk d w (snd (terminate E p w))" "lasts clk d w (drop_receiver E w)"
    "\<exists>x w'. wait_child E w = Some (x, w') \<and> lasts clk d w w'"
    "\<exists>w'. join_drain E w = Some w' \<and> lasts clk d w w'"
  using assms by (auto simp: close_calls_def terminate_world)

lemma wait_for_lasts:
  assumes "process_time E clk c d" "clk w + c + t < INSTANT_END"
  shows "\<exists>st w'. wait_for E t w = Some (Ok st, w') \<and> clk w' \<le> clk w + t + 2 * d + 2 * c
    \<and> (st = None \<longrightarrow> clk w + t \<le> clk w')"
proof -
  from wait_for_time [OF assms(1), of t w] obtain r w' where
    r: "wait_for E t w = Some (r, w')" "clk w' \<le> clk w + t + 2 * d + 2 * c"
      "r = Ok None \<longrightarrow> clk w + t \<le> clk w'" "\<forall>e. r \<noteq> Err e" by blast
  obtain x w1 where x: "deadline_in (now (channel E)) (Some t) w = (x, w1)" by fastforce
  from deadline_in_clock [OF process_timeD(2) [OF assms(1)] x] assms(2) have "x = Ok (Some (clk w1 + t))" by auto
  with r(1) x have "r \<noteq> Panic" by (auto simp: wait_for_def simp del: deadline_in.simps)
  with r show ?thesis by (cases r) auto
qed

lemma escalate_time:
  assumes "close_calls E clk c d" "clk w + 2 * t + 3 * d + 3 * c < INSTANT_END"
  shows "\<exists>st w'. escalate E t w = Some (Ok st, w') \<and> clk w' \<le> clk w + 2 * t + 7 * d + 4 * c"
proof -
  note k = close_callsD [OF assms(1)]
  from wait_for_lasts [OF k(1), of w t] assms(2) obtain st1 w1 where
    w1: "wait_for E t w = Some (Ok st1, w1)" "clk w1 \<le> clk w + t + 2 * d + 2 * c" by auto
  show ?thesis
  proof (cases st1)
    case None
    let ?w2 = "snd (terminate E (child_id E w1) w1)"
    have w2: "clk ?w2 \<le> clk w1 + d" using k(4) by (simp add: lasts_def)
    with w1(2) assms(2) wait_for_lasts [OF k(1), of ?w2 t] obtain st3 w3 where
      w3: "wait_for E t ?w2 = Some (Ok st3, w3)" "clk w3 \<le> clk ?w2 + t + 2 * d + 2 * c" by auto
    show ?thesis
    proof (cases st3)
      case None
      from k(6) obtain x w4 where w4: "wait_child E (snd (kill_child E w3)) = Some (x, w4)"
          "lasts clk d (snd (kill_child E w3)) w4" by blast
      with k(3) [of w3] have "clk w4 \<le> clk w3 + 2 * d" by (simp add: lasts_def)
      with w1 w2 w3 w4 \<open>st1 = None\<close> None show ?thesis by (auto simp: escalate_def)
    qed (use w1 w2 w3 \<open>st1 = None\<close> in \<open>auto simp: escalate_def\<close>)
  qed (use w1 in \<open>auto simp: escalate_def\<close>)
qed

lemma join_threads_time:
  assumes "close_calls E clk c d" "finishes (channel E) clk stays fin" "stays (world s)"
    "\<And>w'. stderr_thread s \<Longrightarrow> join_drain E (world s) = Some w' \<Longrightarrow> stays w'" "clk (world s) + d + c + t < INSTANT_END"
  shows "\<exists>s'. join_threads E t s = Some (Ok (), s') \<and> exit_code s' = exit_code s \<and> clk (world s) \<le> clk (world s')
    \<and> clk (world s') \<le> max (clk (world s) + d + c) (stop_at (clk (world s) + d + c + t) fin) + 10 ^ 6 + 6 * d + 2 * c"
proof -
  note k = close_callsD [OF assms(1)]
  from k(7) obtain wd where "join_drain E (world s) = Some wd" "lasts clk d (world s) wd" by blast
  with assms(3,4) obtain w1 where w1: "(if stderr_thread s then join_drain E (world s) else Some (world s)) = Some w1"
      "lasts clk d (world s) w1" "stays w1"
    by (cases "stderr_thread s") (auto simp: lasts_def)
  show ?thesis
  proof (cases "line_reader s")
    case (Some rd)
    have late: "stop_at (clk w1 + c + t) fin \<le> stop_at (clk (world s) + d + c + t) fin"
      using w1(2) by (auto simp: stop_at_def lasts_def split: option.splits)
    from w1(2) assms(5) have "clk w1 + c + t < INSTANT_END" by (simp add: lasts_def)
    from reader_join_time [OF process_timeD(1) [OF k(1)] assms(2) w1(3) this, of rd] obtain w' rd' where
      "reader_join (channel E) (w1, rd) t = Some (Ok (), w', rd')" "clk w1 \<le> clk w'"
      "clk w' \<le> max (clk w1 + c) (stop_at (clk w1 + c + t) fin) + 10 ^ 6 + 5 * d + 2 * c" by blast
    with Some w1 late k(5) [of w'] show ?thesis by (auto simp: join_threads_def lasts_def)
  qed (use w1 in \<open>auto simp: join_threads_def lasts_def\<close>)
qed

lemma direct_close_time:
  assumes "close_calls E clk c d" "clk (world s) + 3 * t + 9 * d + 5 * c < INSTANT_END"
  shows "\<exists>s'. direct_close E s t = Some (Ok (), s') \<and> clk (world s') \<le> clk (world s) + 3 * t + 10 ^ 6 + 15 * d + 7 * c"
proof (cases "\<not> stdin s \<and> line_reader s = None \<and> \<not> stderr_thread s \<and> exit_code s \<noteq> None")
  case True
  then show ?thesis by (simp add: direct_close_def)
next
  case False
  let ?w = "if stdin s then drop_stdin E (world s) else world s"
  have w: "clk ?w \<le> clk (world s) + d" using close_callsD(2) [OF assms(1)] by (simp add: lasts_def)
  with escalate_time [OF assms(1), of ?w t] assms(2) obtain st w1 where
    w1: "escalate E t ?w = Some (Ok st, w1)" "clk w1 \<le> clk ?w + 2 * t + 7 * d + 4 * c" by auto
  let ?s = "s\<lparr>world := w1, stdin := False, exit_code := map_option exit_code_of st\<rparr>"
  have "clk (world ?s) + d + c + t < INSTANT_END" using w w1(2) assms(2) by simp
  from join_threads_time [OF assms(1) finishes_never _ _ this] obtain s' where
    "join_threads E t ?s = Some (Ok (), s')"
    "clk (world s') \<le> clk w1 + d + c + t + 10 ^ 6 + 6 * d + 2 * c" by (auto simp: stop_at_def)
  with w w1 False show ?thesis by (auto simp: direct_close_def)
qed

section \<open>A child whose death is known\<close>

text \<open>
  \<open>fate w\<close>: when the child of the world \<open>w\<close> dies, and how it is seen to, if it is bound to. A \<open>try_wait\<close> sees a
  death before it began, and none that comes after it ended; the calls that only look do not change the fate.
\<close>

definition mortal :: "('w, 'k) process_ops \<Rightarrow> ('w \<Rightarrow> instant) \<Rightarrow> ('w \<Rightarrow> (instant \<times> exit_status) option) \<Rightarrow> bool" where
  "mortal E clk fate \<longleftrightarrow>
     (\<forall>w x w'. try_wait E w = (x, w') \<longrightarrow> fate w' = fate w \<and>
        (case fate w of
           None \<Rightarrow> x = Inr None
         | Some (dead, st) \<Rightarrow> (x = Inr None \<and> clk w < dead) \<or> (x = Inr (Some st) \<and> dead \<le> clk w')))
     \<and> (\<forall>w. fate (snd (now (channel E) w)) = fate w) \<and> (\<forall>w t. fate (sleep (channel E) w t) = fate w)"

lemma mortalD:
  assumes "mortal E clk fate"
  shows "try_wait E w = (x, w') \<Longrightarrow> fate w' = fate w \<and>
        (case fate w of
           None \<Rightarrow> x = Inr None
         | Some (dead, st) \<Rightarrow> (x = Inr None \<and> clk w < dead) \<or> (x = Inr (Some st) \<and> dead \<le> clk w'))"
    "now (channel E) w = (i, w') \<Longrightarrow> fate w' = fate w" "fate (sleep (channel E) w t) = fate w"
  using assms unfolding mortal_def by blast (metis assms mortal_def snd_conv, metis assms mortal_def)

lemma wait_step_fate:
  assumes "process_time E clk c d" "mortal E clk fate" "wait_step E dl (w, bo) = Some (r, w', bo')" "bo \<le> 10 ^ 7"
  shows "fate w' = fate w \<and> bo' \<le> 10 ^ 7 \<and> clk w \<le> clk w'
    \<and> (case fate w of
         None \<Rightarrow> r = None \<or> r = Some None
       | Some (dead, st) \<Rightarrow> (dead + d + c \<le> dl \<longrightarrow>
            r = None \<and> clk w < dead \<and> clk w' \<le> dead + 10 ^ 7 + 2 * d + c
            \<or> r = Some (Some st) \<and> dead \<le> clk w' \<and> clk w' \<le> clk w + d))"
  using assms(3)
proof (cases rule: wait_step_cases)
  case (exited st)
  moreover have "bo' = bo" using exited assms(3) by (auto simp: wait_step_def)
  ultimately show ?thesis
    using mortalD(1) [OF assms(2) exited(1)] process_timeD(3) [OF assms(1) exited(1)] assms(4)
    by (auto split: option.splits)
next
  case (late x w1 i)
  have "clk w' = i \<and> clk w1 \<le> i \<and> i \<le> clk w1 + c"
    by (rule clock_okD [where clock = "now (channel E)" and clk = clk and c = c, OF process_timeD(2) [OF assms(1)] late(3)])
  moreover have "bo' = bo" using late assms(3) by (auto simp: wait_step_def split: sum.splits option.splits)
  ultimately show ?thesis
    using mortalD(1) [OF assms(2) late(1)] mortalD(2) [OF assms(2) late(3)] process_timeD(3) [OF assms(1) late(1)] assms(4) late
    by (auto split: option.splits)
next
  case (again x w1 i w2)
  have "clk w2 = i \<and> clk w1 \<le> i \<and> i \<le> clk w1 + c"
    by (rule clock_okD [where clock = "now (channel E)" and clk = clk and c = c, OF process_timeD(2) [OF assms(1)] again(3)])
  moreover have "min bo (dl - i) \<le> 10 ^ 7" using assms(4) by simp
  ultimately show ?thesis
    using mortalD(1) [OF assms(2) again(1)] mortalD(2) [OF assms(2) again(3)] mortalD(3) [OF assms(2)]
      process_timeD(3) [OF assms(1) again(1)] process_timeD(4) [OF assms(1), of w2 "min bo (dl - i)"] assms(4) again
    by (auto split: option.splits simp del: min_le_iff_disj)
qed

lemma wait_for_fate:
  assumes "process_time E clk c d" "mortal E clk fate" "clk w + c + t < INSTANT_END"
    "\<And>dead st. fate w = Some (dead, st) \<Longrightarrow> dead + d + c \<le> clk w + t"
  shows "\<exists>w'. wait_for E t w = Some (Ok (map_option snd (fate w)), w') \<and> fate w' = fate w
    \<and> (case fate w of
         None \<Rightarrow> clk w + t \<le> clk w' \<and> clk w' \<le> clk w + t + 2 * d + 2 * c
       | Some (dead, st) \<Rightarrow> clk w \<le> clk w' \<and> dead \<le> clk w' \<and> clk w' \<le> max (clk w) dead + 10 ^ 7 + 3 * d + 2 * c)"
proof -
  from wait_for_lasts [OF assms(1,3)] obtain st w' where
    st: "wait_for E t w = Some (Ok st, w')" "clk w' \<le> clk w + t + 2 * d + 2 * c" "st = None \<longrightarrow> clk w + t \<le> clk w'" by blast
  obtain r w1 where r: "deadline_in (now (channel E)) (Some t) w = (r, w1)" by fastforce
  note r' = deadline_in_clock [OF process_timeD(2) [OF assms(1)] r]
  from r' assms(3) have ok: "r = Ok (Some (clk w1 + t))" by auto
  have fate: "fate w1 = fate w" using r mortalD(2) [OF assms(2)] by (auto split: prod.splits)
  from st(1) r ok obtain bo where rep: "repeat (wait_step E (clk w1 + t)) (w1, 10 ^ 6) = Some (st, w', bo)"
    by (auto simp: wait_for_def wait_bounded_def simp del: deadline_in.simps)
  let ?top = "\<lambda>dead. max (clk w) dead + 10 ^ 7 + 2 * d + 2 * c"
  let ?P = "\<lambda>(v, bo). fate v = fate w \<and> bo \<le> (10 ^ 7 :: nat) \<and> clk w \<le> clk v
      \<and> (\<forall>dead st. fate w = Some (dead, st) \<longrightarrow> clk v \<le> ?top dead)"
  let ?Q = "\<lambda>st v. fate v = fate w \<and> clk w \<le> clk v \<and> st = map_option snd (fate w)
      \<and> (\<forall>dead st. fate w = Some (dead, st) \<longrightarrow> dead \<le> clk v \<and> clk v \<le> ?top dead + d)"
  have init: "?P (w1, 10 ^ 6)" using r' fate by auto
  have dl: "dead + d + c \<le> clk w1 + t" if "fate w = Some (dead, st)" for dead st
    using assms(4) [OF that] r' by simp
  note step = wait_step_fate [OF assms(1,2)]
  from rep have "?Q st (fst (w', bo))"
  proof (rule repeat_invariant [where P = ?P])
    fix s s' assume p: "?P s" and s: "wait_step E (clk w1 + t) s = Some (None, s')"
    obtain v b v' b' where e: "s = (v, b)" "s' = (v', b')" by fastforce
    show "?P s'"
      using step [of "clk w1 + t" v b None v' b'] p s e dl by (cases "fate w") auto
  next
    fix s s' x assume p: "?P s" and s: "wait_step E (clk w1 + t) s = Some (Some x, s')"
    obtain v b v' b' where e: "s = (v, b)" "s' = (v', b')" by fastforce
    show "?Q x (fst s')"
      using step [of "clk w1 + t" v b "Some x" v' b'] p s e dl by (cases "fate w") auto
  qed (rule init)
  with st show ?thesis by (cases "fate w") auto
qed

text \<open>
  The close of a child that dies on the way, with a reader thread that finishes at most \<open>lag\<close> after it: it is over
  soon after the death, and knows the exit code.
\<close>

definition winds_up ::
  "('w, 'k) process_ops \<Rightarrow> ('w \<Rightarrow> instant) \<Rightarrow> ('w \<Rightarrow> (instant \<times> exit_status) option) \<Rightarrow> duration \<Rightarrow> bool" where
  "winds_up E clk fate lag \<longleftrightarrow>
     mortal E clk fate \<and> (\<forall>f. finishes (channel E) clk (\<lambda>w. fate w = Some f) (Some (fst f + lag)))"

lemma direct_close_dying:
  assumes "close_calls E clk c d" "winds_up E clk fate lag" "stdin s" "\<not> stderr_thread s"
    "escalate E t (drop_stdin E (world s)) = Some (Ok (Some st), w1)" "fate w1 = Some (dead, st)"
    "clk w1 + d + c + t < INSTANT_END"
  shows "\<exists>s'. direct_close E s t = Some (Ok (), s') \<and> exit_code s' = Some (exit_code_of st) \<and> clk w1 \<le> clk (world s')
    \<and> clk (world s') \<le> max (clk w1 + d + c) (dead + lag) + 10 ^ 6 + 6 * d + 2 * c"
proof -
  let ?s = "s\<lparr>world := w1, stdin := False, exit_code := Some (exit_code_of st)\<rparr>"
  from assms(2) have "finishes (channel E) clk (\<lambda>w. fate w = Some (dead, st)) (Some (dead + lag))"
    unfolding winds_up_def by fastforce
  from join_threads_time [OF assms(1) this, of ?s t] assms(4,6,7) obtain s' where
    "join_threads E t ?s = Some (Ok (), s')" "exit_code s' = Some (exit_code_of st)" "clk w1 \<le> clk (world s')"
    "clk (world s') \<le> max (clk w1 + d + c) (dead + lag) + 10 ^ 6 + 6 * d + 2 * c"
    by (auto simp: stop_at_def)
  with assms(3-5) show ?thesis by (simp add: direct_close_def)
qed

text \<open>It dies once its standard input is closed, or of SIGTERM.\<close>

lemma close_of_the_willing:
  assumes "close_calls E clk c d" "winds_up E clk fate lag" "stdin s" "\<not> stderr_thread s"
    "fate (drop_stdin E (world s)) = Some (dead, st)" "clk (world s) + t + 12 * d + 6 * c + 10 ^ 7 < INSTANT_END"
    "dead + t + 12 * d + 6 * c + 10 ^ 7 < INSTANT_END" "dead + d + c \<le> clk (world s) + t"
  shows "\<exists>s'. direct_close E s t = Some (Ok (), s') \<and> exit_code s' = Some (exit_code_of st)
    \<and> clk (world s') \<le> max (clk (world s)) dead + lag + 11 * 10 ^ 6 + 11 * d + 5 * c"
proof -
  let ?w = "drop_stdin E (world s)"
  note k = close_callsD [OF assms(1)]
  have w: "lasts clk d (world s) ?w" using k(2) .
  have "mortal E clk fate" using assms(2) by (simp add: winds_up_def)
  from wait_for_fate [OF k(1) this, of ?w t] w assms(5-8) obtain w1 where
    w1: "wait_for E t ?w = Some (Ok (Some st), w1)" "fate w1 = Some (dead, st)"
      "clk w1 \<le> max (clk ?w) dead + 10 ^ 7 + 3 * d + 2 * c" by (auto simp: lasts_def)
  have e: "escalate E t ?w = Some (Ok (Some st), w1)" using w1(1) by (simp add: escalate_def)
  have "clk w1 + d + c + t < INSTANT_END" using w1(3) w assms(6,7) by (auto simp: lasts_def max_def split: if_splits)
  from direct_close_dying [OF assms(1-4) e w1(2) this] obtain s' where
    "direct_close E s t = Some (Ok (), s')" "exit_code s' = Some (exit_code_of st)"
    "clk (world s') \<le> max (clk w1 + d + c) (dead + lag) + 10 ^ 6 + 6 * d + 2 * c" by blast
  with w1(3) w show ?thesis by (auto simp: lasts_def)
qed

lemma close_by_sigterm:
  assumes "close_calls E clk c d" "winds_up E clk fate lag" "stdin s" "\<not> stderr_thread s"
    "fate (drop_stdin E (world s)) = None"
    "\<And>w p. fate w = None \<Longrightarrow> \<exists>dead. fate (snd (kill_syscall E w p 15)) = Some (dead, st) \<and> dead \<le> clk w + quick"
    "quick + d + c \<le> t" "clk (world s) + 3 * t + quick + 20 * d + 10 * c + 10 ^ 7 < INSTANT_END"
  shows "\<exists>s'. direct_close E s t = Some (Ok (), s') \<and> exit_code s' = Some (exit_code_of st)
    \<and> clk (world s) + t \<le> clk (world s')
    \<and> clk (world s') \<le> clk (world s) + t + quick + lag + 11 * 10 ^ 6 + 14 * d + 7 * c"
proof -
  let ?w = "drop_stdin E (world s)"
  note k = close_callsD [OF assms(1)]
  have w: "lasts clk d (world s) ?w" using k(2) .
  have m: "mortal E clk fate" using assms(2) by (simp add: winds_up_def)
  from wait_for_fate [OF k(1) m, of ?w t] w assms(5,8) obtain w1 where
    w1: "wait_for E t ?w = Some (Ok None, w1)" "fate w1 = None" "clk ?w + t \<le> clk w1"
      "clk w1 \<le> clk ?w + t + 2 * d + 2 * c" by (auto simp: lasts_def)
  let ?w2 = "snd (terminate E (child_id E w1) w1)"
  have w2: "lasts clk d w1 ?w2" using k(4) .
  from assms(6) [OF w1(2)] obtain dead where dead: "fate ?w2 = Some (dead, st)" "dead \<le> clk w1 + quick"
    unfolding terminate_world by blast
  from wait_for_fate [OF k(1) m, of ?w2 t] dead w w1(4) w2 assms(7,8) obtain w3 where
    w3: "wait_for E t ?w2 = Some (Ok (Some st), w3)" "fate w3 = Some (dead, st)" "clk ?w2 \<le> clk w3"
      "clk w3 \<le> max (clk ?w2) dead + 10 ^ 7 + 3 * d + 2 * c" by (auto simp: lasts_def)
  have e: "escalate E t ?w = Some (Ok (Some st), w3)" using w1(1) w3(1) by (simp add: escalate_def)
  have "clk w3 + d + c + t < INSTANT_END" using w3(4) w2 w1(4) w dead(2) assms(8) by (auto simp: lasts_def)
  from direct_close_dying [OF assms(1-4) e w3(2) this] obtain s' where
    "direct_close E s t = Some (Ok (), s')" "exit_code s' = Some (exit_code_of st)" "clk w3 \<le> clk (world s')"
    "clk (world s') \<le> max (clk w3 + d + c) (dead + lag) + 10 ^ 6 + 6 * d + 2 * c" by blast
  with w3(3,4) w2 w1(3,4) w dead(2) show ?thesis by (auto simp: lasts_def)
qed

text \<open>A child that dies of nothing but SIGKILL.\<close>

lemma close_by_sigkill:
  assumes "close_calls E clk c d" "mortal E clk fate" "stdin s" "fate (drop_stdin E (world s)) = None"
    "\<And>w p. fate w = None \<Longrightarrow> fate (snd (kill_syscall E w p 15)) = None"
    "\<And>w. fate w = None \<Longrightarrow> \<exists>w'. wait_child E (snd (kill_child E w)) = Some (Inr st, w')"
    "clk (world s) + 3 * t + 9 * d + 5 * c < INSTANT_END"
  shows "\<exists>s'. direct_close E s t = Some (Ok (), s') \<and> exit_code s' = Some (exit_code_of st)"
proof -
  let ?w = "drop_stdin E (world s)"
  note k = close_callsD [OF assms(1)]
  have w: "lasts clk d (world s) ?w" using k(2) .
  from wait_for_fate [OF k(1) assms(2), of ?w t] w assms(4,7) obtain w1 where
    w1: "wait_for E t ?w = Some (Ok None, w1)" "fate w1 = None" "clk w1 \<le> clk ?w + t + 2 * d + 2 * c"
    by (auto simp: lasts_def)
  let ?w2 = "snd (terminate E (child_id E w1) w1)"
  have w2: "lasts clk d w1 ?w2" using k(4) .
  from assms(5) [OF w1(2)] have f2: "fate ?w2 = None" by (simp add: terminate_world)
  from wait_for_fate [OF k(1) assms(2), of ?w2 t] f2 w w1(3) w2 assms(7) obtain w3 where
    w3: "wait_for E t ?w2 = Some (Ok None, w3)" "fate w3 = None" by (auto simp: lasts_def)
  from assms(6) [OF w3(2)] obtain w4 where w4: "wait_child E (snd (kill_child E w3)) = Some (Inr st, w4)" by blast
  have e: "escalate E t ?w = Some (Ok (Some st), w4)"
    using w1(1) w3(1) w4 by (simp add: escalate_def)
  from direct_close_time [OF assms(1,7)] obtain s' where c: "direct_close E s t = Some (Ok (), s')" by blast
  with e assms(3) have "exit_code s' = Some (exit_code_of st)"
    by (auto simp: direct_close_def dest: join_threads_done)
  with c show ?thesis by blast
qed

section \<open>Property\<close>

text \<open>
  C26: Closing a child never panics or hangs, whatever the child does, and takes at most three times the timeout
  it is given - one for each of the exit after the end of input, the exit after SIGTERM, and the reader thread - and
  a bounded number of single calls and of polls of the clock; provided that the clock is not near its end, that a
  killed child can be waited for and that the drain of standard error ends.
\<close>
theorem close_takes_bounded_time:
  assumes "close_calls E clk c d" "clk (world s) + 3 * t + 9 * d + 5 * c < INSTANT_END"
  shows "\<exists>s'. direct_close E s t = Some (Ok (), s') \<and> clk (world s') \<le> clk (world s) + 3 * t + 10 ^ 6 + 15 * d + 7 * c"
  by (rule direct_close_time [OF assms])

lemma stubborn_calls: "close_calls stubborn fst 0 1"
  using stubborn_time by (auto simp: close_calls_def lasts_def stubborn_def)

lemma close_takes_bounded_time_witness:
  "\<exists>s'. direct_close stubborn running CLOSE_TIMEOUT = Some (Ok (), s') \<and> fst (world s') \<le> 3 * CLOSE_TIMEOUT + 10 ^ 6 + 15"
  using close_takes_bounded_time [OF stubborn_calls, of running CLOSE_TIMEOUT]
  by (simp add: running_def CLOSE_TIMEOUT_def INSTANT_END_def)

end
