(* ===== verification/DirectTests.thy ===== *)
theory DirectTests
  imports CloseTime ChildRpc ReaderProps SocketTests
begin

text \<open>
  The unit tests of \<open>rust/src/transport/direct.rs\<close> and \<open>reader.rs\<close> as programs over the model: their processes,
  threads and clock are parameters, and a test passes in every environment in which the child does what its
  command does.
\<close>

section \<open>Closing\<close>

text \<open>The helper \<open>start\<close> of the tests.\<close>

definition test_start ::
  "('w, 'k) process_ops \<Rightarrow> string \<Rightarrow> string list \<Rightarrow> 'w \<Rightarrow> ('w direct, error) result \<times> 'w" where
  "test_start E cmd args w = start E (bytes_of cmd) (map bytes_of args) None None StderrNull w"

lemma test_started:
  "test_start E cmd args w = (Ok t, w1) \<Longrightarrow>
     t = \<lparr>world = w1, stdin = True, line_reader = Some spawned, stderr_thread = False, exit_code = None\<rparr>"
  by (auto simp: test_start_def start_def Let_def split: prod.splits result.splits)

definition close_via_stdin_reaps_promptly :: "('w, 'k) process_ops \<Rightarrow> 'w \<Rightarrow> bool option" where
  "close_via_stdin_reaps_promptly E w =
     (case test_start E ''cat'' [] w of
        (r, w1) \<Rightarrow> unwrapping r (\<lambda>t.
          case now (channel E) (world t) of
            (start_time, w2) \<Rightarrow>
              do {
                (c, t1) \<leftarrow> direct_close E (t\<lparr>world := w2\<rparr>) (seconds 5);
                unwrapping c (\<lambda>_. Some (fst (now (channel E) (world t1)) - start_time < seconds 1
                  \<and> exit_code t1 = Some 0))
              }))"

definition close_escalates_to_sigterm :: "('w, 'k) process_ops \<Rightarrow> 'w \<Rightarrow> bool option" where
  "close_escalates_to_sigterm E w =
     (case test_start E ''sh'' [''-c'', ''while true; do sleep 0.05; done''] w of
        (r, w1) \<Rightarrow> unwrapping r (\<lambda>t.
          case now (channel E) (world t) of
            (start_time, w2) \<Rightarrow>
              do {
                (c, t1) \<leftarrow> direct_close E (t\<lparr>world := w2\<rparr>) (millis 200);
                unwrapping c (\<lambda>_.
                  let elapsed = fst (now (channel E) (world t1)) - start_time
                  in Some (millis 150 \<le> elapsed \<and> elapsed < seconds 2 \<and> exit_code t1 = Some (- 15)))
              }))"

definition close_escalates_to_sigkill :: "('w, 'k) process_ops \<Rightarrow> 'w \<Rightarrow> bool option" where
  "close_escalates_to_sigkill E w =
     (case test_start E ''sh'' [''-c'', ''trap '' @ [CHR 0x27, CHR 0x27] @ '' TERM; while true; do sleep 0.05; done''] w of
        (r, w1) \<Rightarrow> unwrapping r (\<lambda>t.
          do {
            (c, t1) \<leftarrow> direct_close E t (millis 200);
            unwrapping c (\<lambda>_. Some (exit_code t1 = Some (- 9)))
          }))"

definition double_close_is_safe :: "('w, 'k) process_ops \<Rightarrow> 'w \<Rightarrow> bool option" where
  "double_close_is_safe E w =
     (case test_start E ''cat'' [] w of
        (r, w1) \<Rightarrow> unwrapping r (\<lambda>t.
          do {
            (c, t1) \<leftarrow> direct_close E t (seconds 5);
            unwrapping c (\<lambda>_. do { (c', t2) \<leftarrow> direct_close E t1 (seconds 5); unwrapping c' (\<lambda>_. Some True) })
          }))"

definition read_line_timeout_does_not_hang :: "('w, 'k) process_ops \<Rightarrow> 'w \<Rightarrow> bool option" where
  "read_line_timeout_does_not_hang E w =
     (case test_start E ''cat'' [] w of
        (r, w1) \<Rightarrow> unwrapping r (\<lambda>t.
          do {
            (x, t1) \<leftarrow> direct_read_line E t (Some (millis 100));
            if is_timeout x then do { (c, t2) \<leftarrow> direct_close E t1 (seconds 5); unwrapping c (\<lambda>_. Some True) }
            else Some False
          }))"

definition nonexistent_command_surfaces_the_spawn_error :: "('w, 'k) process_ops \<Rightarrow> 'w \<Rightarrow> bool option" where
  "nonexistent_command_surfaces_the_spawn_error E w =
     (case test_start E ''san-db-ox-definitely-does-not-exist'' [] w of
        (Err (Io e), _) \<Rightarrow> Some True
      | _ \<Rightarrow> Some False)"

lemma nonexistent_command_surfaces_the_spawn_error:
  "spawn_child E w (command_for (bytes_of ''san-db-ox-definitely-does-not-exist'') [] None None (StderrNull :: 'k stderr_sink)) = (Err e, w1) \<Longrightarrow>
     passes (nonexistent_command_surfaces_the_spawn_error (E :: ('w, 'k) process_ops) w)"
  by (simp add: nonexistent_command_surfaces_the_spawn_error_def test_start_def start_def from_io_def passes_def)

lemma double_close_is_safe:
  assumes "close_calls E clk c d" "test_start E ''cat'' [] w = (Ok t, w1)"
    "clk w1 + seconds 30 + 10 ^ 6 + 24 * d + 12 * c < INSTANT_END"
  shows "passes (double_close_is_safe E w)"
proof -
  have "world t = w1" using test_started [OF assms(2)] by simp
  with direct_close_time [OF assms(1), of t "seconds 5"] assms(3) obtain t1 where
    t1: "direct_close E t (seconds 5) = Some (Ok (), t1)"
      "clk (world t1) \<le> clk w1 + 3 * seconds 5 + 10 ^ 6 + 15 * d + 7 * c" by (auto simp: seconds_def)
  with direct_close_time [OF assms(1), of t1 "seconds 5"] assms(3) obtain t2 where
    "direct_close E t1 (seconds 5) = Some (Ok (), t2)" by (auto simp: seconds_def)
  with t1(1) show ?thesis by (simp add: double_close_is_safe_def assms(2) passes_def)
qed

text \<open>
  The children of the tests. \<open>brisk\<close>: how fast the machine is. \<open>cat\<close> dies when its input ends, the busy loop
  of SIGTERM, or of nothing but SIGKILL when it has a trap for that.
\<close>

definition brisk ::
  "('w, 'k) process_ops \<Rightarrow> ('w \<Rightarrow> instant) \<Rightarrow> ('w \<Rightarrow> (instant \<times> exit_status) option) \<Rightarrow> bool" where
  "brisk E clk fate \<longleftrightarrow> close_calls E clk (millis 1) (millis 10) \<and> winds_up E clk fate (millis 200)"

lemma brisk_now:
  assumes "brisk E clk fate" "now (channel E) w = (i, w')"
  shows "clk w' = i \<and> clk w \<le> i \<and> i \<le> clk w + millis 1" "fate w' = fate w"
proof -
  from assms(1) have k: "close_calls E clk (millis 1) (millis 10)" "mortal E clk fate"
    by (auto simp: brisk_def winds_up_def)
  show "clk w' = i \<and> clk w \<le> i \<and> i \<le> clk w + millis 1"
    by (rule clock_okD [where clock = "now (channel E)" and clk = clk and c = "millis 1",
          OF process_timeD(2) [OF close_callsD(1) [OF k(1)]] assms(2)])
  show "fate w' = fate w" using mortalD(2) [OF k(2) assms(2)] .
qed

definition reads_its_input ::
  "('w, 'k) process_ops \<Rightarrow> ('w \<Rightarrow> instant) \<Rightarrow> ('w \<Rightarrow> (instant \<times> exit_status) option) \<Rightarrow> bool" where
  "reads_its_input E clk fate \<longleftrightarrow>
     (\<forall>w. fate w = None \<longrightarrow> (\<exists>dead. fate (drop_stdin E w) = Some (dead, Exited 0) \<and> dead \<le> clk w + millis 100))"

lemma close_via_stdin_reaps_promptly:
  assumes "brisk E clk fate" "reads_its_input E clk fate" "test_start E ''cat'' [] w = (Ok t, w1)" "fate w1 = None"
    "clk w1 + seconds 6 < INSTANT_END"
  shows "passes (close_via_stdin_reaps_promptly E w)"
proof -
  from assms(1) have k: "close_calls E clk (millis 1) (millis 10)" "winds_up E clk fate (millis 200)"
    by (auto simp: brisk_def)
  note t = test_started [OF assms(3)]
  obtain i w2 where i: "now (channel E) w1 = (i, w2)" by fastforce
  note i' = brisk_now [OF assms(1) i]
  let ?t = "t\<lparr>world := w2\<rparr>"
  from assms(4) i'(2) have "fate w2 = None" by simp
  with assms(2) obtain dead where dead: "fate (drop_stdin E w2) = Some (dead, Exited 0)" "dead \<le> clk w2 + millis 100"
    unfolding reads_its_input_def by blast
  have "stdin ?t" "\<not> stderr_thread ?t" "world ?t = w2" by (simp_all add: t)
  from close_of_the_willing [OF k this(1,2), unfolded this(3), OF dead(1), of "seconds 5"] dead(2) i'(1) assms(5)
  obtain t1 where t1: "direct_close E ?t (seconds 5) = Some (Ok (), t1)" "exit_code t1 = Some (exit_code_of (Exited 0))"
    "clk (world t1) \<le> max (clk w2) dead + millis 200 + 11 * 10 ^ 6 + 11 * millis 10 + 5 * millis 1"
    by (auto simp: millis_def seconds_def)
  obtain j w3 where j: "now (channel E) (world t1) = (j, w3)" by fastforce
  from brisk_now(1) [OF assms(1) j] t1(3) dead(2) i'(1) have "j - i < seconds 1"
    by (auto simp: millis_def seconds_def max_def split: if_splits)
  with t1 i j show ?thesis
    by (simp add: close_via_stdin_reaps_promptly_def assms(3) t passes_def exit_code_of_def)
qed

lemma close_escalates_to_sigterm:
  assumes "brisk E clk fate" "test_start E ''sh'' [''-c'', ''while true; do sleep 0.05; done''] w = (Ok t, w1)"
    "fate w1 = None" "\<And>w. fate w = None \<Longrightarrow> fate (drop_stdin E w) = None"
    "\<And>w p. fate w = None \<Longrightarrow> \<exists>dead. fate (snd (kill_syscall E w p 15)) = Some (dead, Signalled 15) \<and> dead \<le> clk w + millis 100"
    "clk w1 + seconds 6 < INSTANT_END"
  shows "passes (close_escalates_to_sigterm E w)"
proof -
  from assms(1) have k: "close_calls E clk (millis 1) (millis 10)" "winds_up E clk fate (millis 200)"
    by (auto simp: brisk_def)
  note t = test_started [OF assms(2)]
  obtain i w2 where i: "now (channel E) w1 = (i, w2)" by fastforce
  note i' = brisk_now [OF assms(1) i]
  let ?t = "t\<lparr>world := w2\<rparr>"
  have s: "stdin ?t" "\<not> stderr_thread ?t" "world ?t = w2" by (simp_all add: t)
  from assms(3,4) i'(2) have "fate (drop_stdin E w2) = None" by simp
  from close_by_sigterm [OF k s(1,2), unfolded s(3), OF this assms(5), of "millis 200"] i'(1) assms(6)
  obtain t1 where t1: "direct_close E ?t (millis 200) = Some (Ok (), t1)" "exit_code t1 = Some (exit_code_of (Signalled 15))"
    "clk w2 + millis 200 \<le> clk (world t1)"
    "clk (world t1) \<le> clk w2 + millis 200 + millis 100 + millis 200 + 11 * 10 ^ 6 + 14 * millis 10 + 7 * millis 1"
    by (auto simp: millis_def seconds_def)
  obtain j w3 where j: "now (channel E) (world t1) = (j, w3)" by fastforce
  from brisk_now(1) [OF assms(1) j] t1(3,4) i'(1) have "millis 150 \<le> j - i" "j - i < seconds 2"
    by (auto simp: millis_def seconds_def)
  with t1 i j show ?thesis
    by (simp add: close_escalates_to_sigterm_def assms(2) t passes_def exit_code_of_def)
qed

lemma close_escalates_to_sigkill:
  assumes "brisk E clk fate"
    "test_start E ''sh'' [''-c'', ''trap '' @ [CHR 0x27, CHR 0x27] @ '' TERM; while true; do sleep 0.05; done''] w = (Ok t, w1)"
    "fate w1 = None" "\<And>w. fate w = None \<Longrightarrow> fate (drop_stdin E w) = None"
    "\<And>w p. fate w = None \<Longrightarrow> fate (snd (kill_syscall E w p 15)) = None"
    "\<And>w. fate w = None \<Longrightarrow> \<exists>w'. wait_child E (snd (kill_child E w)) = Some (Inr (Signalled 9), w')"
    "clk w1 + seconds 6 < INSTANT_END"
  shows "passes (close_escalates_to_sigkill E w)"
proof -
  from assms(1) have k: "close_calls E clk (millis 1) (millis 10)" "mortal E clk fate"
    by (auto simp: brisk_def winds_up_def)
  note t = test_started [OF assms(2)]
  from assms(3,4) have "stdin t" "fate (drop_stdin E (world t)) = None" by (simp_all add: t)
  from close_by_sigkill [OF k this assms(5) assms(6), of "millis 200"] assms(7) obtain t1 where
    "direct_close E t (millis 200) = Some (Ok (), t1)" "exit_code t1 = Some (exit_code_of (Signalled 9))"
    by (auto simp: t millis_def seconds_def)
  then show ?thesis
    by (simp add: close_escalates_to_sigkill_def assms(2) [simplified] passes_def exit_code_of_def)
qed

section \<open>Reading\<close>

text \<open>Nothing comes: a read ends by its timeout.\<close>

lemma silent_reader:
  assumes "\<And>w t. fst (recv_timeout E w t) = Err RecvTimeout" "reader.terminal rd = None"
    "clock_lasts (now E) (Some t) w" "reader_read_line E (w, rd) (Some t) = Some (r, s)"
  shows "r = Err timeout_error"
proof -
  obtain x w1 where x: "deadline_in (now E) (Some t) w = (x, w1)" by fastforce
  from deadline_in_lasts [OF assms(3) x] obtain dl where "x = Ok (Some dl)" by auto
  with assms(2,4) x have "repeat (recv_step E (Some dl)) (w1, rd) = Some (r, s)"
    by (simp add: reader_read_line_def del: deadline_in.simps)
  then show ?thesis
  proof (rule repeat_invariant [where P = "\<lambda>_. True"])
    fix s s' y assume st: "recv_step E (Some dl) s = Some (Some y, s')"
    obtain v rd v' rd' where e: "s = (v, rd)" "s' = (v', rd')" by fastforce
    have silent: "receive E (Some dl) v = Some (z, u) \<Longrightarrow> z = Err RecvTimeout" for z u
      using assms(1) by (auto simp: receive_def split: prod.splits) (metis fst_conv)
    from st [unfolded e] show "y = Err timeout_error"
      by (cases rule: recv_step_cases) (auto dest!: silent split: if_splits)
  qed simp_all
qed

lemma read_line_timeout_does_not_hang:
  assumes "close_calls E clk c d" "\<And>w t. fst (recv_timeout (channel E) w t) = Err RecvTimeout"
    "test_start E ''cat'' [] w = (Ok t, w1)" "clk w1 + millis 100 + 3 * seconds 5 + 10 * d + 8 * c < INSTANT_END"
  shows "passes (read_line_timeout_does_not_hang E w)"
proof -
  note t = test_started [OF assms(3)]
  note p = close_callsD(1) [OF assms(1)]
  from direct_read_window [OF p, of t "millis 100"] obtain r t1 where
    r: "direct_read_line E t (Some (millis 100)) = Some (r, t1)" "clk (world t1) \<le> clk w1 + millis 100 + d + 3 * c"
    by (auto simp: t)
  then obtain s where s: "reader_read_line (channel E) (w1, spawned) (Some (millis 100)) = Some (r, s)"
    by (auto simp: direct_read_line_def t)
  have "clock_lasts (now (channel E)) (Some (millis 100)) w1"
    by (rule clock_lasts_in [OF process_timeD(2) [OF p]]) (use assms(4) in simp)
  from silent_reader [OF assms(2) _ this s] have "r = Err timeout_error" by (simp add: spawned_def)
  moreover from direct_close_time [OF assms(1), of t1 "seconds 5"] r(2) assms(4) obtain t2 where
    "direct_close E t1 (seconds 5) = Some (Ok (), t2)" by auto
  ultimately show ?thesis using r(1) by (simp add: read_line_timeout_does_not_hang_def assms(3) passes_def)
qed

section \<open>Echoes\<close>

definition echo_and_close :: "('w, 'k) process_ops \<Rightarrow> 'w direct \<Rightarrow> string \<Rightarrow> duration \<Rightarrow> bool option" where
  "echo_and_close E t s tmo =
     do {
       (x, t1) \<leftarrow> direct_write_line E t (bytes_of s @ [10]);
       unwrapping x (\<lambda>_.
         do {
           (l, t2) \<leftarrow> direct_read_line E t1 (Some tmo);
           if l = Ok (bytes_of s)
           then do { (c, t3) \<leftarrow> direct_close E t2 (seconds 5); unwrapping c (\<lambda>_. Some True) }
           else Some False
         })
     }"

definition write_read_echo_via_cat :: "('w, 'k) process_ops \<Rightarrow> 'w \<Rightarrow> bool option" where
  "write_read_echo_via_cat E w =
     (case test_start E ''cat'' [] w of
        (r, w1) \<Rightarrow> unwrapping r (\<lambda>t. echo_and_close E t ''hello'' (seconds 5)))"

definition stderr_flood_does_not_deadlock :: "('w, 'k) process_ops \<Rightarrow> 'w \<Rightarrow> bool option" where
  "stderr_flood_does_not_deadlock E w =
     (case test_start E ''sh''
         [''-c'', ''i=0; while [ $i -lt 20000 ]; do echo '' @ [CHR 0x22] @ ''warning $i'' @ [CHR 0x22] @ '' >&2; i=$((i+1)); done; cat''] w of
        (r, w1) \<Rightarrow> unwrapping r (\<lambda>t. echo_and_close E t ''still alive'' (seconds 10)))"

text \<open>A child with an echo in it, which takes its input within \<open>d\<close> and answers within the timeout.\<close>

definition echoes ::
  "('w, 'k) process_ops \<Rightarrow> ('w \<Rightarrow> unit) \<Rightarrow> ('w \<Rightarrow> pipe) \<Rightarrow> ('w \<Rightarrow> instant) \<Rightarrow> duration \<Rightarrow> duration \<Rightarrow> ('w \<Rightarrow> nat) \<Rightarrow> ('w \<Rightarrow> duration) \<Rightarrow>
     duration \<Rightarrow> bool" where
  "echoes E vst pp clk c d lull due tmo \<longleftrightarrow>
     child_serves E echo vst pp \<and> child_lively E pp \<and> child_in_time E pp clk c lull due (Some tmo) \<and> close_calls E clk c d
     \<and> (\<forall>w l x w'. stdin_write_all E w l = Some (x, w') \<longrightarrow> lasts clk d w w')
     \<and> (\<forall>w x w'. stdin_flush E w = Some (x, w') \<longrightarrow> lasts clk d w w')"

lemma echoes_line:
  assumes "echoes E vst pp clk c d lull due tmo" "child_serving E echo vst pp t () []" "fit_line (bytes_of s)"
    "clk (world t) + 2 * d + c + tmo < INSTANT_END"
  shows "\<exists>t1 t2. direct_write_line E t (bytes_of s @ [10]) = Some (Ok (), t1)
    \<and> direct_read_line E t1 (Some tmo) = Some (Ok (bytes_of s), t2) \<and> stderr_thread t2 = stderr_thread t \<and> stdin t2
    \<and> clk (world t2) \<le> clk (world t) + tmo + 3 * d + 3 * c"
proof -
  from assms(1) have k: "child_lively E pp" "child_in_time E pp clk c lull due (Some tmo)" "close_calls E clk c d"
    and wr: "\<And>w l x w'. stdin_write_all E w l = Some (x, w') \<Longrightarrow> lasts clk d w w'"
    and fl: "\<And>w x w'. stdin_flush E w = Some (x, w') \<Longrightarrow> lasts clk d w w'"
    unfolding echoes_def by blast+
  note p = close_callsD(1) [OF k(3)]
  from assms(2) have in_open: "stdin t" by (simp add: child_serving_def)
  obtain x t1 where w: "direct_write_line E t (bytes_of s @ [10]) = Some (x, t1)"
    using lively_write [OF k(1) in_open, of "bytes_of s @ [10]"] by fastforce
  from assms(3) have "10 \<notin> set (bytes_of s)" by (simp add: fit_line_def)
  from child_serving_write [OF assms(2) this w] assms(3)
  have s1: "x = Ok ()" "child_serving E echo vst pp t1 () [bytes_of s]" by (auto simp: echo_def)
  from w in_open have c1: "clk (world t1) \<le> clk (world t) + 2 * d"
    by (auto simp: direct_write_line_def lasts_def dest!: wr fl split: bind_splits result.splits)
  from s1(2) obtain rd where rd: "line_reader t1 = Some rd" "reader.terminal rd = None"
    "awaiting E echo vst pp (world t1) () [bytes_of s]" by (auto simp: child_serving_def)
  have "clock_lasts (now (channel E)) (Some tmo) (world t1)"
    by (rule clock_lasts_in [OF process_timeD(2) [OF p]]) (use c1 assms(4) in simp)
  from lively_read [OF k(1,2) rd(3,2) this] rd(1) obtain t2 where
    t2: "direct_read_line E t1 (Some tmo) = Some (Ok (bytes_of s), t2)" "stderr_thread t2 = stderr_thread t1" "stdin t2 = stdin t1"
    by (auto simp: direct_read_line_def)
  moreover from direct_read_window [OF p, of t1 tmo] t2(1) have "clk (world t2) \<le> clk (world t1) + tmo + d + 3 * c" by auto
  ultimately show ?thesis using w s1(1) c1 direct_write_keeps [OF w] in_open by auto
qed

lemma echo_and_close_passes:
  assumes "echoes E vst pp clk c d lull due tmo" "child_serving E echo vst pp t () []" "fit_line (bytes_of s)"
    "clk (world t) + tmo + 3 * seconds 5 + 12 * d + 8 * c < INSTANT_END"
  shows "passes (echo_and_close E t s tmo)"
proof -
  from echoes_line [OF assms(1-3)] assms(4) obtain t1 t2 where
    t: "direct_write_line E t (bytes_of s @ [10]) = Some (Ok (), t1)"
      "direct_read_line E t1 (Some tmo) = Some (Ok (bytes_of s), t2)" "clk (world t2) \<le> clk (world t) + tmo + 3 * d + 3 * c"
    by auto
  from assms(1) have "close_calls E clk c d" by (simp add: echoes_def)
  from direct_close_time [OF this, of t2 "seconds 5"] t(3) assms(4) obtain t3 where
    "direct_close E t2 (seconds 5) = Some (Ok (), t3)" by auto
  with t show ?thesis by (simp add: echo_and_close_def passes_def)
qed

lemma echo_started:
  assumes "echoes E vst pp clk c d lull due tmo" "start E cmd args env cwd sink w = (Ok t, w1)" "quiet (spawn []) (pp w1)"
  shows "child_serving E echo vst pp t () []"
proof -
  have "flows (spawn []) []"
    by (intro flowsI [where cs = "[]" and sl = "[]" and th = "[]" and later = "[]"])
      (auto simp: spawn_def new_framer_def owed_def framer_ok_def)
  from started [OF assms(2)] flows_quiet [OF assms(3) this] assms(1) show ?thesis
    by (simp add: child_serving_def awaiting_def spawned_def echoes_def)
qed

lemma write_read_echo_via_cat:
  assumes "echoes E vst pp clk c d lull due (seconds 5)" "test_start E ''cat'' [] w = (Ok t, w1)" "quiet (spawn []) (pp w1)"
    "clk w1 + 4 * seconds 5 + 12 * d + 8 * c < INSTANT_END"
  shows "passes (write_read_echo_via_cat E w)"
proof -
  from echo_and_close_passes [OF assms(1) echo_started [OF assms(1) assms(2) [unfolded test_start_def] assms(3)] short_words(1)]
    assms(4) show ?thesis
    by (simp add: write_read_echo_via_cat_def assms(2) test_started [OF assms(2)])
qed

text \<open>The flood goes nowhere: the command has its standard error on the null device.\<close>

lemma stderr_flood_does_not_deadlock:
  assumes "echoes E vst pp clk c d lull due (seconds 10)" "test_start E ''sh''
      [''-c'', ''i=0; while [ $i -lt 20000 ]; do echo '' @ [CHR 0x22] @ ''warning $i'' @ [CHR 0x22] @ '' >&2; i=$((i+1)); done; cat''] w
      = (Ok t, w1)" "quiet (spawn []) (pp w1)" "clk w1 + 5 * seconds 5 + 12 * d + 8 * c < INSTANT_END"
  shows "passes (stderr_flood_does_not_deadlock E w)"
proof -
  have "fit_line (bytes_of ''still alive'')" by (simp add: fit_line_def bytes_of_def MAX_LINE_BYTES_def)
  from echo_and_close_passes [OF assms(1) echo_started [OF assms(1) assms(2) [unfolded test_start_def] assms(3)] this]
    assms(4) show ?thesis
    by (simp add: stderr_flood_does_not_deadlock_def assms(2) [simplified] test_started [OF assms(2)] seconds_def)
qed

section \<open>Standard error\<close>

text \<open>
  The sink of the test collects what it is given. The state of the drain's thread: the pieces of standard error that are
  still to be read, and what was collected.
\<close>

definition pieces_read :: "bytes list \<times> bytes \<Rightarrow> nat \<Rightarrow> ((io_error + bytes) \<times> (bytes list \<times> bytes)) option" where
  "pieces_read s n = (case s of (ps, got) \<Rightarrow> Some (case ps of [] \<Rightarrow> (Inr [], s) | p # ps \<Rightarrow> (Inr p, (ps, got))))"

definition collector_write :: "bytes list \<times> bytes \<Rightarrow> bytes \<Rightarrow> ((io_error + unit) \<times> (bytes list \<times> bytes)) option" where
  "collector_write s chunk = (case s of (ps, got) \<Rightarrow> Some (Inr (), (ps, got @ chunk)))"

lemma drain_collects: "[] \<notin> set ps \<Longrightarrow> drain pieces_read collector_write (ps, got) = Some ((), ([], got @ concat ps))"
proof (induction ps arbitrary: got)
  case Nil
  then show ?case by (simp add: drain_def Loops.repeat.simps drain_step_def pieces_read_def)
next
  case (Cons p ps)
  then have "p \<noteq> []" by auto
  with Cons show ?case
    by (simp add: drain_def Loops.repeat.simps [of _ "(p # ps, got)"] drain_step_def pieces_read_def collector_write_def)
qed

definition stderr_drained_to_provided_sink :: "('w, 'k) process_ops \<Rightarrow> ('w \<Rightarrow> bytes) \<Rightarrow> 'k \<Rightarrow> 'w \<Rightarrow> bool option" where
  "stderr_drained_to_provided_sink E collected sink w =
     (case start E (bytes_of ''sh'') [bytes_of ''-c'', bytes_of ''echo one >&2; echo two >&2; cat''] None None
         (StderrWriter sink) w of
        (r, w1) \<Rightarrow> unwrapping r (\<lambda>t.
          do {
            (x, t1) \<leftarrow> direct_write_line E t (bytes_of ''x'' @ [10]);
            unwrapping x (\<lambda>_.
              do {
                (l, t2) \<leftarrow> direct_read_line E t1 (Some (seconds 5));
                unwrapping l (\<lambda>_.
                  do {
                    (c, t3) \<leftarrow> direct_close E t2 (seconds 5);
                    unwrapping c (\<lambda>_. Some (collected (world t3) = bytes_of ''one'' @ [10] @ bytes_of ''two'' @ [10]))
                  })
              })
          }))"

text \<open>The calls that come after the drain has been joined leave what it collected alone.\<close>

definition left_alone :: "('w, 'k) process_ops \<Rightarrow> ('w \<Rightarrow> bytes) \<Rightarrow> bool" where
  "left_alone E collected \<longleftrightarrow>
     (\<forall>g. finishes (channel E) (\<lambda>w. 0) (\<lambda>w. collected w = g) None) \<and> (\<forall>w. collected (drop_receiver E w) = collected w)"

lemma reader_join_stays:
  assumes "finishes E clk stays fin" "stays w" "reader_join E (w, rd) t = Some (r, w', rd')"
  shows "stays w'"
proof (cases "handle rd")
  case True
  obtain x w1 where x: "deadline_in (now E) (Some t) w = (x, w1)" by fastforce
  with finishesD(1) [OF assms(1,2)] have w1: "stays w1" by (auto split: prod.splits)
  show ?thesis
  proof (cases "\<exists>dl. x = Ok (Some dl)")
    case True
    then obtain dl where dl: "x = Ok (Some dl)" by blast
    with x assms(3) \<open>handle rd\<close> obtain u w2 where w2: "repeat (join_wait_step E dl) w1 = Some (u, w2)"
      "(case is_finished E w2 of (fin, w3) \<Rightarrow> if fin then Some (Ok (), join_thread E w3, rd\<lparr>handle := False\<rparr>)
          else Some (Ok (), w3, rd)) = Some (r, w', rd')"
      by (auto simp: reader_join_def simp del: deadline_in.simps split: bind_splits)
    have step: "stays v'" if "stays v" "join_wait_step E dl v = Some (y, v')" for v y v'
    proof -
      obtain b v1 where b: "is_finished E v = (b, v1)" by fastforce
      obtain i v2 where i: "now E v1 = (i, v2)" by fastforce
      from finishesD(1) [OF assms(1) finishesD(2) [OF assms(1) that(1) b] i] finishesD(2) [OF assms(1) that(1) b]
        finishesD(3) [OF assms(1)] that(2) b i show ?thesis
        by (auto simp: join_wait_step_def split: if_splits)
    qed
    from w2(1) have "stays w2"
      by (rule repeat_invariant [where P = stays]) (use w1 step in blast)+
    with w2(2) finishesD(2) [OF assms(1) this] finishesD(4) [OF assms(1)] show ?thesis
      by (auto split: prod.splits if_splits)
  next
    case False
    with x assms(3) \<open>handle rd\<close> have "w' = w1"
      by (auto simp: reader_join_def simp del: deadline_in.simps split: result.splits option.splits)
    with w1 show ?thesis by simp
  qed
qed (use assms(2,3) in \<open>simp add: reader_join_def\<close>)

lemma stderr_drained_to_provided_sink:
  assumes "echoes E vst pp clk c d lull due (seconds 5)" "left_alone E collected"
    "start E (bytes_of ''sh'') [bytes_of ''-c'', bytes_of ''echo one >&2; echo two >&2; cat''] None None
       (StderrWriter sink) w = (Ok t, w1)"
    "quiet (spawn []) (pp w1)" "clk w1 + 4 * seconds 5 + 12 * d + 8 * c < INSTANT_END"
    "concat ps = bytes_of ''one'' @ [10] @ bytes_of ''two'' @ [10]" "[] \<notin> set ps"
    "\<And>w w'. join_drain E w = Some w' \<Longrightarrow> \<exists>s. drain pieces_read collector_write (ps, []) = Some ((), s) \<and> collected w' = snd s"
  shows "passes (stderr_drained_to_provided_sink E collected sink w)"
proof -
  from assms(3) have t: "world t = w1" "stderr_thread t" by (auto simp: start_def Let_def split: prod.splits result.splits)
  have "fit_line (bytes_of ''x'')" by (simp add: fit_line_def bytes_of_def MAX_LINE_BYTES_def)
  from echoes_line [OF assms(1) echo_started [OF assms(1,3,4)] this] assms(5) t obtain t1 t2 where
    r: "direct_write_line E t (bytes_of ''x'' @ [10]) = Some (Ok (), t1)"
      "direct_read_line E t1 (Some (seconds 5)) = Some (Ok (bytes_of ''x''), t2)" "stderr_thread t2" "stdin t2"
      "clk (world t2) \<le> clk w1 + seconds 5 + 3 * d + 3 * c"
    by auto
  from assms(1) have k: "close_calls E clk c d" by (simp add: echoes_def)
  from direct_close_time [OF this, of t2 "seconds 5"] r(5) assms(5) obtain t3 where
    c: "direct_close E t2 (seconds 5) = Some (Ok (), t3)" by auto
  then have "collected (world t3) = concat ps"
  proof (cases rule: direct_close_cases)
    case (shut w2 status)
    let ?s = "t2\<lparr>world := w2, stdin := False, exit_code := map_option exit_code_of status\<rparr>"
    from shut(2) r(3) obtain w3 where w3: "join_drain E w2 = Some w3" by (auto simp: join_threads_def split: bind_splits)
    from assms(8) [OF this] drain_collects [OF assms(7)] have got: "collected w3 = concat ps" by auto
    note alone = assms(2) [unfolded left_alone_def]
    show ?thesis
    proof (cases "line_reader ?s")
      case (Some rd)
      with shut(2) r(3) w3 obtain x w4 rd' where j: "reader_join (channel E) (w3, rd) (seconds 5) = Some (x, w4, rd')"
        "world t3 = drop_receiver E w4" by (auto simp: join_threads_def split: bind_splits)
      from reader_join_stays [where stays = "\<lambda>w. collected w = concat ps", OF _ got j(1)] alone j(2) show ?thesis by metis
    qed (use shut(2) r(3) w3 got in \<open>auto simp: join_threads_def\<close>)
  qed (use r in auto)
  with r c show ?thesis by (simp add: stderr_drained_to_provided_sink_def assms(3,6) passes_def)
qed

section \<open>The threaded reader\<close>

text \<open>
  A reader over a source in memory: \<open>pp w\<close> is the pipe between its thread and the caller. A receive takes what is in
  the slot, or finds the thread ended and the slot empty, or gives up; when it is given the time \<open>need\<close> it gives up
  only when the thread has come to rest.
\<close>

definition at_rest :: "pipe \<Rightarrow> bool" where
  "at_rest p \<longleftrightarrow> (\<nexists>p'. pipe_step p p' \<and> \<not> dropped p')"

definition hands_over :: "'w channel_ops \<Rightarrow> ('w \<Rightarrow> pipe) \<Rightarrow> ('w \<Rightarrow> instant) \<Rightarrow> duration \<Rightarrow> duration \<Rightarrow> bool" where
  "hands_over E pp clk c need \<longleftrightarrow> clock_ok (now E) clk c
     \<and> (\<forall>w. quiet (pp w) (pp (snd (now E w))))
     \<and> (\<forall>w t x w'. \<not> dropped (pp w) \<longrightarrow> recv_timeout E w t = (x, w') \<longrightarrow>
          (case x of
             Ok i \<Rightarrow> gives (pp w) i (pp w')
           | Err RecvTimeout \<Rightarrow> need \<le> t \<longrightarrow> (\<exists>p. quiet (pp w) p \<and> at_rest p)
           | Err Disconnected \<Rightarrow> \<exists>p. quiet (pp w) p \<and> thread p = Ended \<and> slot p = None
           | Panic \<Rightarrow> False))"

lemma quiet_facts:
  assumes "quiet p p'"
  shows "received p' = received p" "dropped p' = dropped p" "delivering sent p \<Longrightarrow> delivering sent p'"
  using assms unfolding quiet_def by (induction rule: rtranclp_induct) (auto intro: delivering_step)

text \<open>The next item comes, and nothing else.\<close>

lemma next_item:
  assumes "hands_over E pp clk c need" "delivering sent (pp w)" "\<not> dropped (pp w)" "sent = received (pp w) @ i # is"
    "need + c \<le> t" "clk w + c + t < INSTANT_END" "reader.terminal rd = None"
  shows "\<exists>w'. reader_read_line E (w, rd) (Some t) =
      Some (case i of Line l \<Rightarrow> (Ok l, w', rd) | Terminal e \<Rightarrow> (Err e, w', reader.terminal_update (\<lambda>_. Some e) rd))"
proof -
  have clock: "clock_ok (now E) clk c" and looks: "\<And>w. quiet (pp w) (pp (snd (now E w)))"
    and recvs: "\<And>w t x w'. \<not> dropped (pp w) \<Longrightarrow> recv_timeout E w t = (x, w') \<Longrightarrow>
          (case x of
             Ok i \<Rightarrow> gives (pp w) i (pp w')
           | Err RecvTimeout \<Rightarrow> need \<le> t \<longrightarrow> (\<exists>p. quiet (pp w) p \<and> at_rest p)
           | Err Disconnected \<Rightarrow> \<exists>p. quiet (pp w) p \<and> thread p = Ended \<and> slot p = None
           | Panic \<Rightarrow> False)"
    using assms(1) unfolding hands_over_def by blast+
  obtain a w1 where a: "now E w = (a, w1)" by fastforce
  obtain b w2 where b: "now E w1 = (b, w2)" by fastforce
  note a' = clock_okD [where clock = "now E", OF clock a]
  note b' = clock_okD [where clock = "now E", OF clock b]
  have q: "quiet (pp w) (pp w2)" using looks [of w] looks [of w1] a b quiet_trans by fastforce
  note k = quiet_facts [OF q]
  have more: "received p = received (pp w)" "delivering sent p" "\<not> dropped p" if "quiet (pp w2) p" for p
    using quiet_facts [OF that] k assms(2,3) by auto
  obtain x w3 where x: "recv_timeout E w2 (a + t - b) = (x, w3)" by fastforce
  have "need \<le> a + t - b" using a' b' assms(5) by arith
  moreover have "\<not> (\<exists>p. quiet (pp w2) p \<and> at_rest p)"
  proof
    assume "\<exists>p. quiet (pp w2) p \<and> at_rest p"
    then obtain p where p: "quiet (pp w2) p" "at_rest p" by blast
    from pipe_at_rest [OF more(3) [OF p(1)]] p(2) more(1,2) [OF p(1)] more(3) [OF p(1)] assms(4) show False
      by (auto simp: delivering_def at_rest_def)
  qed
  moreover have "\<not> (\<exists>p. quiet (pp w2) p \<and> thread p = Ended \<and> slot p = None)"
  proof
    assume "\<exists>p. quiet (pp w2) p \<and> thread p = Ended \<and> slot p = None"
    then obtain p where p: "quiet (pp w2) p" "thread p = Ended" "slot p = None" by blast
    from more(2,3) [OF p(1)] more(1) [OF p(1)] p(2,3) assms(4) show False by (simp add: delivering_def)
  qed
  moreover have "j = i" if "gives (pp w2) j p'" for j p'
    using that more assms(4) by (fastforce simp: gives_def delivering_def)
  moreover have "\<not> dropped (pp w2)" using k(2) assms(3) by simp
  ultimately have "x = Ok i" using recvs [OF _ x] by (auto split: result.splits recv_error.splits)
  moreover have "deadline_in (now E) (Some t) w = (Ok (Some (a + t)), w1)" using a a' assms(6) by (simp add: add_instant_def)
  ultimately show ?thesis
    using b x by (cases i)
      (simp_all add: reader_read_line_def assms(7) Loops.repeat.simps recv_step_def receive_def del: deadline_in.simps)
qed

text \<open>The join at the end of the tests.\<close>

lemma reader_join_passes:
  "channel_time E clk c d \<Longrightarrow> clk w + c + t < INSTANT_END \<Longrightarrow> \<exists>s. reader_join E (w, rd) t = Some (Ok (), s)"
  using reader_join_time [OF _ finishes_never TrueI, of E clk c d w t rd] by fast

definition is_protocol :: "(bytes, error) result \<Rightarrow> bool" where
  "is_protocol r \<longleftrightarrow> (\<exists>m. r = Err (Protocol m))"

text \<open>\<open>E\<close> and \<open>w\<close>: the channel of a reader that was just spawned over the source of the test.\<close>

definition terminal_error_is_memoized_after_eof :: "'w channel_ops \<Rightarrow> 'w \<Rightarrow> bool option" where
  "terminal_error_is_memoized_after_eof E w =
     do {
       (rs, s) \<leftarrow> reader_reads E (replicate 11 (Some (seconds 5))) (w, spawned);
       (c, s') \<leftarrow> reader_join E s (seconds 5);
       Some (list_all is_protocol rs \<and> is_ok c)
     }"

definition reads_a_line_terminated_by_newline :: "'w channel_ops \<Rightarrow> 'w \<Rightarrow> bool option" where
  "reads_a_line_terminated_by_newline E w =
     do {
       (r, s) \<leftarrow> reader_read_line E (w, spawned) (Some (seconds 5));
       (c, s') \<leftarrow> reader_join E s (seconds 5);
       Some (r = Ok (bytes_of ''hello'') \<and> is_ok c)
     }"

lemma reader_reads_memoized:
  "reader.terminal rd = Some e \<Longrightarrow> reader_reads E ts (w, rd) = Some (replicate (length ts) (Err e), (w, rd))"
  by (induction ts) (auto simp: reader_read_line_def)

lemma delivering_spawn: "delivering (items_of new_framer rs) (spawn rs)"
  by (simp add: delivering_def spawn_def)

lemma terminal_error_is_memoized_after_eof:
  assumes "hands_over E pp clk c need" "channel_time E clk c d" "pp w = spawn [Ok []]" "need + c \<le> seconds 5"
    "clk w + 2 * seconds 5 + d + 4 * c < INSTANT_END"
  shows "passes (terminal_error_is_memoized_after_eof E w)"
proof -
  have "delivering [Terminal eof_error] (pp w)" "\<not> dropped (pp w)" "[Terminal eof_error] = received (pp w) @ Terminal eof_error # []"
    using delivering_spawn [of "[Ok []]"] assms(3) by (simp_all add: spawn_def)
  from next_item [OF assms(1) this assms(4), of spawned] assms(5) obtain w1 where
    w1: "reader_read_line E (w, spawned) (Some (seconds 5)) = Some (Err eof_error, w1, reader.terminal_update (\<lambda>_. Some eof_error) spawned)"
    by (auto simp: spawned_def)
  let ?rd = "reader.terminal_update (\<lambda>_. Some eof_error) spawned"
  have eleven: "replicate 11 x = x # replicate 10 x" for x :: 'y by (simp add: eval_nat_numeral)
  have rs: "reader_reads E (replicate 11 (Some (seconds 5))) (w, spawned) = Some (replicate 11 (Err eof_error), (w1, ?rd))"
    unfolding eleven reader_reads.simps(2) w1 by (simp add: reader_reads_memoized)
  from reader_read_time [OF assms(2), of w spawned "seconds 5"] w1 assms(5) have "clk w1 + c + seconds 5 < INSTANT_END" by auto
  from reader_join_passes [OF assms(2) this, of ?rd] obtain s where "reader_join E (w1, ?rd) (seconds 5) = Some (Ok (), s)" by blast
  with rs show ?thesis
    by (simp add: terminal_error_is_memoized_after_eof_def passes_def is_protocol_def eof_error_def list_all_iff)
qed

lemma reads_a_line_terminated_by_newline:
  assumes "hands_over E pp clk c need" "channel_time E clk c d" "pp w = spawn [Ok (bytes_of ''hello'' @ [10]), Ok []]"
    "need + c \<le> seconds 5" "clk w + 2 * seconds 5 + d + 4 * c < INSTANT_END"
  shows "passes (reads_a_line_terminated_by_newline E w)"
proof -
  let ?sent = "[Line (bytes_of ''hello''), Terminal eof_error]"
  have "items_of new_framer [Ok (bytes_of ''hello'' @ [10]), Ok []] = ?sent"
    using reader_items_are_lines [of "[bytes_of ''hello'' @ [10]]"] by (simp add: lines_fit_def bytes_of_def MAX_LINE_BYTES_def)
  with delivering_spawn [of "[Ok (bytes_of ''hello'' @ [10]), Ok []]"] assms(3)
  have "delivering ?sent (pp w)" "\<not> dropped (pp w)" "?sent = received (pp w) @ Line (bytes_of ''hello'') # [Terminal eof_error]"
    by (simp_all add: spawn_def)
  from next_item [OF assms(1) this assms(4), of spawned] assms(5) obtain w1 where
    w1: "reader_read_line E (w, spawned) (Some (seconds 5)) = Some (Ok (bytes_of ''hello''), w1, spawned)"
    by (auto simp: spawned_def)
  from reader_read_time [OF assms(2), of w spawned "seconds 5"] w1 assms(5) have "clk w1 + c + seconds 5 < INSTANT_END" by auto
  from reader_join_passes [OF assms(2) this, of spawned] obtain s where "reader_join E (w1, spawned) (seconds 5) = Some (Ok (), s)" by blast
  with w1 show ?thesis by (simp add: reads_a_line_terminated_by_newline_def passes_def)
qed

section \<open>A concrete child\<close>

text \<open>
  \<open>cat\<close> with a machine around it: the world is the pipe, the time, and the child's fate. The reader thread runs when
  the caller waits, and the child dies fifty milliseconds after the end of its input.
\<close>

type_synonym cat_world = "pipe \<times> instant \<times> (instant \<times> exit_status) option"

definition cat_channel :: "cat_world channel_ops" where
  "cat_channel =
     \<lparr>recv = (\<lambda>(p, m). case slot (settle p) of
          Some i \<Rightarrow> Some (Some i, ((settle p)\<lparr>slot := None, received := received (settle p) @ [i]\<rparr>, m))
        | None \<Rightarrow> if thread (settle p) = Ended then Some (None, (settle p, m)) else None),
      recv_timeout = (\<lambda>(p, now, f) t. case slot (settle p) of
          Some i \<Rightarrow> (Ok i, ((settle p)\<lparr>slot := None, received := received (settle p) @ [i]\<rparr>, now, f))
        | None \<Rightarrow> (Err (if thread (settle p) = Ended then Disconnected else RecvTimeout), (settle p, now + t, f))),
      is_finished = (\<lambda>(p, now, f). (case f of Some (dead, st) \<Rightarrow> dead \<le> now | None \<Rightarrow> False, (p, now, f))),
      join_thread = (\<lambda>w. w), now = (\<lambda>w. (fst (snd w), w)), sleep = (\<lambda>(p, now, f) t. (p, now + t, f))\<rparr>"

definition cat :: "(cat_world, unit) process_ops" where
  "cat =
     \<lparr>channel = cat_channel,
      spawn_child = (\<lambda>w cmd. (Ok (), w)), spawn_reader = (\<lambda>(p, m). (spawn [], m)), spawn_drain = (\<lambda>w k. w),
      child_id = (\<lambda>w. 42),
      stdin_write_all = (\<lambda>(p, m) line.
        Some (Ok (), (p\<lparr>source := source p @ map Ok [fst (echo () (butlast line)) @ [10]]\<rparr>, m))),
      stdin_flush = (\<lambda>w. Some (Ok (), w)),
      drop_stdin = (\<lambda>(p, now, f). (p, now, case f of None \<Rightarrow> Some (now + millis 50, Exited 0) | Some x \<Rightarrow> Some x)),
      try_wait = (\<lambda>(p, now, f).
        (Inr (case f of Some (dead, st) \<Rightarrow> if dead \<le> now then Some st else None | None \<Rightarrow> None), (p, now, f))),
      kill_syscall = (\<lambda>w pid sig. (0, w)), kill_child = (\<lambda>w. (Inr (), w)),
      wait_child = (\<lambda>w. Some (Inr (Exited 0), w)), join_drain = (\<lambda>w. Some w),
      drop_receiver = (\<lambda>(p, m). (p\<lparr>dropped := True\<rparr>, m))\<rparr>"

abbreviation cat_time :: "cat_world \<Rightarrow> instant" where
  "cat_time w \<equiv> fst (snd w)"

abbreviation cat_fate :: "cat_world \<Rightarrow> (instant \<times> exit_status) option" where
  "cat_fate w \<equiv> snd (snd w)"

lemma cat_calls: "close_calls cat cat_time (millis 1) (millis 10)"
proof -
  have "clock_ok (now cat_channel) cat_time (millis 1)" by (simp add: clock_ok_def cat_channel_def)
  then have "channel_time cat_channel cat_time (millis 1) (millis 10)"
    by (auto simp: channel_time_def cat_channel_def split: option.splits)
  then show ?thesis
    by (auto simp: close_calls_def process_time_def lasts_def cat_def)
qed

lemma cat_brisk: "brisk cat cat_time cat_fate" "reads_its_input cat cat_time cat_fate"
proof -
  have "mortal cat cat_time cat_fate"
    by (auto simp: mortal_def cat_def cat_channel_def split: option.splits)
  moreover have "finishes (channel cat) cat_time (\<lambda>w. cat_fate w = Some f) (Some (fst f + millis 200))" for f
    by (auto simp: finishes_def cat_def cat_channel_def)
  ultimately show "brisk cat cat_time cat_fate"
    using cat_calls by (simp add: brisk_def winds_up_def)
  show "reads_its_input cat cat_time cat_fate"
    by (auto simp: reads_its_input_def cat_def millis_def)
qed

lemma cat_echoes: "echoes cat (\<lambda>w. ()) fst cat_time (millis 1) (millis 10) (\<lambda>_. 0) (\<lambda>_. 0) (seconds 5)"
proof -
  have given: "gives p i ((settle p)\<lparr>slot := None, received := received (settle p) @ [i]\<rparr>)"
    if "slot (settle p) = Some i" for p i
    unfolding gives_def using settle_quiet that by (intro exI [of _ "settle p"]) simp
  have rest: "\<exists>q. quiet p q \<and> (\<nexists>p'. pipe_step q p' \<and> \<not> dropped p')" if "slot (settle p) = None" for p
    using settle_quiet thread_next_None that by blast
  have put: "\<exists>q cs. quiet p q \<and> concat cs = a @ [10] \<and> [] \<notin> set cs
      \<and> quiet (q\<lparr>source := source q @ map Ok cs\<rparr>) (p\<lparr>source := source p @ [Ok (a @ [10])]\<rparr>)" for p a
    by (intro exI [of _ p] exI [of _ "[a @ [10]]"]) auto
  have "fit_line (fst (echo () req))" for req by (simp add: echo_def fit_line_def)
  with put given settle_quiet have "child_serves cat echo (\<lambda>w. ()) fst"
    unfolding child_serves_def case_prod_unfold
    by (auto simp: cat_def cat_channel_def case_prod_unfold split: option.splits if_splits)
  moreover have "child_lively cat fst"
    using rest by (auto simp: child_lively_def cat_def cat_channel_def case_prod_unfold split: option.splits if_splits)
  moreover have "child_in_time cat fst cat_time (millis 1) (\<lambda>_. 0) (\<lambda>_. 0) (Some (seconds 5))"
    using rest unfolding child_in_time_def option.case
    by (auto simp: cat_def cat_channel_def clock_ok_def millis_def seconds_def split: option.splits if_splits)
  ultimately show ?thesis
    using cat_calls unfolding echoes_def by (auto simp: cat_def lasts_def)
qed

lemma cat_started:
  "test_start cat ''cat'' [] (p, 0, None) = (Ok \<lparr>world = (spawn [], 0, None), stdin = True, line_reader = Some spawned,
     stderr_thread = False, exit_code = None\<rparr>, (spawn [], 0, None))"
  by (simp add: test_start_def start_def cat_def Let_def)

lemma tests_of_cat:
  "passes (write_read_echo_via_cat cat (p, 0, None))" "passes (close_via_stdin_reaps_promptly cat (p, 0, None))"
  "passes (double_close_is_safe cat (p, 0, None))"
proof -
  show "passes (write_read_echo_via_cat cat (p, 0, None))"
    by (rule write_read_echo_via_cat [OF cat_echoes cat_started]) (simp_all add: millis_def seconds_def INSTANT_END_def)
  show "passes (close_via_stdin_reaps_promptly cat (p, 0, None))"
    by (rule close_via_stdin_reaps_promptly [OF cat_brisk cat_started]) (simp_all add: seconds_def INSTANT_END_def)
  show "passes (double_close_is_safe cat (p, 0, None))"
    by (rule double_close_is_safe [OF cat_calls cat_started]) (simp add: millis_def seconds_def INSTANT_END_def)
qed

end
