(* ===== verification/Spec2Isabelle.thy ===== *)
theory Spec2Isabelle
  imports JsonRoundtrip Base64 Cells SocketProps ReaderProps DirectProps Dial Client Typed SocketRpc ChildRpc Teardown CodecTests SocketTests DirectTests
begin

text \<open>
  The Rust client of SanDBox (\<open>src/rust/src/\<close>): a driver that talks to a database server over a
  protocol of one JSON object per line, either with a child process or over a socket.

  \<^bold>\<open>The program and its parts.\<close> An operation (\<open>client.rs\<close>, \<open>session.rs\<close>) becomes a list of fields; the
  codec (\<open>codec/\<close>) writes them as one line; a transport (\<open>transport/\<close>) writes the line, reads the
  answer's line back within a timeout, and the codec decodes it into the result type of the
  operation. Sessions are generic in their transport; the two transports share the line framer.

  \<^bold>\<open>How the code is modelled.\<close> A Rust \<open>Result\<close> is \<open>result\<close> with a third case \<open>Panic\<close>; unsigned and signed
  machine integers are words of their width; \<open>Vec<u8>\<close> is a list of 8-bit words, a \<open>String\<close> the list of
  its scalar values (theory Utf8 has the encoding); \<open>&mut self\<close> is a state that is returned. What
  the crate takes from outside - streams, processes, the clock, threads, the channel - is a record of
  operations over a world \<open>'w\<close> that the definitions are given as an argument, an operation that may
  never return having an \<open>option\<close> result. \<open>Duration\<close> and \<open>Instant\<close> are nanoseconds, with the
  overflow of \<open>Instant + Duration\<close> written out (at the \<open>i64\<close> seconds that the standard library has on Unix). Loops that wait are \<open>repeat\<close> of theory Loops (a
  \<open>partial_function\<close>, where \<open>None\<close> is not returning); all others are total functions. No fuel is
  used anywhere: the recursive-descent parser recurses on the bytes that are left.

  \<^bold>\<open>The theories.\<close>
  \<^item> Prelude, Utf8, StdText, F64: the vocabulary, and what the crate uses of the standard library:
    slices, UTF-8, decimal printing and parsing of integers and of \<open>f64\<close> (as bit patterns; the shortest
    decimal that rounds back, correct rounding of a decimal).
  \<^item> Errors: \<open>error.rs\<close>.
  \<^item> Base64: \<open>codec/base64.rs\<close>; decoding undoes encoding, what is accepted, the length.
  \<^item> Json (tree and writer), JsonParser: \<open>codec/json.rs\<close>. JsonGrammar has the RFC 8259 grammar as
    relations that use nothing of the parser, and proves the parser sound for it, JsonComplete complete, JsonSafe free of panics,
    JsonRoundtrip that writing and parsing are inverse and that a written tree is one line.
  \<^item> Encode: \<open>value.rs\<close> and \<open>codec/encode.rs\<close>. Decode: \<open>codec/decode.rs\<close>, with the exact set of inputs each
    decoder accepts, and the round trip of values (an instance of the locale \<open>codec\<close>).
  \<^item> Nearest: correct rounding as a best approximation over the reals, and that the model's is that. Cells: the
    protocol's assignment of values to the text of a cell, as a relation of its own (digits, nearest double,
    string grammar, Base64 as a change of base), which parser and decoder read exactly.
  \<^item> Framer: \<open>LineFramer\<close> of \<open>transport/mod.rs\<close>, a refinement of splitting the whole stream at once, with
    its bounds on memory and on the bytes its scans for line feeds inspect, which the model of \<open>take_line\<close>
    counts itself.
  \<^item> Session: the trait \<open>Transport\<close> and \<open>session.rs\<close> (with \<open>Client::overwrite\<close>). SessionProps: the log of what a
    session does to its transport, the specification \<open>exchange\<close> of a call, and the locale \<open>transport\<close> -
    what a session needs of a transport so that an ended connection stays ended.
  \<^item> Loops: waiting loops with their invariant and termination rules, and the clock.
  \<^item> Socket, Dial: \<open>transport/socket.rs\<close>; SocketProps: no byte is lost across lines and timeouts,
    reads come back, timeouts are neither early nor late. Socket interprets the locale \<open>transport\<close>.
  \<^item> Reader: the caller's side of \<open>transport/reader.rs\<close>. ReaderThread: its thread and the channel of one
    slot as a step relation that interleaves both sides, with delivery in order, termination, and
    freedom from deadlock. ReaderProps puts the two together.
  \<^item> Direct: \<open>transport/direct.rs\<close> and \<open>signal.rs\<close>, with the second interpretation of \<open>transport\<close>; DirectProps:
    the order of the stages of a shutdown, and the time of each; CloseTime: the time of a whole shutdown, and what it
    finds out of a child whose death is known.
  \<^item> Client: \<open>client.rs\<close>: options, constructors, and the trait \<open>Connection\<close> as a record with its two
    instances.
  \<^item> Rpc: what a connection is for. Its specification is a server as a function from its state and a
    request's text to its answer, and \<open>rpc_all\<close>, which applies it; \<open>served\<close> adds what timeouts and panics
    may cut off. The locale \<open>answering\<close> says when a transport has such a server at its other end and proves
    that a session over it refines the specification; \<open>prompt\<close> extends it by progress within a timeout (or
    without one) and proves that the session then gives exactly the specification's results. Typed: the results are well typed.
  \<^item> Owed: answers on their way through a framer. SocketRpc, ChildRpc: both transports interpret both locales
    (the child's through the step relation of its reader thread, under any interleaving), which gives the
    end-to-end properties of \<open>connect_socket\<close> and \<open>connect_with\<close>.
  \<^item> Teardown: the life of a child under a session, as an invariant of every program of requests.
  \<^item> JsonTests, CodecTests: the crate's unit tests of codec and framer, each as a statement that the model
    satisfies. SocketTests, DirectTests: those of the transports and the reader, as programs over the model, with lemmas
    that they pass where the other end does what the test has it do.
  \<^item> this theory: a query through all layers, and values there and back.

  \<^bold>\<open>What is assumed of the outside\<close>, always by name as a hypothesis: \<open>counts_bytes\<close> (a ghost function tells
  which bytes a stream has given out), \<open>counts_items\<close> (the same for the channel), \<open>clock_ok\<close>, \<open>polling\<close>, \<open>channel_time\<close>, \<open>process_time\<close>,
  \<open>prompt_connect\<close> (how long single calls take: a read with a read timeout comes back, \<open>sleep\<close>
  sleeps), \<open>observes\<close> and \<open>talks_quietly\<close> (a ghost log of what was done to a child), \<open>serves\<close> and
  \<open>child_serves\<close> (a server answers each line by one line within the cap, and nothing else comes out),
  \<open>replies\<close> and \<open>child_lively\<close> (what is there to be read is given out in the end), \<open>in_time\<close> and \<open>child_in_time\<close>
  (and before the timeout is over, however often \<open>recv_timeout\<close> gives up early), \<open>clock_lasts\<close> (an instant plus the timeout does not overflow), \<open>close_calls\<close>,
  \<open>mortal\<close> and \<open>winds_up\<close> (how long the calls of a shutdown take, when the child dies and its output ends). Each has a concrete instance
  with which the properties are applied to examples.

  \<^bold>\<open>Not modelled.\<close> The other language drivers of the repository; the listeners and
  temporary files the transports' tests set up, and \<open>real_token_table\<close> (see CodecTests); the conformance runner and
  documentation examples; \<open>Debug\<close>, \<open>Clone\<close> and \<open>PartialEq\<close> derivations; \<open>VERSION\<close>. The stack is
  unbounded: the parser's recursion depth is not limited by the code. Both variants of the code that
  depends on the platform (\<open>terminate\<close>, \<open>exit_code_of\<close>) are there; the shutdown is stated for Unix, and
  the other variant is its instance whose signals do nothing. Threads other than the reader's (the drain of standard error) are modelled as
  the function they run.
\<close>

section \<open>A query from end to end\<close>

text \<open>The answer of a server to a query, as JSON and as the line it sends.\<close>

definition answer :: "query_result \<Rightarrow> json" where
  "answer q = JObject [(str ''ok'', JBool True), (str ''columns'', JArray (map JString (columns q))),
     (str ''rows'', JArray (map row_of (rows q)))]"

definition answer_line :: "query_result \<Rightarrow> bytes" where
  "answer_line q = utf8 (write_json (answer q))"

definition wf_answer :: "query_result \<Rightarrow> bool" where
  "wf_answer q \<longleftrightarrow> list_all valid_string (columns q) \<and> (\<forall>r\<in>set (rows q). \<forall>v\<in>set r. encodable v \<and> wf_val v)"

lemma wf_json_answer: "wf_answer q \<Longrightarrow> wf_json (answer q)"
  using wf_json_of by (auto simp: wf_answer_def answer_def list_all_iff row_of_def is_scalar_def intro!: valid_string_ascii)

lemma answer_line_one_line: "wf_answer q \<Longrightarrow> 10 \<notin> set (answer_line q)"
  using write_json_bytes_ge [OF wf_json_answer] by (fastforce simp: answer_line_def)

lemma get_answer:
  "get (answer q) (str ''ok'') = Some (JBool True)"
  "get (answer q) (str ''columns'') = Some (JArray (map JString (columns q)))"
  "get (answer q) (str ''rows'') = Some (JArray (map row_of (rows q)))"
  by (simp_all add: answer_def)

lemma response_of_answer: "wf_answer q \<Longrightarrow> response_of (answer_line q) = Ok (answer q)"
  using parse_write [OF wf_json_answer] get_answer(1)
  by (simp add: response_of_def decode_response_line_def answer_line_def Let_def) (simp add: answer_def)

lemma decode_answer: "wf_answer q \<Longrightarrow> decode_query_response (answer q) = Ok q"
  using decode_rows_row_of [of "rows q"] get_answer
  by (cases q) (auto simp: decode_query_response_def wf_answer_def list_all_iff)

text \<open>
  C7: On any transport: when the request has been written and the server's answer comes back as its
  line, a query returns exactly the columns and rows the server answered, and the session is as before.
\<close>
theorem query_returns_the_answer:
  assumes "\<not> is_closed s" "list_all encodable params" "wf_answer q"
    "write_line T (conn s) (encode_request_line (statement_fields ''query'' sq
       (if params = [] then None else Some (JArray (map json_of params))))) = Some (Ok (), t1)"
    "read_line T t1 (default_timeout s) = Some (Ok (answer_line q), t2)"
  shows "query T s sq params = Some (Ok q, s\<lparr>conn := t2\<rparr>)"
proof -
  let ?p = "if params = [] then None else Some (JArray (map json_of params))"
  have p: "encode_params params = Ok ?p"
    using encode_items_spec [of params 0 "[]"] assms(2) by (simp add: encode_params_def)
  have "call T s (statement_fields ''query'' sq ?p) = Some (Ok (answer q), s\<lparr>conn := t2\<rparr>)"
    using assms(1,4,5) response_of_answer [OF assms(3)] by (simp add: call_def)
  with p decode_answer [OF assms(3)] show ?thesis by (simp add: query_def call_and_def)
qed

text \<open>
  C6: Through the whole stack over a socket: if a query on a connection with nothing pending returns a
  result, and what the stream gave out meanwhile - in whatever pieces - is one answer and its
  line feed, then the result is that answer, and nothing is pending again.
\<close>
theorem query_over_socket:
  assumes "counts_bytes E got" "framing (conn s) = new_framer"
    "query (socket_transport E) s sq params = Some (Ok r, s')"
    "got (stream (conn s')) = got (stream (conn s)) @ answer_line q @ [10]" "wf_answer q"
  shows "r = q \<and> buf (framing (conn s')) = []"
proof -
  from assms(3) obtain p j where c: "call (socket_transport E) s (statement_fields ''query'' sq p) = Some (Ok j, s')"
    "decode_query_response j = Ok r"
    by (auto simp: query_def call_and_Some eq_commute [of "Ok r"] split: result.splits)
  from c(1) obtain t1 line t2 where io: "socket_write_line E (conn s) (encode_request_line (statement_fields ''query'' sq p)) = Some (Ok (), t1)"
      "socket_read_line E t1 (default_timeout s) = Some (Ok line, t2)" "response_of line = Ok j" "s' = s\<lparr>conn := t2\<rparr>"
    by (elim call_Ok) simp
  have t1: "framing t1 = new_framer" "got (stream t1) = got (stream (conn s))"
    using socket_write_keeps [OF io(1)] counts_write [OF assms(1) io(1)] assms(2) by simp_all
  from socket_read_exact [OF io(2) _ assms(1)] t1(1) obtain new where
    "got (stream t2) = got (stream t1) @ new" "accounts [] new (Ok line) (buf (framing t2))"
    by (auto simp: new_framer_def framer_ok_def)
  with assms(4) t1(2) io(4) have eq: "answer_line q @ [10] = line @ 10 # buf (framing t2)" "10 \<notin> set line" by auto
  with answer_line_one_line [OF assms(5)] have "line = answer_line q" "buf (framing t2) = []"
    by (auto simp: append_eq_append_conv2) (case_tac us; auto)+
  then show ?thesis
    using response_of_answer [OF assms(5)] decode_answer [OF assms(5)] io(3,4) c(2) by simp
qed

text \<open>
  C8: What a server can read of a statement: the request of a query or an exec is one line, whose JSON has the
  operation, the SQL text and, when there are any, the parameters in order, each of which decodes to the
  value that was passed.
\<close>
theorem statement_is_readable:
  assumes "valid_string sq" "\<forall>v\<in>set params. encodable v \<and> wf_val v" "name = ''query'' \<or> name = ''exec''"
  shows "\<exists>p text js. encode_params params = Ok p
    \<and> encode_request_line (statement_fields name sq p) = text @ [10] \<and> 10 \<notin> set text
    \<and> parse text = Ok (JObject ([(str ''op'', JString (str name)), (str ''sql'', JString sq)]
        @ (if params = [] then [] else [(str ''params'', JArray js)])))
    \<and> list_all2 (\<lambda>j v. decode_value j = Ok v) js params"
proof -
  have enc: "list_all encodable params" using assms(2) by (auto simp: list_all_iff)
  define p where "p = (if params = [] then None else Some (JArray (map json_of params)))"
  have enc_p: "encode_params params = Ok p"
    using encode_items_spec [of params 0 "[]"] enc by (auto simp: encode_params_def p_def)
  have wf_p: "wf_json j" if "p = Some j" for j
    using that assms(2) wf_json_of by (auto simp: p_def list_all_iff split: if_splits)
  have "\<exists>text. encode_request_line (statement_fields name sq p) = text @ [10] \<and> 10 \<notin> set text
    \<and> parse text = Ok (JObject (map (\<lambda>(k, v). (str k, v)) (statement_fields name sq p)))"
    by (rule encode_request_line_spec)
       (use assms(1,3) wf_p in \<open>auto simp: statement_fields_def op_field_def list_all_iff is_scalar_def json_str_def
          intro!: valid_string_ascii split: option.splits\<close>)
  moreover have "list_all2 (\<lambda>j v. decode_value j = Ok v) (map json_of params) params"
    using enc by (auto simp: list_all2_conv_all_nth list_all_length decode_value_json_of)
  ultimately show ?thesis
    using enc_p by (cases "params = []") (auto simp: p_def statement_fields_def op_field_def json_str_def)
qed

text \<open>A server that answers a query with its parameters as they came, as the only row.\<close>

definition echo :: "'v \<Rightarrow> json \<Rightarrow> (string \<times> json) list \<times> 'v" where
  "echo v j =
     ([(''columns'', JArray []), (''rows'', JArray [case get j (str ''params'') of Some p \<Rightarrow> p | None \<Rightarrow> JArray []])], v)"

text \<open>
  C11: Values survive the trip: parameters of any values, sent as the request of a query to a server that
  puts them into its answer as they came, are returned as the row they were - every integer, finite
  REAL, text and BLOB, in order, through encoder, writer, parser and decoder, both ways.
\<close>
theorem values_survive_the_trip:
  assumes "valid_string sq" "\<forall>v\<in>set params. encodable v \<and> wf_val v"
  shows "rpc (json_server echo) (Query sq params) v = (Ok (QueryReply \<lparr>columns = [], rows = [params]\<rparr>), v)"
proof -
  let ?q = "\<lparr>columns = [], rows = [params]\<rparr>"
  let ?p = "if params = [] then None else Some (JArray (map json_of params))"
  let ?kvs = "statement_fields ''query'' sq ?p"
  have r: "remote (Query sq params)" using assms by simp
  have "encode_params params = Ok ?p"
    using encode_items_spec [of params 0 "[]"] assms(2) by (auto simp: encode_params_def list_all_iff)
  then have f: "fields_of (Query sq params) = Ok ?kvs" by simp
  have "(case get (object_of ?kvs) (str ''params'') of Some p \<Rightarrow> p | None \<Rightarrow> JArray []) = row_of params"
    by (simp add: statement_fields_def op_field_def row_of_def)
  then have e: "echo v (object_of ?kvs) = ([(''columns'', JArray []), (''rows'', JArray [row_of params])], v)"
    by (simp add: echo_def)
  have w: "wf_answer ?q" using assms(2) by (simp add: wf_answer_def)
  have "wf_json (answer ?q)" by (rule wf_json_answer [OF w])
  then have "wf_fields [(''columns'', JArray []), (''rows'', JArray [row_of params])]" by (simp add: answer_def)
  note rpc = rpc_json_server [where h = echo and v = v, OF r f e this]
  have "object_of [(''ok'', JBool True), (''columns'', JArray []), (''rows'', JArray [row_of params])] = answer ?q"
    by (simp add: answer_def)
  with rpc decode_answer [OF w] show ?thesis by simp
qed

section \<open>Examples\<close>

lemma values_survive_the_trip_witness:
  "rpc (json_server echo) (Query [97] [Integer (- 1), Real 0x8000000000000000, Null, Text [233], Blob [0, 255]]) () =
     (Ok (QueryReply \<lparr>columns = [], rows = [[Integer (- 1), Real 0x8000000000000000, Null, Text [233], Blob [0, 255]]]\<rparr>), ())"
  by (rule values_survive_the_trip) (simp_all add: is_scalar_def is_finite_def mag_def inf_mag_def)


definition one_row :: query_result where
  "one_row = \<lparr>columns = [str ''n''], rows = [[Integer 7], [Null]]\<rparr>"

lemma wf_one_row: "wf_answer one_row"
  by (simp add: wf_answer_def one_row_def is_scalar_def)

lemma query_returns_the_answer_witness:
  "\<exists>s'. query scripted \<lparr>session_hello = \<lparr>protocol = 1, hello_version = [], product = []\<rparr>, conn = [answer_line one_row],
      default_timeout = None, is_closed = False\<rparr> [97] [Integer 1] = Some (Ok one_row, s')"
proof -
  let ?s = "\<lparr>session_hello = \<lparr>protocol = 1, hello_version = [], product = []\<rparr>, conn = [answer_line one_row],
      default_timeout = None, is_closed = False\<rparr>"
  have "query scripted ?s [97] [Integer 1] = Some (Ok one_row, ?s\<lparr>conn := []\<rparr>)"
    by (rule query_returns_the_answer [where ?t1.0 = "[answer_line one_row]"])
       (simp_all add: scripted_def wf_one_row)
  then show ?thesis by blast
qed

lemma statement_is_readable_witness:
  "\<exists>text js. encode_request_line (statement_fields ''exec'' [97] (Some (JArray [json_of (Integer 5)]))) = text @ [10]
     \<and> parse text = Ok (JObject [(str ''op'', JString (str ''exec'')), (str ''sql'', JString [97]), (str ''params'', JArray js)])
     \<and> list_all2 (\<lambda>j v. decode_value j = Ok v) js [Integer 5]"
proof -
  have "encode_params [Integer 5] = Ok (Some (JArray [json_of (Integer 5)]))" by (simp add: encode_params_def)
  then show ?thesis using statement_is_readable [of "[97]" "[Integer 5]" "''exec''"] by (auto simp: is_scalar_def)
qed

lemma take_whole_line:
  assumes "10 \<notin> set l"
  shows "take_line \<lparr>buf = l @ [10], scanned = 0\<rparr> = (Ok (Some l), \<lparr>buf = [], scanned = 0\<rparr>)"
proof -
  have "\<forall>b\<in>set l. b \<noteq> 10" using assms by auto
  then have "takeWhile (\<lambda>b. b \<noteq> 10) (l @ [10]) = l" "dropWhile (\<lambda>b. b \<noteq> 10) (l @ [10]) = [10]"
    using takeWhile_append_stop [of l "\<lambda>b. b \<noteq> 10" "[10]"] by simp_all
  then show ?thesis by (subst take_line_spec) (simp_all add: framer_ok_def)
qed

lemma one_row_short: "length (answer_line one_row) < 100"
  by code_simp

lemma one_row_length: "length (answer_line one_row) < BUF_SIZE"
  using one_row_short by (simp add: BUF_SIZE_def)

lemma query_over_socket_witness:
  "\<exists>s'. query (socket_transport pieces) \<lparr>session_hello = \<lparr>protocol = 1, hello_version = [], product = []\<rparr>,
      conn = from_stream ([answer_line one_row @ [10]], [], 0), default_timeout = None, is_closed = False\<rparr> [97] []
      = Some (Ok one_row, s') \<and> buf (framing (conn s')) = []"
proof -
  let ?s = "\<lparr>session_hello = \<lparr>protocol = 1, hello_version = [], product = []\<rparr>,
      conn = from_stream ([answer_line one_row @ [10]], [], 0 :: nat), default_timeout = None, is_closed = False\<rparr>"
  let ?s' = "?s\<lparr>conn := \<lparr>stream = ([], answer_line one_row @ [10], 1), framing = \<lparr>buf = [], scanned = 0\<rparr>, terminal = None\<rparr>\<rparr>"
  have "socket_read_line pieces (conn ?s) None = Some (Ok (answer_line one_row), conn ?s')"
    using one_row_length take_whole_line [OF answer_line_one_line [OF wf_one_row]]
    by (simp add: socket_read_line_def from_stream_def new_framer_def take_or_terminal_def Loops.repeat.simps
        read_step_def pieces_def push_def Let_def take_line_eq [of "\<lparr>buf = [], scanned = 0\<rparr>"] MAX_LINE_BYTES_def)
  moreover have "socket_write_line pieces (conn ?s) line = Some (Ok (), conn ?s)" for line
    by (simp add: socket_write_line_def pieces_def from_stream_def)
  ultimately have "call (socket_transport pieces) ?s kvs = Some (Ok (answer one_row), ?s')" for kvs
    by (simp add: call_def response_of_answer [OF wf_one_row])
  then have q: "query (socket_transport pieces) ?s [97] [] = Some (Ok one_row, ?s')"
    by (simp add: query_def call_and_def encode_params_def decode_answer [OF wf_one_row])
  have "framing (conn ?s) = new_framer" by (simp add: from_stream_def)
  from query_over_socket [OF pieces_count this q _ wf_one_row] q show ?thesis
    by (auto simp: from_stream_def)
qed

end
